(* ===== verification/Prelude.thy ===== *)
theory Prelude
  imports Main "HOL-Library.Word" "HOL-Library.Signed_Division" "HOL-Library.Multiset"
    "HOL-Library.While_Combinator"
begin

text \<open>
  The prelude of the development: C's signed machine integers as \<^typ>\<open>int\<close> with the
  two's complement wrap-around written out, the ways the kernel stops (\<open>panic\<close>) with
  the result type of code that may panic, and the ordered insertion into a list with the
  lemmas every queue of the kernel shares.  The three collections of simplification rules
  the component proofs name are declared here too.
\<close>

named_theorems c_int_simps \<open>facts that remove a wrap-around whose argument is in range\<close>
named_theorems res_simps \<open>rules that run code of the result type\<close>
named_theorems ins_simps \<open>facts on ordered insertion\<close>

section \<open>Signed machine integers\<close>

definition i32 :: "int \<Rightarrow> int" where
  "i32 x = signed_take_bit 31 x"

definition i64 :: "int \<Rightarrow> int" where
  "i64 x = signed_take_bit 63 x"

definition is_i32 :: "int \<Rightarrow> bool" where
  "is_i32 x \<longleftrightarrow> - 2147483648 \<le> x \<and> x < 2147483648"

definition is_i64 :: "int \<Rightarrow> bool" where
  "is_i64 x \<longleftrightarrow> - 9223372036854775808 \<le> x \<and> x < 9223372036854775808"

lemma i32_id [c_int_simps]: "is_i32 x \<Longrightarrow> i32 x = x"
  by (simp add: i32_def is_i32_def signed_take_bit_int_eq_self)

lemma i64_id [c_int_simps]: "is_i64 x \<Longrightarrow> i64 x = x"
  by (simp add: i64_def is_i64_def signed_take_bit_int_eq_self)

lemma is_i32_i32 [simp]: "is_i32 (i32 x)"
  using signed_take_bit_int_greater_eq_minus_exp [of 31 x] signed_take_bit_int_less_exp [of 31 x]
  by (simp add: i32_def is_i32_def)

lemma is_i64_i64 [simp]: "is_i64 (i64 x)"
  using signed_take_bit_int_greater_eq_minus_exp [of 63 x] signed_take_bit_int_less_exp [of 63 x]
  by (simp add: i64_def is_i64_def)

section \<open>C's division\<close>

text \<open>
  C divides towards zero.  \<open>sdiv\<close> of \<open>HOL-Library.Signed_Division\<close> does too; these are
  the facts about a positive divisor that the fixed-point arithmetic needs.
\<close>

lemma sdiv_nonneg: "0 \<le> x \<Longrightarrow> 0 < d \<Longrightarrow> x sdiv d = x div (d :: int)"
  by (cases "x = 0") (simp_all add: signed_divide_int_def sgn_if)

lemma sdiv_neg: "x < 0 \<Longrightarrow> 0 < d \<Longrightarrow> x sdiv d = - ((- x) div (d :: int))"
  by (simp add: signed_divide_int_def sgn_if)

lemma div_sandwich: "0 < d \<Longrightarrow> d * (x div d) \<le> x \<and> x < d * (x div d) + (d :: int)"
proof -
  assume d: "0 < d"
  have "d * (x div d) + x mod d = x" by simp
  moreover from d have "0 \<le> x mod d" "x mod d < d" by simp_all
  ultimately show ?thesis by linarith
qed

lemma sdiv_lower: "0 < d \<Longrightarrow> 0 \<le> x \<Longrightarrow> d * (x sdiv d) \<le> x \<and> x < d * (x sdiv d) + (d :: int)"
  using div_sandwich [of d x] by (simp add: sdiv_nonneg)

lemma sdiv_upper: "0 < d \<Longrightarrow> x < 0 \<Longrightarrow> x \<le> d * (x sdiv d) \<and> d * (x sdiv d) < x + (d :: int)"
  using div_sandwich [of d "- x"] by (simp add: sdiv_neg)

lemma sdiv_error: "0 < d \<Longrightarrow> \<bar>d * (x sdiv d) - x\<bar> < (d :: int)"
  using sdiv_lower [of d x] sdiv_upper [of d x] by (cases "0 \<le> x") auto

lemma sdiv_mult_self: "0 < d \<Longrightarrow> (n * d) sdiv d = (n :: int)"
  by (cases "0 \<le> n") (simp_all add: sdiv_nonneg sdiv_neg mult_neg_pos flip: mult_minus_left)

lemma sdiv_sign: "0 < d \<Longrightarrow> (0 \<le> x \<longrightarrow> 0 \<le> x sdiv d) \<and> (x \<le> 0 \<longrightarrow> x sdiv (d :: int) \<le> 0)"
  by (cases "x = 0"; cases "0 \<le> x") (simp_all add: sdiv_nonneg sdiv_neg pos_imp_zdiv_nonneg_iff)

lemma sdiv_mono:
  assumes d: "0 < d" and xy: "x \<le> y"
  shows "x sdiv d \<le> y sdiv (d :: int)"
proof -
  consider "0 \<le> x" | "x < 0" "0 \<le> y" | "y < 0" by linarith
  then show ?thesis
  proof cases
    case 1
    with d xy show ?thesis by (simp add: sdiv_nonneg zdiv_mono1)
  next
    case 2
    then have "x sdiv d \<le> 0" and "0 \<le> y sdiv d" using sdiv_sign [OF d] by simp_all
    then show ?thesis by simp
  next
    case 3
    with d xy show ?thesis by (simp add: sdiv_neg zdiv_mono1)
  qed
qed

lemma sdiv_abs_le:
  assumes d: "0 < d"
  shows "\<bar>x sdiv d\<bar> \<le> \<bar>x :: int\<bar>"
proof -
  have "\<bar>x\<bar> div d \<le> \<bar>x\<bar>"
    using d zdiv_mono2 [of "\<bar>x\<bar>" 1 d] by simp
  moreover have "0 \<le> \<bar>x\<bar> div d" using d by (simp add: pos_imp_zdiv_nonneg_iff)
  ultimately show ?thesis
    using d by (cases "0 \<le> x") (simp_all add: sdiv_nonneg sdiv_neg)
qed

lemma sdiv_shrinks: "0 < d \<Longrightarrow> d * \<bar>x sdiv d\<bar> \<le> \<bar>x :: int\<bar>"
  using sdiv_lower [of d x] sdiv_upper [of d x] sdiv_sign [of d x]
  by (cases "0 \<le> x") (simp_all add: abs_if not_less)

section \<open>Panics and results\<close>

text \<open>
  How the kernel stops: a failed \<open>ASSERT\<close>, a \<open>PANIC\<close>, the processor's divide error, an
  array access out of bounds or a null pointer that is dereferenced.  The last two are
  undefined behaviour in C; the model stops there instead of going on with a value of its
  own choice.  \<open>No_return\<close> stands for a loop or a recursion that never ends.
\<close>

datatype panic =
    Assert_not_intr_context
  | Assert_intr_off
  | Assert_intr_on
  | Assert_is_thread
  | Assert_blocked
  | Assert_running
  | Assert_not_running
  | Assert_prev_not_cur
  | Assert_priority_range
  | Assert_frame_size
  | Assert_lock_not_held
  | Assert_lock_held
  | Assert_loops_nonzero
  | Assert_denom
  | Assert_function
  | Not_reached
  | Divide_error
  | Out_of_bounds
  | Null_pointer
  | Empty_list
  | No_return
  | Out_of_pages
  | Args_overflow
  | Power_off
  | Unknown_option string
  | Unknown_action string
  | Missing_argument string int

type_synonym 'a res = "panic + 'a"

definition ensure :: "bool \<Rightarrow> panic \<Rightarrow> 'a res \<Rightarrow> 'a res" where
  "ensure b e r = (if b then r else Inl e)"

definition res_bind :: "'a res \<Rightarrow> ('a \<Rightarrow> 'b res) \<Rightarrow> 'b res" where
  "res_bind r f = (case r of Inl e \<Rightarrow> Inl e | Inr x \<Rightarrow> f x)"

lemma ensure_simps [simp, res_simps]:
  "ensure True e r = r"
  "ensure False e r = Inl e"
  by (simp_all add: ensure_def)

lemma ensure_eq_Inr [res_simps]: "ensure b e r = Inr x \<longleftrightarrow> b \<and> r = Inr x"
  by (simp add: ensure_def)

lemma res_bind_simps [simp, res_simps]:
  "res_bind (Inl e) f = Inl e"
  "res_bind (Inr x) f = f x"
  by (simp_all add: res_bind_def)

lemma res_bind_eq_Inr [res_simps]: "res_bind r f = Inr y \<longleftrightarrow> (\<exists>x. r = Inr x \<and> f x = Inr y)"
  by (cases r) simp_all

lemma res_bind_assoc: "res_bind (res_bind r f) g = res_bind r (\<lambda>x. res_bind (f x) g)"
  by (cases r) simp_all

text \<open>A value that a loop without a termination argument may fail to deliver.\<close>

definition of_option :: "'a option \<Rightarrow> 'a res" where
  "of_option x = (case x of None \<Rightarrow> Inl No_return | Some v \<Rightarrow> Inr v)"

lemma of_option_simps [simp, res_simps]:
  "of_option None = Inl No_return"
  "of_option (Some v) = Inr v"
  by (simp_all add: of_option_def)

text \<open>A \<open>for\<close> loop over a list of items, and a \<open>while\<close> loop, whose bodies may panic.\<close>

fun res_fold :: "('x \<Rightarrow> 's \<Rightarrow> 's res) \<Rightarrow> 'x list \<Rightarrow> 's \<Rightarrow> 's res" where
  "res_fold f [] s = Inr s"
| "res_fold f (x # xs) s = res_bind (f x s) (res_fold f xs)"

definition res_while :: "('s \<Rightarrow> bool) \<Rightarrow> ('s \<Rightarrow> 's res) \<Rightarrow> 's \<Rightarrow> 's res" where
  "res_while c body s =
    (case while_option (\<lambda>r. case r of Inl e \<Rightarrow> False | Inr s \<Rightarrow> c s) (\<lambda>r. res_bind r body) (Inr s)
     of None \<Rightarrow> Inl No_return | Some r \<Rightarrow> r)"

lemma res_while_unfold:
  "res_while c body s = (if c s then res_bind (body s) (res_while c body) else Inr s)"
proof -
  have "while_option (\<lambda>r. case r of Inl e \<Rightarrow> False | Inr s \<Rightarrow> c s) (\<lambda>r. res_bind r body) (Inl e) =
      Some (Inl e)" for e
    by (subst while_option_unfold) simp
  then show ?thesis
    unfolding res_while_def
    by (subst while_option_unfold) (simp add: res_bind_def split: sum.split)
qed

lemma res_fold_append: "res_fold f (xs @ ys) s = res_bind (res_fold f xs s) (res_fold f ys)"
  by (induction xs arbitrary: s) (simp_all add: res_bind_def split: sum.split)

lemma res_fold_invariant:
  assumes "res_fold f xs s = Inr s'" and "P s"
    and "\<And>x s s'. x \<in> set xs \<Longrightarrow> P s \<Longrightarrow> f x s = Inr s' \<Longrightarrow> P s'"
  shows "P s'"
  using assms
proof (induction xs arbitrary: s)
  case (Cons x xs)
  from Cons.prems(1) obtain s1 where s1: "f x s = Inr s1" and rest: "res_fold f xs s1 = Inr s'"
    by (auto simp: res_bind_eq_Inr)
  have "P s1" using Cons.prems(2,3) s1 by (meson list.set_intros(1))
  with rest show ?case using Cons.IH Cons.prems(3) by (meson list.set_intros(2))
qed simp

section \<open>Ordered insertion\<close>

text \<open>
  \<open>ins_before lt e xs\<close> puts \<open>e\<close> in front of the first element that \<open>e\<close> is less than,
  and at the end when there is none.
\<close>

definition ins_before :: "('a \<Rightarrow> 'a \<Rightarrow> bool) \<Rightarrow> 'a \<Rightarrow> 'a list \<Rightarrow> 'a list" where
  "ins_before lt e xs = takeWhile (\<lambda>x. \<not> lt e x) xs @ e # dropWhile (\<lambda>x. \<not> lt e x) xs"

lemma ins_before_Nil [simp, ins_simps]: "ins_before lt e [] = [e]"
  by (simp add: ins_before_def)

lemma ins_before_Cons [ins_simps]:
  "ins_before lt e (x # xs) = (if lt e x then e # x # xs else x # ins_before lt e xs)"
  by (simp add: ins_before_def)

lemma mset_ins_before [simp, ins_simps]: "mset (ins_before lt e xs) = add_mset e (mset xs)"
  by (induction xs) (simp_all add: ins_before_Cons)

lemma set_ins_before [simp, ins_simps]: "set (ins_before lt e xs) = insert e (set xs)"
  by (induction xs) (auto simp: ins_before_Cons)

lemma length_ins_before [simp, ins_simps]: "length (ins_before lt e xs) = Suc (length xs)"
  by (induction xs) (simp_all add: ins_before_Cons)

lemma distinct_ins_before [simp, ins_simps]:
  "distinct (ins_before lt e xs) \<longleftrightarrow> e \<notin> set xs \<and> distinct xs"
  by (induction xs) (auto simp: ins_before_Cons)

lemma ins_before_cong:
  "(\<And>x. x \<in> set xs \<Longrightarrow> lt e x = lt' e x) \<Longrightarrow> ins_before lt e xs = ins_before lt' e xs"
  by (induction xs) (auto simp: ins_before_Cons)

lemma sorted_ins_before:
  assumes "sorted_wrt (\<lambda>a b. key a \<le> (key b :: 'k :: linorder)) xs"
  shows "sorted_wrt (\<lambda>a b. key a \<le> key b) (ins_before (\<lambda>a b. key a < key b) e xs)"
  using assms by (induction xs) (fastforce simp: ins_before_Cons)+

text \<open>
  Insertion is fair: an element goes behind every element of its own key, and the order
  among the others is untouched.
\<close>

lemma filter_ins_before_eq:
  assumes "sorted_wrt (\<lambda>a b. key a \<le> (key b :: 'k :: linorder)) xs"
  shows "filter (\<lambda>x. key x = key e) (ins_before (\<lambda>a b. key a < key b) e xs) =
    filter (\<lambda>x. key x = key e) xs @ [e]"
  using assms
proof (induction xs)
  case Nil
  then show ?case by simp
next
  case (Cons x xs)
  show ?case
  proof (cases "key e < key x")
    case True
    with Cons.prems have "\<forall>y \<in> set (x # xs). key y \<noteq> key e" by fastforce
    then have "filter (\<lambda>x. key x = key e) (x # xs) = []" by (simp only: filter_empty_conv not_False_eq_True)
    with True show ?thesis by (simp add: ins_before_Cons)
  next
    case False
    with Cons show ?thesis by (simp add: ins_before_Cons)
  qed
qed

lemma filter_ins_before_neq:
  "\<not> P e \<Longrightarrow> filter P (ins_before lt e xs) = filter P xs"
  by (induction xs) (simp_all add: ins_before_Cons)

lemma ins_before_append:
  "\<forall>x \<in> set xs. \<not> lt e x \<Longrightarrow> ins_before lt e (xs @ ys) = xs @ ins_before lt e ys"
  by (induction xs) (simp_all add: ins_before_Cons)

lemma ins_before_front: "\<forall>x \<in> set xs. lt e x \<Longrightarrow> ins_before lt e xs = e # xs"
  by (cases xs) (simp_all add: ins_before_Cons)

lemma ins_before_between:
  assumes "\<And>x. x \<in> set xs \<Longrightarrow> \<not> lt e x" and "\<And>x. x \<in> set ys \<Longrightarrow> \<not> lt e x" and "\<And>x. x \<in> set zs \<Longrightarrow> lt e x"
  shows "ins_before lt e (xs @ ys @ zs) = xs @ ys @ e # zs"
  using assms by (simp add: ins_before_append ins_before_front)

lemma map_ins_before:
  "map f (ins_before (\<lambda>a b. lt (f a) (f b)) e xs) = ins_before lt (f e) (map f xs)"
  by (induction xs) (simp_all add: ins_before_Cons)

end
