(* ===== verification/Kernel_Control.thy ===== *)
theory Kernel_Control
  imports Prelude
begin

text \<open>
  Control flow of kernel code.  A kernel function that may give up the processor does not simply
  map a state to a state: it runs until it calls \<open>switch_threads\<close>, and the rest of it runs later,
  in whatever state the other threads have left behind.  Its meaning is therefore an
  \<open>outcome\<close>, a possibly infinite tree:
    \<^item> \<open>Done v s\<close>: the function returned \<open>v\<close> in state \<open>s\<close>;
    \<^item> \<open>Panic e\<close>: the kernel stopped;
    \<^item> \<open>Pause s k\<close>: the end of a statement in state \<open>s\<close>; an interrupt that is enabled may be
      handled here, after which the function goes on with \<open>k\<close>;
    \<^item> \<open>Switch p n s k\<close>: thread \<open>p\<close> called \<open>switch_threads (p, n)\<close> in state \<open>s\<close>.  Thread \<open>n\<close>
      runs next; when some thread \<open>q\<close> switches back to \<open>p\<close> in state \<open>s'\<close>, the call returns \<open>q\<close>
      and \<open>p\<close> goes on with \<open>k q s'\<close>.
\<close>

type_synonym addr = nat

codatatype ('s, 'a) outcome =
    is_Done: Done (ret: 'a) (ret_state: 's)
  | is_Panic: Panic (reason: panic)
  | is_Pause: Pause (pause_state: 's) (pause_rest: "'s \<Rightarrow> ('s, 'a) outcome")
  | is_Switch: Switch (switch_from: addr) (switch_to: addr) (switch_state: 's)
      (switch_rest: "addr \<Rightarrow> 's \<Rightarrow> ('s, 'a) outcome")

type_synonym ('s, 'a) kernel = "'s \<Rightarrow> ('s, 'a) outcome"

text \<open>Sequencing: the second part starts after the pause that ends the first.\<close>

primcorec kbind :: "('s, 'a) outcome \<Rightarrow> ('a \<Rightarrow> ('s, 'b) kernel) \<Rightarrow> ('s, 'b) outcome" where
  "kbind m f =
    (if is_Panic m then Panic (reason m)
     else if is_Switch m then
       Switch (switch_from m) (switch_to m) (switch_state m) (\<lambda>q s. kbind (switch_rest m q s) f)
     else Pause (if is_Done m then ret_state m else pause_state m)
       (\<lambda>s. if is_Done m then f (ret m) s else kbind (pause_rest m s) f))"

text \<open>
  A \<open>while\<close> loop: the test is made when the body (or the code before the loop) is done, and
  every turn passes through a pause.
\<close>

primcorec kwhile_from ::
    "('s \<Rightarrow> bool) \<Rightarrow> ('s, unit) kernel \<Rightarrow> ('s, unit) outcome \<Rightarrow> ('s, unit) outcome" where
  "kwhile_from c body m =
    (if is_Panic m then Panic (reason m)
     else if is_Switch m then
       Switch (switch_from m) (switch_to m) (switch_state m)
         (\<lambda>q s. kwhile_from c body (switch_rest m q s))
     else if is_Done m \<and> \<not> c (ret_state m) then Done () (ret_state m)
     else Pause (if is_Done m then ret_state m else pause_state m)
       (\<lambda>s. if is_Done m then kwhile_from c body (body s)
            else kwhile_from c body (pause_rest m s)))"

definition kwhile :: "('s \<Rightarrow> bool) \<Rightarrow> ('s, unit) kernel \<Rightarrow> ('s, unit) kernel" where
  "kwhile c body s = kwhile_from c body (Done () s)"

text \<open>A loop whose test runs code too: \<open>step\<close> makes the test and, when it holds, one turn of the body, and returns
  whether to go on.\<close>

primcorec kloop_from :: "('s, bool) kernel \<Rightarrow> ('s, bool) outcome \<Rightarrow> ('s, unit) outcome" where
  "kloop_from step m =
    (if is_Panic m then Panic (reason m)
     else if is_Switch m then
       Switch (switch_from m) (switch_to m) (switch_state m) (\<lambda>q s. kloop_from step (switch_rest m q s))
     else if is_Done m \<and> \<not> ret m then Done () (ret_state m)
     else Pause (if is_Done m then ret_state m else pause_state m)
       (\<lambda>s. if is_Done m then kloop_from step (step s) else kloop_from step (pause_rest m s)))"

definition kloop :: "('s, bool) kernel \<Rightarrow> ('s, unit) kernel" where
  "kloop step s = kloop_from step (step s)"

definition kskip :: "('s, unit) kernel" where
  "kskip s = Done () s"

definition kmodify :: "('s \<Rightarrow> 's) \<Rightarrow> ('s, unit) kernel" where
  "kmodify f s = Done () (f s)"

definition kassert :: "('s \<Rightarrow> bool) \<Rightarrow> panic \<Rightarrow> ('s, unit) kernel" where
  "kassert P e s = (if P s then Done () s else Panic e)"

definition kif :: "('s \<Rightarrow> bool) \<Rightarrow> ('s, 'a) kernel \<Rightarrow> ('s, 'a) kernel \<Rightarrow> ('s, 'a) kernel" where
  "kif P m n s = (if P s then m s else n s)"

definition kget :: "('s \<Rightarrow> 'v) \<Rightarrow> ('v \<Rightarrow> ('s, 'a) kernel) \<Rightarrow> ('s, 'a) kernel" where
  "kget g f s = f (g s) s"

text \<open>Code that neither blocks nor is interrupted, with its result or its panic.\<close>

definition kcall :: "('s \<Rightarrow> 'v res) \<Rightarrow> ('v \<Rightarrow> ('s, 'a) kernel) \<Rightarrow> ('s, 'a) kernel" where
  "kcall g f s = (case g s of Inl e \<Rightarrow> Panic e | Inr v \<Rightarrow> f v s)"

definition katomic :: "('s \<Rightarrow> 's res) \<Rightarrow> ('s, unit) kernel" where
  "katomic g s = (case g s of Inl e \<Rightarrow> Panic e | Inr s' \<Rightarrow> Done () s')"

definition kthen :: "('s, unit) kernel \<Rightarrow> ('s, 'a) kernel \<Rightarrow> ('s, 'a) kernel" where
  "kthen m n s = kbind (m s) (\<lambda>_. n)"

text \<open>A call whose value is used.\<close>

definition klet :: "('s, 'a) kernel \<Rightarrow> ('a \<Rightarrow> ('s, 'b) kernel) \<Rightarrow> ('s, 'b) kernel" where
  "klet m f s = kbind (m s) f"

fun kseq :: "('s, unit) kernel list \<Rightarrow> ('s, unit) kernel" where
  "kseq [] = kskip"
| "kseq [m] = m"
| "kseq (m # n # ms) = kthen m (kseq (n # ms))"

text \<open>The end of a statement: interrupts may come in before what follows.\<close>

definition kpause :: "('s, 'a) kernel \<Rightarrow> ('s, 'a) kernel" where
  "kpause m s = Pause s m"

lemmas kernel_defs = kpause_def kskip_def kmodify_def kassert_def kif_def kget_def kcall_def katomic_def kthen_def

lemma kbind_simps [simp]:
  "kbind (Done v s) f = Pause s (f v)"
  "kbind (Panic e) f = Panic e"
  "kbind (Pause s k) f = Pause s (\<lambda>s'. kbind (k s') f)"
  "kbind (Switch p n s r) f = Switch p n s (\<lambda>q s'. kbind (r q s') f)"
  by (subst kbind.code, simp)+

lemma kwhile_from_simps [simp]:
  "kwhile_from c body (Done u s) =
    (if c s then Pause s (\<lambda>s'. kwhile_from c body (body s')) else Done () s)"
  "kwhile_from c body (Panic e) = Panic e"
  "kwhile_from c body (Pause s k) = Pause s (\<lambda>s'. kwhile_from c body (k s'))"
  "kwhile_from c body (Switch p n s r) = Switch p n s (\<lambda>q s'. kwhile_from c body (r q s'))"
  by (subst kwhile_from.code, simp)+

lemma kloop_from_simps [simp]:
  "kloop_from step (Done b s) = (if b then Pause s (\<lambda>s'. kloop_from step (step s')) else Done () s)"
  "kloop_from step (Panic e) = Panic e"
  "kloop_from step (Pause s k) = Pause s (\<lambda>s'. kloop_from step (k s'))"
  "kloop_from step (Switch p n s r) = Switch p n s (\<lambda>q s'. kloop_from step (r q s'))"
  by (subst kloop_from.code, simp)+

section \<open>Uninterrupted runs\<close>

text \<open>
  What a function does up to its return, its next switch or its panic when no interrupt is
  handled on the way.  While interrupts are off this is all it can do.
\<close>

inductive returns :: "('s, 'a) outcome \<Rightarrow> 'a \<Rightarrow> 's \<Rightarrow> bool" where
  returns_Done: "returns (Done v s) v s"
| returns_Pause: "returns (k s) v s' \<Longrightarrow> returns (Pause s k) v s'"

inductive switches :: "('s, 'a) outcome \<Rightarrow> addr \<Rightarrow> addr \<Rightarrow> 's \<Rightarrow> (addr \<Rightarrow> ('s, 'a) kernel) \<Rightarrow> bool" where
  switches_Switch: "switches (Switch p n s r) p n s r"
| switches_Pause: "switches (k s) p n s' r \<Longrightarrow> switches (Pause s k) p n s' r"

inductive panics :: "('s, 'a) outcome \<Rightarrow> panic \<Rightarrow> bool" where
  panics_Panic: "panics (Panic e) e"
| panics_Pause: "panics (k s) e \<Longrightarrow> panics (Pause s k) e"

inductive_simps returns_simps [simp]:
  "returns (Done v s) v' s'"
  "returns (Panic e) v' s'"
  "returns (Pause s k) v' s'"
  "returns (Switch p n s r) v' s'"

inductive_simps switches_simps [simp]:
  "switches (Done v s) p' n' s' r'"
  "switches (Panic e) p' n' s' r'"
  "switches (Pause s k) p' n' s' r'"
  "switches (Switch p n s r) p' n' s' r'"

inductive_simps panics_simps [simp]:
  "panics (Done v s) e'"
  "panics (Panic e) e'"
  "panics (Pause s k) e'"
  "panics (Switch p n s r) e'"

lemma returns_kbindI: "returns m u s1 \<Longrightarrow> returns (f u s1) v s2 \<Longrightarrow> returns (kbind m f) v s2"
  by (induction rule: returns.induct) simp_all

lemma switches_kbindI1:
  "switches m p n s r \<Longrightarrow> switches (kbind m f) p n s (\<lambda>q s'. kbind (r q s') f)"
  by (induction rule: switches.induct) simp_all

lemma switches_kbindI2:
  "returns m u s1 \<Longrightarrow> switches (f u s1) p n s r \<Longrightarrow> switches (kbind m f) p n s r"
  by (induction rule: returns.induct) simp_all

lemma panics_kbindI1: "panics m e \<Longrightarrow> panics (kbind m f) e"
  by (induction rule: panics.induct) simp_all

lemma panics_kbindI2: "returns m u s1 \<Longrightarrow> panics (f u s1) e \<Longrightarrow> panics (kbind m f) e"
  by (induction rule: returns.induct) simp_all

lemma returns_kbindE:
  assumes "returns (kbind m f) v s2"
  shows "\<exists>u s1. returns m u s1 \<and> returns (f u s1) v s2"
proof -
  have "returns x v s2 \<Longrightarrow> x = kbind m f \<Longrightarrow> \<exists>u s1. returns m u s1 \<and> returns (f u s1) v s2" for x
  proof (induction arbitrary: m rule: returns.induct)
    case (returns_Done v s)
    then show ?case by (cases m) simp_all
  next
    case (returns_Pause k s v s')
    then show ?case by (cases m) auto
  qed
  with assms show ?thesis by blast
qed

lemma returns_kbind_iff:
  "returns (kbind m f) v s2 \<longleftrightarrow> (\<exists>u s1. returns m u s1 \<and> returns (f u s1) v s2)"
  by (blast intro: returns_kbindI dest: returns_kbindE)

text \<open>Once the first part is known to return, everything is up to the second.\<close>

lemma run_kbind:
  assumes "returns m u s1"
  shows "returns (kbind m f) v s2 \<longleftrightarrow> returns (f u s1) v s2"
    "switches (kbind m f) p n s2 r \<longleftrightarrow> switches (f u s1) p n s2 r"
    "panics (kbind m f) e \<longleftrightarrow> panics (f u s1) e"
  using assms by (induction rule: returns.induct) simp_all

text \<open>Loops: the body ends or switches, and the test is made again.\<close>

lemma switches_kwhileI:
  "switches m p n s r \<Longrightarrow> switches (kwhile_from c b m) p n s (\<lambda>q s'. kwhile_from c b (r q s'))"
  by (induction rule: switches.induct) simp_all

lemma returns_kwhile_done: "returns m u s \<Longrightarrow> \<not> c s \<Longrightarrow> returns (kwhile_from c b m) () s"
  by (induction rule: returns.induct) simp_all

lemma returns_kwhile_step:
  "returns m u s \<Longrightarrow> c s \<Longrightarrow> returns (kwhile_from c b (b s)) v s' \<Longrightarrow> returns (kwhile_from c b m) v s'"
  by (induction rule: returns.induct) simp_all

lemma switches_kwhile_step:
  "returns m u s \<Longrightarrow> c s \<Longrightarrow> switches (kwhile_from c b (b s)) p n s' r \<Longrightarrow> switches (kwhile_from c b m) p n s' r"
  by (induction rule: returns.induct) simp_all

lemma returns_kwhile_body:
  "returns m u s \<Longrightarrow> returns (kwhile c b s) v s' \<Longrightarrow> returns (kwhile_from c b m) v s'"
  by (induction rule: returns.induct) (simp_all add: kwhile_def)

lemma returns_kwhileI:
  "(if c s then \<exists>u s1. returns (b s) u s1 \<and> returns (kwhile c b s1) v s' else v = () \<and> s' = s) \<Longrightarrow>
    returns (kwhile c b s) v s'"
  by (auto simp: kwhile_def intro: returns_kwhile_body [unfolded kwhile_def] split: if_splits)

lemma returns_unique: "returns m v s \<Longrightarrow> returns m v' s' \<Longrightarrow> v' = v \<and> s' = s"
  by (induction rule: returns.induct) simp_all

lemma returns_not_switches: "returns m v s \<Longrightarrow> \<not> switches m p n s' r"
  by (induction rule: returns.induct) simp_all

lemma returns_not_panics: "returns m v s \<Longrightarrow> \<not> panics m e"
  by (induction rule: returns.induct) simp_all

lemma switches_not_panics: "switches m p n s r \<Longrightarrow> \<not> panics m e"
  by (induction rule: switches.induct) simp_all

section \<open>Runs with interrupts and other threads\<close>

text \<open>The ways code can stop the kernel when anything may have happened to the state at a pause or while the thread was
  switched out.\<close>

inductive may_panic :: "('s, 'a) outcome \<Rightarrow> panic \<Rightarrow> bool" where
  may_panic_Panic: "may_panic (Panic e) e"
| may_panic_Pause: "may_panic (k s') e \<Longrightarrow> may_panic (Pause s k) e"
| may_panic_Switch: "may_panic (r q s') e \<Longrightarrow> may_panic (Switch p n s r) e"

inductive_simps may_panic_simps [simp]:
  "may_panic (Done v s) e"
  "may_panic (Panic e') e"
  "may_panic (Pause s k) e"
  "may_panic (Switch p n s r) e"

lemma may_panic_kbind:
  assumes "may_panic (kbind m f) e"
  shows "may_panic m e \<or> (\<exists>u s. may_panic (f u s) e)"
proof -
  have "may_panic x e \<Longrightarrow> x = kbind m f \<Longrightarrow> may_panic m e \<or> (\<exists>u s. may_panic (f u s) e)" for x
  proof (induction arbitrary: m rule: may_panic.induct)
    case (may_panic_Panic e)
    then show ?case by (cases m) simp_all
  next
    case (may_panic_Pause k s' e s)
    then show ?case by (cases m; auto; blast)
  next
    case (may_panic_Switch r q s' e p n s)
    then show ?case by (cases m; auto; blast)
  qed
  with assms show ?thesis by blast
qed

lemma may_panic_kwhile_from:
  assumes "may_panic (kwhile_from c b m) e"
  shows "may_panic m e \<or> (\<exists>s. may_panic (b s) e)"
proof -
  have "may_panic x e \<Longrightarrow> x = kwhile_from c b m \<Longrightarrow> may_panic m e \<or> (\<exists>s. may_panic (b s) e)" for x
  proof (induction arbitrary: m rule: may_panic.induct)
    case (may_panic_Panic e)
    then show ?case by (cases m) (simp_all split: if_splits)
  next
    case (may_panic_Pause k s' e s)
    then show ?case by (cases m; auto split: if_splits; blast)
  next
    case (may_panic_Switch r q s' e p n s)
    then show ?case by (cases m; auto split: if_splits; blast)
  qed
  with assms show ?thesis by blast
qed

lemma may_panic_kloop_from:
  assumes "may_panic (kloop_from step m) e"
  shows "may_panic m e \<or> (\<exists>s. may_panic (step s) e)"
proof -
  have "may_panic x e \<Longrightarrow> x = kloop_from step m \<Longrightarrow> may_panic m e \<or> (\<exists>s. may_panic (step s) e)" for x
  proof (induction arbitrary: m rule: may_panic.induct)
    case (may_panic_Panic e)
    then show ?case by (cases m) (simp_all split: if_splits)
  next
    case (may_panic_Pause k s' e s)
    then show ?case by (cases m; auto split: if_splits; blast)
  next
    case (may_panic_Switch r q s' e p n s)
    then show ?case by (cases m; auto split: if_splits; blast)
  qed
  with assms show ?thesis by blast
qed

text \<open>The same for the ways code can return.\<close>

inductive may_return :: "('s, 'a) outcome \<Rightarrow> 'a \<Rightarrow> 's \<Rightarrow> bool" where
  may_return_Done: "may_return (Done v s) v s"
| may_return_Pause: "may_return (k s') v s1 \<Longrightarrow> may_return (Pause s k) v s1"
| may_return_Switch: "may_return (r q s') v s1 \<Longrightarrow> may_return (Switch p n s r) v s1"

inductive_simps may_return_simps [simp]:
  "may_return (Done v s) v' s'"
  "may_return (Panic e) v' s'"
  "may_return (Pause s k) v' s'"
  "may_return (Switch p n s r) v' s'"

lemma may_return_kbind:
  assumes "may_return (kbind m f) v s"
  shows "\<exists>u s'. may_return (f u s') v s"
proof -
  have "may_return x v s \<Longrightarrow> x = kbind m f \<Longrightarrow> \<exists>u s'. may_return (f u s') v s" for x
  proof (induction arbitrary: m rule: may_return.induct)
    case (may_return_Done v s)
    then show ?case by (cases m) simp_all
  next
    case (may_return_Pause k s' v s1 s)
    then show ?case by (cases m) auto
  next
    case (may_return_Switch r q s' v s1 p n s)
    then show ?case by (cases m) auto
  qed
  with assms show ?thesis by blast
qed

lemma may_return_kwhile_from:
  assumes "may_return (kwhile_from c b m) v s"
  shows "\<not> c s"
proof -
  have "may_return x v s \<Longrightarrow> x = kwhile_from c b m \<Longrightarrow> \<not> c s" for x
  proof (induction arbitrary: m rule: may_return.induct)
    case (may_return_Done v s)
    then show ?case by (cases m) (auto split: if_splits)
  next
    case (may_return_Pause k s' v s1 s)
    then show ?case by (cases m) (auto split: if_splits)
  next
    case (may_return_Switch r q s' v s1 p n s)
    then show ?case by (cases m) (auto split: if_splits)
  qed
  with assms show ?thesis by blast
qed

text \<open>A sequence never returns when its last part does not.\<close>

lemma no_return_kthen: "(\<And>s v s'. \<not> may_return (n s) v s') \<Longrightarrow> \<not> may_return (kthen m n s) v s'"
  by (auto simp: kthen_def dest!: may_return_kbind)

lemma no_return_kseq: "ms \<noteq> [] \<Longrightarrow> (\<And>s v s'. \<not> may_return (last ms s) v s') \<Longrightarrow> \<not> may_return (kseq ms s) v s'"
proof (induction ms arbitrary: s v s' rule: kseq.induct)
  case (3 m n ms)
  then show ?case by (simp add: no_return_kthen)
qed simp_all

end
