(* ===== verification/Externals.thy ===== *)
theory Externals
  imports Kernel_Control
begin

text \<open>
  The parts of Pintos the sources only call and this repository does not hold: the intrusive lists
  of \<^verbatim>\<open>lib/kernel/list.c\<close>, the interrupt functions of \<^verbatim>\<open>threads/interrupt.c\<close> and the page
  allocator of \<^verbatim>\<open>threads/palloc.c\<close>.  They are the fields of one record \<open>externs\<close>, an
  argument of every definition that calls them; what the code relies on is stated as the laws
  of the locales \<open>list_lib\<close> and \<open>intr_lib\<close>.

  The list library works on a store of type \<open>'l\<close> that holds every list of the kernel, so that an
  element put on two lists at once is not hidden by the model.  The address of a list and of a
  list element are spelled out as data: an element is the member of a structure.
\<close>

section \<open>Addresses\<close>

type_synonym thread_ptr = addr
type_synonym lock_ptr = addr
type_synonym cond_ptr = addr
type_synonym waiter_ptr = addr

datatype member = Elem | Allelem | Sleep_elem | Lock_elem | Waiter_elem

datatype list_elem = List_elem (list_entry: addr) (member_of: member)

abbreviation elem_of :: "thread_ptr \<Rightarrow> list_elem" where "elem_of t \<equiv> List_elem t Elem"
abbreviation allelem_of :: "thread_ptr \<Rightarrow> list_elem" where "allelem_of t \<equiv> List_elem t Allelem"
abbreviation sleep_elem_of :: "thread_ptr \<Rightarrow> list_elem" where "sleep_elem_of t \<equiv> List_elem t Sleep_elem"
abbreviation lock_elem_of :: "lock_ptr \<Rightarrow> list_elem" where "lock_elem_of l \<equiv> List_elem l Lock_elem"
abbreviation waiter_elem_of :: "waiter_ptr \<Rightarrow> list_elem" where "waiter_elem_of w \<equiv> List_elem w Waiter_elem"

text \<open>A semaphore stands alone, inside a lock, or inside a \<open>struct semaphore_elem\<close>.\<close>

datatype sema_ptr = Sema addr | Lock_sema lock_ptr | Waiter_sema waiter_ptr

datatype list_ptr =
    Ready_list
  | All_list
  | Mlfqs_list int
  | Temp_list
  | Sleep_list
  | Sema_waiters sema_ptr
  | Lock_waiters lock_ptr
  | Cond_waiters cond_ptr
  | Locks_held thread_ptr

datatype intr_level = INTR_OFF | INTR_ON

section \<open>The functions\<close>

text \<open>
  \<open>list_elems\<close> is the loop \<open>for (e = list_begin (l); e != list_end (l); e = list_next (e))\<close>:
  the elements it visits, in order.  \<open>intr_yield_pending\<close> observes the request that
  \<open>intr_yield_on_return\<close> leaves for the end of the interrupt handler.  The last fields are the
  sizes of the two frames of \<^verbatim>\<open>threads/switch.h\<close> and the addresses the linker gives to code.
\<close>

record ('l, 'i, 'p) externs =
  list_elems :: "list_ptr \<Rightarrow> 'l \<Rightarrow> list_elem list"
  list_init :: "list_ptr \<Rightarrow> 'l \<Rightarrow> 'l"
  list_empty :: "list_ptr \<Rightarrow> 'l \<Rightarrow> bool"
  list_size :: "list_ptr \<Rightarrow> 'l \<Rightarrow> int"
  list_front :: "list_ptr \<Rightarrow> 'l \<Rightarrow> list_elem"
  list_pop_front :: "list_ptr \<Rightarrow> 'l \<Rightarrow> list_elem \<times> 'l"
  list_push_back :: "list_ptr \<Rightarrow> list_elem \<Rightarrow> 'l \<Rightarrow> 'l"
  list_insert_ordered ::
    "list_ptr \<Rightarrow> list_elem \<Rightarrow> (list_elem \<Rightarrow> list_elem \<Rightarrow> bool) \<Rightarrow> 'l \<Rightarrow> 'l"
  list_remove :: "list_elem \<Rightarrow> 'l \<Rightarrow> 'l"
  list_max :: "list_ptr \<Rightarrow> (list_elem \<Rightarrow> list_elem \<Rightarrow> bool) \<Rightarrow> 'l \<Rightarrow> list_elem"
  intr_get_level :: "'i \<Rightarrow> intr_level"
  intr_set_level :: "intr_level \<Rightarrow> 'i \<Rightarrow> 'i"
  intr_disable :: "'i \<Rightarrow> intr_level \<times> 'i"
  intr_enable :: "'i \<Rightarrow> 'i"
  intr_context :: "'i \<Rightarrow> bool"
  intr_yield_on_return :: "'i \<Rightarrow> 'i"
  intr_yield_pending :: "'i \<Rightarrow> bool"
  palloc_get_page :: "'p \<Rightarrow> addr option \<times> 'p"
  palloc_free_page :: "addr \<Rightarrow> 'p \<Rightarrow> 'p"
  switch_entry_frame_size :: nat
  switch_threads_frame_size :: nat
  switch_entry_code :: addr
  kernel_thread_code :: addr
  idle_code :: addr
  sema_test_helper_code :: addr

definition unlinked :: "('l, 'i, 'p) externs \<Rightarrow> list_elem \<Rightarrow> 'l \<Rightarrow> bool" where
  "unlinked E e h \<longleftrightarrow> (\<forall>l. e \<notin> set (list_elems E l h))"

text \<open>
  Every element is on one list at most, and there once: what the comment above
  \<open>struct thread\<close> asks of the member \<open>elem\<close>.
\<close>

definition linked_once :: "('l, 'i, 'p) externs \<Rightarrow> 'l \<Rightarrow> bool" where
  "linked_once E h \<longleftrightarrow>
    (\<forall>l. distinct (list_elems E l h)) \<and>
    (\<forall>l l'. l \<noteq> l' \<longrightarrow> set (list_elems E l h) \<inter> set (list_elems E l' h) = {})"

text \<open>A comparison function that orders a set by some key, ties allowed.\<close>

definition weak_order_on :: "('a \<Rightarrow> 'a \<Rightarrow> bool) \<Rightarrow> 'a set \<Rightarrow> bool" where
  "weak_order_on lt S \<longleftrightarrow>
    (\<forall>a \<in> S. \<forall>b \<in> S. lt a b \<longrightarrow> \<not> lt b a) \<and>
    (\<forall>a \<in> S. \<forall>b \<in> S. \<forall>c \<in> S. \<not> lt a b \<and> \<not> lt b c \<longrightarrow> \<not> lt a c)"

lemma weak_order_on_key: "(\<And>a b. lt a b \<longleftrightarrow> key a < (key b :: 'k :: linorder)) \<Longrightarrow> weak_order_on lt S"
  by (auto simp: weak_order_on_def not_less)

section \<open>The laws of the list library\<close>

text \<open>
  Insertion asks for an element that is on no list, removal for one that is on a list, and
  \<open>list_insert_ordered\<close> for a list that is sorted; nothing is known otherwise.  \<open>list_max\<close>
  returns the first of the largest elements.
\<close>

locale list_lib =
  fixes E :: "('l, 'i, 'p) externs"
  assumes elems_init: "list_elems E l' (list_init E l h) = (if l' = l then [] else list_elems E l' h)"
    and list_empty_iff: "list_empty E l h \<longleftrightarrow> list_elems E l h = []"
    and size_eq: "list_size E l h = int (length (list_elems E l h))"
    and front_eq: "list_elems E l h = e # es \<Longrightarrow> list_front E l h = e"
    and pop_front: "list_elems E l h = e # es \<Longrightarrow> fst (list_pop_front E l h) = e"
    and elems_pop_front: "list_elems E l h = e # es \<Longrightarrow>
      list_elems E l' (snd (list_pop_front E l h)) = (if l' = l then es else list_elems E l' h)"
    and elems_push_back: "unlinked E e h \<Longrightarrow>
      list_elems E l' (list_push_back E l e h) =
        (if l' = l then list_elems E l h @ [e] else list_elems E l' h)"
    and elems_insert_ordered: "unlinked E e h \<Longrightarrow>
      sorted_wrt (\<lambda>a b. \<not> lt b a) (list_elems E l h) \<Longrightarrow>
      list_elems E l' (list_insert_ordered E l e lt h) =
        (if l' = l then ins_before lt e (list_elems E l h) else list_elems E l' h)"
    and elems_remove: "e \<in> set (list_elems E l h) \<Longrightarrow> linked_once E h \<Longrightarrow>
      list_elems E l' (list_remove E e h) = remove1 e (list_elems E l' h)"
    and max_split: "list_elems E l h \<noteq> [] \<Longrightarrow> weak_order_on lt (set (list_elems E l h)) \<Longrightarrow>
      \<exists>xs ys. list_elems E l h = xs @ list_max E l lt h # ys \<and>
        (\<forall>x \<in> set xs. lt x (list_max E l lt h)) \<and> (\<forall>y \<in> set ys. \<not> lt (list_max E l lt h) y)"
begin

lemma unlinked_init: "unlinked E e h \<Longrightarrow> unlinked E e (list_init E l h)"
  by (simp add: unlinked_def elems_init)

lemma unlinked_pop_front:
  assumes once: "linked_once E h" and es: "list_elems E l h = e # es"
  shows "unlinked E e (snd (list_pop_front E l h))"
proof -
  have "distinct (e # es)" using once es by (metis linked_once_def)
  moreover have "e \<notin> set (list_elems E l' h)" if "l' \<noteq> l" for l'
  proof -
    from that once have "set (list_elems E l' h) \<inter> set (list_elems E l h) = {}"
      unfolding linked_once_def by blast
    then show ?thesis by (auto simp: es)
  qed
  ultimately show ?thesis by (simp add: unlinked_def elems_pop_front [OF es])
qed

lemma unlinked_pop_front_other:
  assumes es: "list_elems E l h = e # es" and "e' \<noteq> e"
  shows "unlinked E e' (snd (list_pop_front E l h)) = unlinked E e' h"
proof -
  have "e' \<in> set (list_elems E l' (snd (list_pop_front E l h))) \<longleftrightarrow> e' \<in> set (list_elems E l' h)" for l'
    using assms(2) by (cases "l' = l") (simp_all add: elems_pop_front [OF es] es)
  then show ?thesis by (simp add: unlinked_def)
qed

lemma linked_once_init: "linked_once E h \<Longrightarrow> linked_once E (list_init E l h)"
  by (auto simp: linked_once_def elems_init)

lemma linked_once_pop_front:
  assumes "linked_once E h" and es: "list_elems E l h = e # es"
  shows "linked_once E (snd (list_pop_front E l h))"
proof -
  have d: "distinct (list_elems E l' h)" for l' using assms(1) by (simp add: linked_once_def)
  have i: "l1 \<noteq> l2 \<Longrightarrow> set (list_elems E l1 h) \<inter> set (list_elems E l2 h) = {}" for l1 l2
    using assms(1) by (simp add: linked_once_def)
  have "set es \<subseteq> set (list_elems E l h)" by (auto simp: es)
  then show ?thesis
    using d [of l] d i by (auto simp: linked_once_def elems_pop_front [OF es] es; blast)
qed

lemma linked_once_push_back:
  assumes "linked_once E h" and "unlinked E e h"
  shows "linked_once E (list_push_back E l e h)"
  using assms(1) assms(2)
  by (auto simp: linked_once_def elems_push_back [OF assms(2)] unlinked_def)

lemma linked_once_insert_ordered:
  assumes "linked_once E h" and "unlinked E e h" and "sorted_wrt (\<lambda>a b. \<not> lt b a) (list_elems E l h)"
  shows "linked_once E (list_insert_ordered E l e lt h)"
  using assms(1) assms(2)
  by (auto simp: linked_once_def elems_insert_ordered [OF assms(2,3)] unlinked_def)

lemma elems_remove_once:
  assumes "linked_once E h" and "e \<in> set (list_elems E l h)"
  shows "list_elems E l' (list_remove E e h) =
    (if l' = l then remove1 e (list_elems E l h) else list_elems E l' h)"
proof (cases "l' = l")
  case False
  with assms have "e \<notin> set (list_elems E l' h)"
    unfolding linked_once_def by (meson disjoint_iff)
  with False show ?thesis using elems_remove [OF assms(2,1), of l'] by (simp add: remove1_idem)
qed (simp add: elems_remove [OF assms(2,1)])

lemma linked_once_remove:
  assumes "linked_once E h" and "e \<in> set (list_elems E l h)"
  shows "linked_once E (list_remove E e h)"
proof -
  have "set (remove1 e xs) \<subseteq> set xs" for xs by (rule set_remove1_subset)
  then show ?thesis
    using assms(1) by (fastforce simp: linked_once_def elems_remove [OF assms(2,1)])
qed

lemma unlinked_remove:
  assumes "linked_once E h" and "e \<in> set (list_elems E l h)"
  shows "unlinked E e (list_remove E e h)"
  using assms(1) by (simp add: unlinked_def elems_remove [OF assms(2,1)] linked_once_def)

end

section \<open>The laws of the interrupt functions\<close>

locale intr_lib =
  fixes E :: "('l, 'i, 'p) externs"
  assumes get_set: "intr_get_level E (intr_set_level E lv i) = lv"
    and context_set: "intr_context E (intr_set_level E lv i) = intr_context E i"
    and pending_set: "intr_yield_pending E (intr_set_level E lv i) = intr_yield_pending E i"
    and disable_old: "fst (intr_disable E i) = intr_get_level E i"
    and get_disable: "intr_get_level E (snd (intr_disable E i)) = INTR_OFF"
    and context_disable: "intr_context E (snd (intr_disable E i)) = intr_context E i"
    and pending_disable: "intr_yield_pending E (snd (intr_disable E i)) = intr_yield_pending E i"
    and get_enable: "intr_get_level E (intr_enable E i) = INTR_ON"
    and context_enable: "intr_context E (intr_enable E i) = intr_context E i"
    and get_yield: "intr_get_level E (intr_yield_on_return E i) = intr_get_level E i"
    and context_yield: "intr_context E (intr_yield_on_return E i) = intr_context E i"
    and pending_yield: "intr_yield_pending E (intr_yield_on_return E i)"
begin

lemmas intr_laws = get_set context_set pending_set disable_old get_disable context_disable
  pending_disable get_enable context_enable get_yield context_yield pending_yield

end

section \<open>The law of the page allocator\<close>

text \<open>\<open>free\<close> are the pages the allocator can still hand out; a page is handed out once.\<close>

locale page_alloc =
  fixes E :: "('l, 'i, 'p) externs"
    and free :: "'p \<Rightarrow> addr set"
  assumes finite_free: "finite (free p)"
    and get_page: "free p \<noteq> {} \<Longrightarrow>
      \<exists>a p'. palloc_get_page E p = (Some a, p') \<and> a \<in> free p \<and> free p' = free p - {a}"

locale kernel_env = list_lib E + intr_lib E for E :: "('l, 'i, 'p) externs"

end
