(* ===== verification/Fixed_Point.thy ===== *)
theory Fixed_Point
  imports Prelude
begin

text \<open>
  \<^verbatim>\<open>threads/fixed_point.h\<close>: the 17.14 fixed-point numbers of the advanced scheduler.  A
  C \<open>int\<close> is an \<^typ>\<open>int\<close> whose results are wrapped to 32 bits by \<^const>\<open>i32\<close>, an
  \<open>int64_t\<close> intermediate by \<^const>\<open>i64\<close>; C's division is \<open>sdiv\<close>.  The two functions
  that divide by an argument stop with \<^const>\<open>Divide_error\<close> on zero, as the processor does.
\<close>

definition F :: int where
  "F = push_bit 14 1"

definition int_to_fp :: "int \<Rightarrow> int" where
  "int_to_fp n = i32 (n * F)"

definition fp_to_int :: "int \<Rightarrow> int" where
  "fp_to_int x = i32 (x sdiv F)"

definition fp_to_int_nearest :: "int \<Rightarrow> int" where
  "fp_to_int_nearest x =
    (if x \<ge> 0 then i32 (i32 (x + F sdiv 2) sdiv F)
     else i32 (i32 (x - F sdiv 2) sdiv F))"

definition fp_add :: "int \<Rightarrow> int \<Rightarrow> int" where
  "fp_add x y = i32 (x + y)"

definition fp_sub :: "int \<Rightarrow> int \<Rightarrow> int" where
  "fp_sub x y = i32 (x - y)"

definition fp_add_int :: "int \<Rightarrow> int \<Rightarrow> int" where
  "fp_add_int x n = i32 (x + i32 (n * F))"

definition fp_sub_int :: "int \<Rightarrow> int \<Rightarrow> int" where
  "fp_sub_int x n = i32 (x - i32 (n * F))"

definition fp_mul :: "int \<Rightarrow> int \<Rightarrow> int" where
  "fp_mul x y = i32 (i64 (x * y) sdiv F)"

definition fp_mul_int :: "int \<Rightarrow> int \<Rightarrow> int" where
  "fp_mul_int x n = i32 (x * n)"

definition fp_div :: "int \<Rightarrow> int \<Rightarrow> int res" where
  "fp_div x y = ensure (y \<noteq> 0) Divide_error (Inr (i32 (i64 (x * F) sdiv y)))"

definition fp_div_int :: "int \<Rightarrow> int \<Rightarrow> int res" where
  "fp_div_int x n = ensure (n \<noteq> 0) Divide_error (Inr (i32 (x sdiv n)))"

lemmas fp_defs = int_to_fp_def fp_to_int_def fp_to_int_nearest_def fp_add_def fp_sub_def
  fp_add_int_def fp_sub_int_def fp_mul_def fp_mul_int_def fp_div_def fp_div_int_def

lemma F_value [simp]: "F = 16384"
  by (simp add: F_def push_bit_eq_mult)

lemma is_i32_sdiv [intro]: "is_i32 x \<Longrightarrow> 0 < d \<Longrightarrow> is_i32 (x sdiv d)"
  using sdiv_lower [of d x] sdiv_upper [of d x] sdiv_abs_le [of d x] sdiv_sign [of d x]
  by (auto simp: is_i32_def abs_le_iff abs_if split: if_splits)

section \<open>No intermediate overflow\<close>

lemma int_mult_range: "is_i32 x \<Longrightarrow> is_i32 y \<Longrightarrow> \<bar>x * y\<bar> \<le> 4611686018427387904"
proof -
  assume "is_i32 x" "is_i32 y"
  then have "\<bar>x\<bar> \<le> 2147483648" "\<bar>y\<bar> \<le> 2147483648" by (auto simp: is_i32_def)
  then have "\<bar>x\<bar> * \<bar>y\<bar> \<le> 2147483648 * 2147483648" by (intro mult_mono) auto
  then show ?thesis by (simp add: abs_mult)
qed

lemma fp_mul_no_overflow: "is_i32 x \<Longrightarrow> is_i32 y \<Longrightarrow> i64 (x * y) = x * y"
  using int_mult_range [of x y] by (intro i64_id) (auto simp: is_i64_def abs_le_iff)

lemma fp_div_no_overflow: "is_i32 x \<Longrightarrow> i64 (x * F) = x * F"
  by (intro i64_id) (auto simp: is_i64_def is_i32_def)

lemma fp_mul_in_range:
  "is_i32 x \<Longrightarrow> is_i32 y \<Longrightarrow> is_i32 ((x * y) sdiv 16384) \<Longrightarrow> fp_mul x y = (x * y) sdiv 16384"
  by (simp add: fp_mul_def fp_mul_no_overflow i32_id)

section \<open>Conversions\<close>

lemma fp_to_int_in_range: "is_i32 x \<Longrightarrow> fp_to_int x = x sdiv 16384"
  by (simp add: fp_to_int_def i32_id is_i32_sdiv)

lemma int_to_fp_in_range: "\<bar>n\<bar> < 131072 \<Longrightarrow> int_to_fp n = n * 16384"
  by (simp add: int_to_fp_def i32_id is_i32_def abs_less_iff)

lemma fp_to_int_nearest_in_range:
  assumes "\<bar>x\<bar> < 2147475456"
  shows "fp_to_int_nearest x = (if x \<ge> 0 then (x + 8192) sdiv 16384 else (x - 8192) sdiv 16384)"
proof -
  have h: "F sdiv 2 = 8192" by simp
  from assms have "is_i32 (x + 8192)" "is_i32 (x - 8192)" by (auto simp: is_i32_def)
  then show ?thesis
    unfolding fp_to_int_nearest_def h by (auto simp: i32_id is_i32_sdiv)
qed

text \<open>Converting an integer to fixed point and back gives the integer again, both with the
  truncating and with the rounding conversion, for every integer of at most 17 bits and sign (the integers whose
  fixed-point form fits in 32 bits, which 131072 and beyond do not).\<close>

theorem fp_int_roundtrip:
  assumes "\<bar>n\<bar> < 131072"
  shows "fp_to_int (int_to_fp n) = n \<and> fp_to_int_nearest (int_to_fp n) = n"
proof -
  have x: "int_to_fp n = n * 16384" using assms by (rule int_to_fp_in_range)
  have "\<bar>n * 16384\<bar> < 2147475456" and r: "is_i32 (n * 16384)"
    using assms by (auto simp: abs_less_iff is_i32_def)
  then have "fp_to_int_nearest (n * 16384) = n"
    by (subst fp_to_int_nearest_in_range) (auto simp: sdiv_nonneg sdiv_neg)
  moreover have "fp_to_int (n * 16384) = n"
    using r by (simp add: fp_to_int_in_range sdiv_mult_self)
  ultimately show ?thesis by (simp add: x)
qed

theorem fp_int_roundtrip_witness: "fp_to_int (int_to_fp (- 20)) = - 20 \<and> fp_to_int_nearest (int_to_fp (- 20)) = - 20"
  by (rule fp_int_roundtrip) simp

text \<open>Rounding to the nearest integer is off by at most one half: twice the distance between
  the number and its rounded value is at most one unit, for every number that is at least one half
  away from the ends of the 32-bit range.\<close>

theorem fp_to_int_nearest_error:
  assumes "\<bar>x\<bar> < 2147475456"
  shows "2 * \<bar>F * fp_to_int_nearest x - x\<bar> \<le> F"
proof (cases "0 \<le> x")
  case True
  with assms show ?thesis
    using sdiv_lower [of 16384 "x + 8192"] by (simp add: fp_to_int_nearest_in_range abs_if)
next
  case False
  with assms show ?thesis
    using sdiv_upper [of 16384 "x - 8192"] by (simp add: fp_to_int_nearest_in_range abs_if)
qed

theorem fp_to_int_nearest_error_witness: "2 * \<bar>F * fp_to_int_nearest (- 24577) - (- 24577)\<bar> \<le> F"
  by (rule fp_to_int_nearest_error) simp

text \<open>C40. The product of two fixed-point numbers is the exact product truncated towards zero,
  with an error below one unit of the last place; the 64-bit intermediate product never overflows.
  The only hypothesis is that the exact product is itself a 17.14 number.\<close>

theorem fp_mul_correct:
  assumes "is_i32 x" and "is_i32 y" and "is_i32 ((x * y) sdiv F)"
  shows "fp_mul x y = (x * y) sdiv F \<and> \<bar>F * fp_mul x y - x * y\<bar> < F"
proof -
  have "fp_mul x y = (x * y) sdiv F"
    using assms by (simp add: fp_mul_in_range)
  then show ?thesis using sdiv_error [of F "x * y"] by simp
qed

theorem fp_mul_correct_witness: "fp_mul 24576 (- 32769) = (24576 * (- 32769)) sdiv F \<and>
    \<bar>F * fp_mul 24576 (- 32769) - 24576 * (- 32769)\<bar> < F"
  by (rule fp_mul_correct) (simp_all add: is_i32_def)

end
