(* ===== verification/Kernel_State.thy ===== *)
theory Kernel_State
  imports Externals Fixed_Point
begin

text \<open>
  The data of the kernel: the constants, \<open>struct thread\<close> and the enumerations of
  \<^verbatim>\<open>threads/thread.h\<close>, \<open>struct semaphore\<close> and \<open>struct lock\<close> of \<^verbatim>\<open>threads/synch.h\<close>, and the
  global variables of \<^verbatim>\<open>thread.c\<close>, \<^verbatim>\<open>timer.c\<close> and \<^verbatim>\<open>init.c\<close> as one record, with the page tables in memory and the register that points to them.  The structures live in
  stores indexed by their address; the lists they contain live in the store of the list
  library.  The configuration is the one of the threads project: \<open>USERPROG\<close>, \<open>FILESYS\<close> and
  \<open>VM\<close> are not defined.
\<close>

section \<open>Constants\<close>

definition TIME_SLICE :: "32 word" where "TIME_SLICE = 4"
definition THREAD_MAGIC :: "32 word" where "THREAD_MAGIC = 0xcd6abf4b"
definition TID_ERROR :: int where "TID_ERROR = - 1"
definition PRI_MIN :: int where "PRI_MIN = 0"
definition PRI_DEFAULT :: int where "PRI_DEFAULT = 31"
definition PRI_MAX :: int where "PRI_MAX = 63"
definition NICE_MIN :: int where "NICE_MIN = - 20"
definition NICE_DEFAULT :: int where "NICE_DEFAULT = 0"
definition NICE_MAX :: int where "NICE_MAX = 20"
definition RECENT_CPU_DEFAULT :: int where "RECENT_CPU_DEFAULT = 0"
definition TIMER_FREQ :: int where "TIMER_FREQ = 100"

text \<open>The page of a thread: \<open>struct thread\<close> at its bottom, the kernel stack growing down from its top.\<close>

definition PGSIZE :: nat where "PGSIZE = 4096"

lemmas kernel_consts = TIME_SLICE_def THREAD_MAGIC_def TID_ERROR_def PRI_MIN_def PRI_DEFAULT_def
  PRI_MAX_def NICE_MIN_def NICE_DEFAULT_def NICE_MAX_def RECENT_CPU_DEFAULT_def TIMER_FREQ_def
  PGSIZE_def

section \<open>Structures\<close>

datatype thread_status = THREAD_RUNNING | THREAD_READY | THREAD_BLOCKED | THREAD_DYING

record thread =
  wakeup_tick :: int
  tid :: int
  status :: thread_status
  name :: string
  stack :: nat
  priority :: int
  base_priority :: int
  effective_priority :: int
  waiting_lock :: "lock_ptr option"
  nice :: int
  recent_cpu :: int
  magic :: "32 word"

text \<open>The stack frame of \<open>kernel_thread\<close>; code and its argument are addresses.\<close>

record kernel_thread_frame =
  kf_eip :: "addr option"
  kf_function :: addr
  kf_aux :: addr

text \<open>The frames of \<open>switch_entry\<close> and \<open>switch_threads\<close>, with the members \<open>thread_create\<close> sets.\<close>

record switch_entry_frame =
  ef_eip :: addr

record switch_threads_frame =
  sf_eip :: addr
  sf_ebp :: addr

record semaphore =
  sema_value :: "32 word"

record lock =
  holder :: "thread_ptr option"

text \<open>
  The state of the kernel.  \<open>running\<close> is the page the stack pointer is in, that is the thread whose
  code runs.
\<close>

record ('l, 'i, 'p) kstate =
  lists :: 'l
  cpu :: 'i
  pages :: 'p
  running :: thread_ptr
  threads :: "thread_ptr \<Rightarrow> thread"
  kframes :: "addr \<Rightarrow> kernel_thread_frame"
  eframes :: "addr \<Rightarrow> switch_entry_frame"
  sframes :: "addr \<Rightarrow> switch_threads_frame"
  semas :: "sema_ptr \<Rightarrow> semaphore"
  locks :: "lock_ptr \<Rightarrow> lock"
  idle_thread :: "thread_ptr option"
  initial_thread :: "thread_ptr option"
  next_tid :: int
  idle_ticks :: int
  kernel_ticks :: int
  user_ticks :: int
  thread_ticks :: "32 word"
  thread_mlfqs :: bool
  load_avg :: int
  ticks :: int
  loops_per_tick :: "32 word"
  init_page_dir :: addr
  tables :: "addr \<Rightarrow> nat \<Rightarrow> 32 word"
  cr3 :: nat

definition upd_thread :: "thread_ptr \<Rightarrow> (thread \<Rightarrow> thread) \<Rightarrow> ('l, 'i, 'p) kstate \<Rightarrow> ('l, 'i, 'p) kstate" where
  "upd_thread t f s = s\<lparr>threads := (threads s)(t := f (threads s t))\<rparr>"

definition upd_lists :: "('l \<Rightarrow> 'l) \<Rightarrow> ('l, 'i, 'p) kstate \<Rightarrow> ('l, 'i, 'p) kstate" where
  "upd_lists f s = s\<lparr>lists := f (lists s)\<rparr>"

definition upd_cpu :: "('i \<Rightarrow> 'i) \<Rightarrow> ('l, 'i, 'p) kstate \<Rightarrow> ('l, 'i, 'p) kstate" where
  "upd_cpu f s = s\<lparr>cpu := f (cpu s)\<rparr>"

text \<open>The elements of a list of the kernel, and the threads they are members of.\<close>

abbreviation elems :: "('l, 'i, 'p) externs \<Rightarrow> ('l, 'i, 'p) kstate \<Rightarrow> list_ptr \<Rightarrow> list_elem list" where
  "elems E s l \<equiv> list_elems E l (lists s)"

abbreviation level :: "('l, 'i, 'p) externs \<Rightarrow> ('l, 'i, 'p) kstate \<Rightarrow> intr_level" where
  "level E s \<equiv> intr_get_level E (cpu s)"

lemma upd_thread_simps [simp]:
  "threads (upd_thread t f s) = (threads s)(t := f (threads s t))"
  "lists (upd_thread t f s) = lists s"
  "cpu (upd_thread t f s) = cpu s"
  "pages (upd_thread t f s) = pages s"
  "running (upd_thread t f s) = running s"
  "kframes (upd_thread t f s) = kframes s"
  "eframes (upd_thread t f s) = eframes s"
  "sframes (upd_thread t f s) = sframes s"
  "semas (upd_thread t f s) = semas s"
  "locks (upd_thread t f s) = locks s"
  "idle_thread (upd_thread t f s) = idle_thread s"
  "initial_thread (upd_thread t f s) = initial_thread s"
  "next_tid (upd_thread t f s) = next_tid s"
  "thread_ticks (upd_thread t f s) = thread_ticks s"
  "thread_mlfqs (upd_thread t f s) = thread_mlfqs s"
  "load_avg (upd_thread t f s) = load_avg s"
  "ticks (upd_thread t f s) = ticks s"
  by (simp_all add: upd_thread_def)

lemma upd_lists_simps [simp]:
  "lists (upd_lists g s) = g (lists s)"
  "threads (upd_lists g s) = threads s"
  "cpu (upd_lists g s) = cpu s"
  "pages (upd_lists g s) = pages s"
  "running (upd_lists g s) = running s"
  "kframes (upd_lists g s) = kframes s"
  "eframes (upd_lists g s) = eframes s"
  "sframes (upd_lists g s) = sframes s"
  "semas (upd_lists g s) = semas s"
  "locks (upd_lists g s) = locks s"
  "idle_thread (upd_lists g s) = idle_thread s"
  "initial_thread (upd_lists g s) = initial_thread s"
  "next_tid (upd_lists g s) = next_tid s"
  "thread_ticks (upd_lists g s) = thread_ticks s"
  "thread_mlfqs (upd_lists g s) = thread_mlfqs s"
  "load_avg (upd_lists g s) = load_avg s"
  "ticks (upd_lists g s) = ticks s"
  by (simp_all add: upd_lists_def)

lemma upd_cpu_simps [simp]:
  "cpu (upd_cpu g s) = g (cpu s)"
  "lists (upd_cpu g s) = lists s"
  "threads (upd_cpu g s) = threads s"
  "pages (upd_cpu g s) = pages s"
  "running (upd_cpu g s) = running s"
  "kframes (upd_cpu g s) = kframes s"
  "eframes (upd_cpu g s) = eframes s"
  "sframes (upd_cpu g s) = sframes s"
  "semas (upd_cpu g s) = semas s"
  "locks (upd_cpu g s) = locks s"
  "idle_thread (upd_cpu g s) = idle_thread s"
  "initial_thread (upd_cpu g s) = initial_thread s"
  "next_tid (upd_cpu g s) = next_tid s"
  "thread_ticks (upd_cpu g s) = thread_ticks s"
  "thread_mlfqs (upd_cpu g s) = thread_mlfqs s"
  "load_avg (upd_cpu g s) = load_avg s"
  "ticks (upd_cpu g s) = ticks s"
  by (simp_all add: upd_cpu_def)

section \<open>The running thread\<close>

definition is_thread :: "('l, 'i, 'p) kstate \<Rightarrow> thread_ptr option \<Rightarrow> bool" where
  "is_thread s t = (case t of None \<Rightarrow> False | Some p \<Rightarrow> magic (threads s p) = THREAD_MAGIC)"

definition running_thread :: "('l, 'i, 'p) kstate \<Rightarrow> thread_ptr" where
  "running_thread s = running s"

definition thread_current :: "('l, 'i, 'p) kstate \<Rightarrow> thread_ptr res" where
  "thread_current s =
    (let t = running_thread s
     in ensure (is_thread s (Some t)) Assert_is_thread
         (ensure (status (threads s t) = THREAD_RUNNING) Assert_running (Inr t)))"

definition thread_name :: "('l, 'i, 'p) kstate \<Rightarrow> string res" where
  "thread_name s = res_bind (thread_current s) (\<lambda>t. Inr (name (threads s t)))"

definition thread_tid :: "('l, 'i, 'p) kstate \<Rightarrow> int res" where
  "thread_tid s = res_bind (thread_current s) (\<lambda>t. Inr (tid (threads s t)))"

definition thread_get_priority :: "('l, 'i, 'p) kstate \<Rightarrow> int res" where
  "thread_get_priority s = res_bind (thread_current s) (\<lambda>t. Inr (priority (threads s t)))"

definition thread_get_nice :: "('l, 'i, 'p) kstate \<Rightarrow> int res" where
  "thread_get_nice s = res_bind (thread_current s) (\<lambda>t. Inr (nice (threads s t)))"

text \<open>
  The state in which kernel code of a thread runs: its page holds a thread, and that thread is
  marked as running.
\<close>

definition on_cpu :: "('l, 'i, 'p) kstate \<Rightarrow> bool" where
  "on_cpu s \<longleftrightarrow> magic (threads s (running s)) = THREAD_MAGIC \<and>
    status (threads s (running s)) = THREAD_RUNNING"

lemma thread_current_eq_Inr: "thread_current s = Inr t \<longleftrightarrow> on_cpu s \<and> t = running s"
  by (auto simp: thread_current_def on_cpu_def is_thread_def running_thread_def res_simps Let_def)

lemma thread_current_on_cpu [simp]: "on_cpu s \<Longrightarrow> thread_current s = Inr (running s)"
  by (simp add: thread_current_eq_Inr)

lemma is_thread_Some [simp]: "is_thread s (Some t) \<longleftrightarrow> magic (threads s t) = THREAD_MAGIC"
  by (simp add: is_thread_def)

lemma is_thread_None [simp]: "\<not> is_thread s None"
  by (simp add: is_thread_def)

end
