(* ===== verification/Reference_Externs.thy ===== *)
theory Reference_Externs
  imports Externals
begin

text \<open>
  One implementation of the external functions that satisfies the laws: the store maps the address
  of a list to its elements, the interrupt state is a record of three flags and the page allocator a
  list of free pages.  It discharges the laws of \<open>list_lib\<close> and \<open>intr_lib\<close>, which are therefore
  satisfiable, and it is what the concrete examples run on.
\<close>

type_synonym list_store = "list_ptr \<Rightarrow> list_elem list"

record cpu_flags =
  flag_level :: intr_level
  flag_context :: bool
  flag_pending :: bool

text \<open>The first largest element of a list, by one pass over it.\<close>

definition max_first :: "('a \<Rightarrow> 'a \<Rightarrow> bool) \<Rightarrow> 'a list \<Rightarrow> 'a" where
  "max_first lt xs = fold (\<lambda>x m. if lt m x then x else m) (tl xs) (hd xs)"

definition ref_externs :: "(list_store, cpu_flags, addr list) externs" where
  "ref_externs = \<lparr>
    list_elems = (\<lambda>l h. h l),
    list_init = (\<lambda>l h. h(l := [])),
    list_empty = (\<lambda>l h. h l = []),
    list_size = (\<lambda>l h. int (length (h l))),
    list_front = (\<lambda>l h. hd (h l)),
    list_pop_front = (\<lambda>l h. (hd (h l), h(l := tl (h l)))),
    list_push_back = (\<lambda>l e h. h(l := h l @ [e])),
    list_insert_ordered = (\<lambda>l e lt h. h(l := ins_before lt e (h l))),
    list_remove = (\<lambda>e h l. remove1 e (h l)),
    list_max = (\<lambda>l lt h. max_first lt (h l)),
    intr_get_level = flag_level,
    intr_set_level = (\<lambda>lv i. i\<lparr>flag_level := lv\<rparr>),
    intr_disable = (\<lambda>i. (flag_level i, i\<lparr>flag_level := INTR_OFF\<rparr>)),
    intr_enable = (\<lambda>i. i\<lparr>flag_level := INTR_ON\<rparr>),
    intr_context = flag_context,
    intr_yield_on_return = (\<lambda>i. i\<lparr>flag_pending := True\<rparr>),
    intr_yield_pending = flag_pending,
    palloc_get_page = (\<lambda>p. case p of [] \<Rightarrow> (None, []) | a # as \<Rightarrow> (Some a, removeAll a as)),
    palloc_free_page = (\<lambda>a p. a # p),
    switch_entry_frame_size = 4, switch_threads_frame_size = 28, switch_entry_code = 100, kernel_thread_code = 200,
    idle_code = 300, sema_test_helper_code = 400\<rparr>"

text \<open>What the fields of the record are, for evaluation.\<close>

lemma ref_externs_simps [simp]:
  "list_elems ref_externs l h = h l"
  "list_init ref_externs l h = h(l := [])"
  "list_empty ref_externs l h = (h l = [])"
  "list_size ref_externs l h = int (length (h l))"
  "list_front ref_externs l h = hd (h l)"
  "list_pop_front ref_externs l h = (hd (h l), h(l := tl (h l)))"
  "list_push_back ref_externs l e h = h(l := h l @ [e])"
  "list_insert_ordered ref_externs l e lt h = h(l := ins_before lt e (h l))"
  "list_remove ref_externs e h = (\<lambda>l. remove1 e (h l))"
  "list_max ref_externs l lt h = max_first lt (h l)"
  "intr_get_level ref_externs i = flag_level i"
  "intr_set_level ref_externs lv i = i\<lparr>flag_level := lv\<rparr>"
  "intr_disable ref_externs i = (flag_level i, i\<lparr>flag_level := INTR_OFF\<rparr>)"
  "intr_enable ref_externs i = i\<lparr>flag_level := INTR_ON\<rparr>"
  "intr_context ref_externs i = flag_context i"
  "intr_yield_on_return ref_externs i = i\<lparr>flag_pending := True\<rparr>"
  "intr_yield_pending ref_externs i = flag_pending i"
  "palloc_get_page ref_externs p = (case p of [] \<Rightarrow> (None, []) | a # as \<Rightarrow> (Some a, removeAll a as))"
  "palloc_free_page ref_externs a p = a # p"
  "switch_entry_frame_size ref_externs = 4" "switch_threads_frame_size ref_externs = 28"
  "switch_entry_code ref_externs = 100" "kernel_thread_code ref_externs = 200"
  "idle_code ref_externs = 300" "sema_test_helper_code ref_externs = 400"
  by (simp_all add: ref_externs_def)

lemma weak_order_subset: "weak_order_on lt S \<Longrightarrow> T \<subseteq> S \<Longrightarrow> weak_order_on lt T"
  unfolding weak_order_on_def by blast

lemma weak_order_asym: "weak_order_on lt S \<Longrightarrow> a \<in> S \<Longrightarrow> b \<in> S \<Longrightarrow> lt a b \<Longrightarrow> \<not> lt b a"
  unfolding weak_order_on_def by blast

lemma weak_order_above:
  assumes "weak_order_on lt S" and "m \<in> S" "a \<in> S" "y \<in> S"
    and "lt m y" and "\<not> lt m a"
  shows "lt a y"
  using assms unfolding weak_order_on_def by blast

lemma max_first_from:
  assumes "weak_order_on lt (insert m (set xs))"
  shows "\<exists>as bs. m # xs = as @ fold (\<lambda>x m. if lt m x then x else m) xs m # bs \<and>
    (\<forall>a \<in> set as. lt a (fold (\<lambda>x m. if lt m x then x else m) xs m)) \<and>
    (\<forall>b \<in> set bs. \<not> lt (fold (\<lambda>x m. if lt m x then x else m) xs m) b)"
  using assms
proof (induction xs rule: rev_induct)
  case Nil
  show ?case by (rule exI [of _ "[]"], rule exI [of _ "[]"]) simp
next
  case (snoc y ys)
  define M where "M = fold (\<lambda>x m. if lt m x then x else m) ys m"
  note order = snoc.prems [unfolded set_append]
  have "weak_order_on lt (insert m (set ys))"
    using order by (rule weak_order_subset) auto
  then obtain as bs where split: "m # ys = as @ M # bs"
    and as: "\<forall>a \<in> set as. lt a M" and bs: "\<forall>b \<in> set bs. \<not> lt M b"
    using snoc.IH unfolding M_def by blast
  have mem: "insert m (set ys) = set as \<union> {M} \<union> set bs"
    using arg_cong [OF split, of set] by auto
  show ?case
  proof (cases "lt M y")
    case True
    have "lt a y" if "a \<in> insert m (set ys)" for a
    proof (rule weak_order_above [OF order _ _ _ True])
      from that consider "lt a M" | "a = M" | "\<not> lt M a" using as bs unfolding mem by blast
      moreover have "lt b M \<Longrightarrow> \<not> lt M b" if "b \<in> insert m (set ys)" for b
        using that mem by (intro weak_order_asym [OF order]) auto
      ultimately show "\<not> lt M a" using that mem by blast
    qed (use that mem in auto)
    with True show ?thesis
      by (intro exI [of _ "m # ys"] exI [of _ "[]"]) (simp add: M_def)
  next
    case False
    then show ?thesis using split as bs
      by (intro exI [of _ as] exI [of _ "bs @ [y]"]) (auto simp: M_def)
  qed
qed

lemma max_first_split:
  "xs \<noteq> [] \<Longrightarrow> weak_order_on lt (set xs) \<Longrightarrow>
    \<exists>as bs. xs = as @ max_first lt xs # bs \<and>
      (\<forall>a \<in> set as. lt a (max_first lt xs)) \<and> (\<forall>b \<in> set bs. \<not> lt (max_first lt xs) b)"
  using max_first_from [of lt "hd xs" "tl xs"] by (cases xs) (simp_all add: max_first_def)

interpretation ref: kernel_env ref_externs
  by unfold_locales (auto simp: max_first_split)

interpretation ref_pages: page_alloc ref_externs set
proof
  fix p :: "addr list"
  show "finite (set p)" by simp
  assume "set p \<noteq> {}"
  then show "\<exists>a p'. palloc_get_page ref_externs p = (Some a, p') \<and> a \<in> set p \<and> set p' = set p - {a}"
    by (cases p) auto
qed

end
