(* ===== verification/Reference_State.thy ===== *)
theory Reference_State
  imports Kernel_State Reference_Externs
begin

text \<open>
  Concrete kernel states over the reference implementation of the external functions, for the
  examples that show the hypotheses of the properties to be satisfiable.
\<close>

type_synonym ref_kstate = "(list_store, cpu_flags, addr list) kstate"

definition ref_thread :: "thread_status \<Rightarrow> int \<Rightarrow> thread" where
  "ref_thread st p = \<lparr>wakeup_tick = 0, tid = 1, status = st, name = ''main'', stack = 0,
    priority = p, base_priority = p, effective_priority = p, waiting_lock = None,
    nice = 0, recent_cpu = 0, magic = THREAD_MAGIC\<rparr>"

text \<open>
  Thread 1 runs; the other threads, the lists and the interrupt level are arguments.  Thread 9 is
  the idle thread.
\<close>

definition ref_state :: "bool \<Rightarrow> intr_level \<Rightarrow> (thread_ptr \<Rightarrow> thread) \<Rightarrow> list_store \<Rightarrow> ref_kstate" where
  "ref_state mlfqs lv ths h = \<lparr>
    lists = h, cpu = \<lparr>flag_level = lv, flag_context = False, flag_pending = False\<rparr>, pages = [],
    running = 1, threads = ths,
    kframes = (\<lambda>_. \<lparr>kf_eip = None, kf_function = 0, kf_aux = 0\<rparr>),
    eframes = (\<lambda>_. \<lparr>ef_eip = 0\<rparr>), sframes = (\<lambda>_. \<lparr>sf_eip = 0, sf_ebp = 0\<rparr>),
    semas = (\<lambda>_. \<lparr>sema_value = 0\<rparr>), locks = (\<lambda>_. \<lparr>holder = None\<rparr>),
    idle_thread = Some 9, initial_thread = Some 1, next_tid = 3,
    idle_ticks = 0, kernel_ticks = 0, user_ticks = 0, thread_ticks = 0,
    thread_mlfqs = mlfqs, load_avg = 0, ticks = 0, loops_per_tick = 0,
    init_page_dir = 0, tables = (\<lambda>_ _. 0), cr3 = 0\<rparr>"

text \<open>A running thread of priority 31 and a set of others, all with priority as given.\<close>

definition ref_threads :: "(thread_ptr \<Rightarrow> thread_status \<times> int) \<Rightarrow> thread_ptr \<Rightarrow> thread" where
  "ref_threads f t = (case f t of (st, p) \<Rightarrow> ref_thread st p)"

lemma ref_thread_simps [simp]:
  "wakeup_tick (ref_thread st p) = 0" "tid (ref_thread st p) = 1" "status (ref_thread st p) = st"
  "priority (ref_thread st p) = p" "base_priority (ref_thread st p) = p"
  "waiting_lock (ref_thread st p) = None" "nice (ref_thread st p) = 0"
  "recent_cpu (ref_thread st p) = 0" "magic (ref_thread st p) = THREAD_MAGIC"
  by (simp_all add: ref_thread_def)

lemma ref_state_simps [simp]:
  "lists (ref_state m lv ths h) = h"
  "cpu (ref_state m lv ths h) = \<lparr>flag_level = lv, flag_context = False, flag_pending = False\<rparr>"
  "pages (ref_state m lv ths h) = []" "running (ref_state m lv ths h) = 1"
  "threads (ref_state m lv ths h) = ths"
  "semas (ref_state m lv ths h) x = \<lparr>sema_value = 0\<rparr>"
  "locks (ref_state m lv ths h) l = \<lparr>holder = None\<rparr>"
  "idle_thread (ref_state m lv ths h) = Some 9" "initial_thread (ref_state m lv ths h) = Some 1"
  "next_tid (ref_state m lv ths h) = 3" "thread_ticks (ref_state m lv ths h) = 0"
  "thread_mlfqs (ref_state m lv ths h) = m" "load_avg (ref_state m lv ths h) = 0"
  "ticks (ref_state m lv ths h) = 0"
  by (simp_all add: ref_state_def)

end
