(* ===== verification/Mlfqs.thy ===== *)
theory Mlfqs
  imports Reference_State
begin

text \<open>
  The multi-level feedback queue scheduler of \<^verbatim>\<open>threads/thread.c\<close>, as far as it does not give up
  the processor: the 64 run queues, the formulas for \<open>priority\<close>, \<open>recent_cpu\<close> and \<open>load_avg\<close>, and
  the periodic recalculation with the redistribution of the queues.
\<close>

section \<open>Queues\<close>

definition mlfqs_init :: "('l, 'i, 'p) externs \<Rightarrow> ('l, 'i, 'p) kstate \<Rightarrow> ('l, 'i, 'p) kstate" where
  "mlfqs_init E s =
    (fold (\<lambda>i. upd_lists (list_init E (Mlfqs_list i))) [PRI_MIN..PRI_MAX] s)\<lparr>load_avg := 0\<rparr>"

fun mlfqs_scan ::
    "('l, 'i, 'p) externs \<Rightarrow> int list \<Rightarrow> ('l, 'i, 'p) kstate \<Rightarrow> thread_ptr option \<times> ('l, 'i, 'p) kstate" where
  "mlfqs_scan E [] s = (idle_thread s, s)"
| "mlfqs_scan E (i # is) s =
    (if \<not> list_empty E (Mlfqs_list i) (lists s)
     then (case list_pop_front E (Mlfqs_list i) (lists s) of
             (e, h) \<Rightarrow> (Some (list_entry e), s\<lparr>lists := h\<rparr>))
     else mlfqs_scan E is s)"

definition mlfqs_next_thread_to_run ::
    "('l, 'i, 'p) externs \<Rightarrow> ('l, 'i, 'p) kstate \<Rightarrow> thread_ptr option \<times> ('l, 'i, 'p) kstate" where
  "mlfqs_next_thread_to_run E s = mlfqs_scan E (rev [PRI_MIN..PRI_MAX]) s"

definition mlfqs_insert ::
    "('l, 'i, 'p) externs \<Rightarrow> thread_ptr \<Rightarrow> ('l, 'i, 'p) kstate \<Rightarrow> ('l, 'i, 'p) kstate res" where
  "mlfqs_insert E t s =
    (let t_priority = priority (threads s t)
     in ensure (PRI_MIN \<le> t_priority \<and> t_priority \<le> PRI_MAX) Out_of_bounds
         (Inr (upd_lists (list_push_back E (Mlfqs_list t_priority) (elem_of t)) s)))"

section \<open>Formulas\<close>

definition mlfqs_update_recent_cpu ::
    "thread_ptr \<Rightarrow> ('l, 'i, 'p) kstate \<Rightarrow> ('l, 'i, 'p) kstate res" where
  "mlfqs_update_recent_cpu t s =
    (if Some t = idle_thread s then Inr s
     else let old_cpu = recent_cpu (threads s t);
              two_load = fp_mul_int (load_avg s) 2;
              denom = fp_add_int two_load 1
          in res_bind (fp_div two_load denom) (\<lambda>coef.
               let new_cpu = fp_mul coef old_cpu;
                   new_cpu = fp_add_int new_cpu (nice (threads s t))
               in Inr (upd_thread t (recent_cpu_update (\<lambda>_. new_cpu)) s)))"

definition mlfqs_update_priority ::
    "thread_ptr \<Rightarrow> ('l, 'i, 'p) kstate \<Rightarrow> ('l, 'i, 'p) kstate res" where
  "mlfqs_update_priority t s =
    (if Some t = idle_thread s then Inr s
     else res_bind (fp_div_int (recent_cpu (threads s t)) 4) (\<lambda>quarter.
       let middle = fp_to_int quarter;
           new_priority = i32 (i32 (PRI_MAX - middle) - i32 (nice (threads s t) * 2));
           new_priority = (if new_priority > PRI_MAX then PRI_MAX
                           else if new_priority < PRI_MIN then PRI_MIN
                           else new_priority)
       in Inr (upd_thread t (priority_update (\<lambda>_. new_priority)) s)))"

definition mlfqs_ready_threads :: "('l, 'i, 'p) externs \<Rightarrow> ('l, 'i, 'p) kstate \<Rightarrow> int res" where
  "mlfqs_ready_threads E s =
    (let counter = fold (\<lambda>i c. i32 (c + i32 (list_size E (Mlfqs_list i) (lists s)))) [PRI_MIN..PRI_MAX] 0
     in res_bind (thread_current s) (\<lambda>cur.
          Inr (if Some cur \<noteq> idle_thread s then i32 (counter + 1) else counter)))"

definition mlfqs_update_load_avg ::
    "('l, 'i, 'p) externs \<Rightarrow> ('l, 'i, 'p) kstate \<Rightarrow> ('l, 'i, 'p) kstate res" where
  "mlfqs_update_load_avg E s =
    res_bind (mlfqs_ready_threads E s) (\<lambda>ready_threads.
    res_bind (fp_div_int (int_to_fp 59) 60) (\<lambda>coef.
      let a = fp_mul coef (load_avg s)
      in res_bind (fp_div_int (int_to_fp 1) 60) (\<lambda>sec_coef.
           let b = fp_mul_int sec_coef ready_threads
           in Inr (s\<lparr>load_avg := fp_add a b\<rparr>))))"

definition thread_get_load_avg :: "('l, 'i, 'p) kstate \<Rightarrow> int" where
  "thread_get_load_avg s = fp_to_int_nearest (fp_mul_int (load_avg s) 100)"

definition thread_get_recent_cpu :: "('l, 'i, 'p) kstate \<Rightarrow> int res" where
  "thread_get_recent_cpu s =
    res_bind (thread_current s) (\<lambda>cur.
      let temp = fp_mul_int (recent_cpu (threads s cur)) 100 in Inr (fp_to_int_nearest temp))"

section \<open>Recalculation\<close>

definition thread_foreach ::
    "('l, 'i, 'p) externs \<Rightarrow> (thread_ptr \<Rightarrow> ('l, 'i, 'p) kstate \<Rightarrow> ('l, 'i, 'p) kstate res) \<Rightarrow>
      ('l, 'i, 'p) kstate \<Rightarrow> ('l, 'i, 'p) kstate res" where
  "thread_foreach E func s =
    ensure (level E s = INTR_OFF) Assert_intr_off
      (res_fold (\<lambda>e. func (list_entry e)) (elems E s All_list) s)"

definition mlfqs_update_rcpu_la ::
    "('l, 'i, 'p) externs \<Rightarrow> ('l, 'i, 'p) kstate \<Rightarrow> ('l, 'i, 'p) kstate res" where
  "mlfqs_update_rcpu_la E s =
    res_bind (thread_foreach E mlfqs_update_recent_cpu s) (mlfqs_update_load_avg E)"

text \<open>The first loop of \<open>mlfqs_reorganize_queues\<close>, for one queue.\<close>

definition mlfqs_collect ::
    "('l, 'i, 'p) externs \<Rightarrow> int \<Rightarrow> ('l, 'i, 'p) kstate \<Rightarrow> ('l, 'i, 'p) kstate res" where
  "mlfqs_collect E i =
    res_while (\<lambda>s. \<not> list_empty E (Mlfqs_list i) (lists s))
      (\<lambda>s. case list_pop_front E (Mlfqs_list i) (lists s) of
             (e, h) \<Rightarrow> Inr (s\<lparr>lists := list_push_back E Temp_list e h\<rparr>))"

text \<open>Its second loop.\<close>

definition mlfqs_reinsert ::
    "('l, 'i, 'p) externs \<Rightarrow> ('l, 'i, 'p) kstate \<Rightarrow> ('l, 'i, 'p) kstate res" where
  "mlfqs_reinsert E =
    res_while (\<lambda>s. \<not> list_empty E Temp_list (lists s))
      (\<lambda>s. case list_pop_front E Temp_list (lists s) of
             (e, h) \<Rightarrow> mlfqs_insert E (list_entry e) (s\<lparr>lists := h\<rparr>))"

definition mlfqs_reorganize_queues ::
    "('l, 'i, 'p) externs \<Rightarrow> ('l, 'i, 'p) kstate \<Rightarrow> ('l, 'i, 'p) kstate res" where
  "mlfqs_reorganize_queues E s =
    res_bind (res_fold (mlfqs_collect E) [PRI_MIN..PRI_MAX] (upd_lists (list_init E Temp_list) s))
      (mlfqs_reinsert E)"

definition mlfqs_update_priority_all ::
    "('l, 'i, 'p) externs \<Rightarrow> ('l, 'i, 'p) kstate \<Rightarrow> ('l, 'i, 'p) kstate res" where
  "mlfqs_update_priority_all E s =
    res_bind (thread_foreach E mlfqs_update_priority s) (mlfqs_reorganize_queues E)"

section \<open>The formulas are what the design asks for\<close>

lemma sdiv_sdiv: "0 < a \<Longrightarrow> 0 < b \<Longrightarrow> (x sdiv a) sdiv b = x sdiv (a * b :: int)"
proof (cases "0 \<le> x")
  case True
  moreover assume "0 < a" "0 < b"
  ultimately show ?thesis
    using sdiv_sign [of a x] by (simp add: sdiv_nonneg zdiv_zmult2_eq)
next
  case False
  moreover assume ab: "0 < a" "0 < b"
  moreover have "x sdiv a < 0 \<or> x sdiv a = 0" using False sdiv_sign [of a x] ab by linarith
  ultimately show ?thesis by (auto simp: sdiv_neg sdiv_nonneg zdiv_zmult2_eq)
qed

text \<open>The priority the design document gives: \<open>PRI_MAX - recent_cpu / 4 - nice * 2\<close>, within the bounds.\<close>

definition mlfqs_priority_spec :: "thread \<Rightarrow> int" where
  "mlfqs_priority_spec th =
    max PRI_MIN (min PRI_MAX (PRI_MAX - recent_cpu th sdiv (4 * F) - 2 * nice th))"

lemma mlfqs_update_priority_eq:
  assumes "Some t \<noteq> idle_thread s" and r: "is_i32 (recent_cpu (threads s t))"
    and n: "\<bar>nice (threads s t)\<bar> \<le> 20"
  shows "mlfqs_update_priority t s =
    Inr (upd_thread t (priority_update (\<lambda>_. mlfqs_priority_spec (threads s t))) s)"
proof -
  let ?r = "recent_cpu (threads s t)" and ?n = "nice (threads s t)"
  let ?q = "?r sdiv 65536"
  have m: "fp_to_int (?r sdiv 4) = ?q"
    using r by (simp add: fp_to_int_in_range is_i32_sdiv sdiv_sdiv)
  have q: "\<bar>?q\<bar> \<le> 32768"
    using r sdiv_mono [of 65536 "- 2147483648" ?r] sdiv_mono [of 65536 ?r 2147483647]
    by (auto simp: is_i32_def)
  have "i32 (i32 (63 - ?q) - i32 (?n * 2)) = 63 - ?q - 2 * ?n"
    using q n by (simp add: i32_id is_i32_def abs_le_iff)
  then show ?thesis
    using assms(1) r m
    by (simp add: mlfqs_update_priority_def fp_div_int_def i32_id is_i32_sdiv Let_def
        mlfqs_priority_spec_def PRI_MAX_def PRI_MIN_def max_def min_def)
qed

text \<open>The priority that the advanced scheduler gives a thread is the formula of the design
  document, \<open>PRI_MAX - recent_cpu / 4 - nice * 2\<close> with the quotient truncated to an integer, cut off
  at \<open>PRI_MIN\<close> and \<open>PRI_MAX\<close>; no other field, thread or list changes, and no arithmetic on the way
  overflows.\<close>

theorem mlfqs_update_priority_correct:
  assumes "Some t \<noteq> idle_thread s" and "is_i32 (recent_cpu (threads s t))"
    and "NICE_MIN \<le> nice (threads s t)" and "nice (threads s t) \<le> NICE_MAX"
  shows "mlfqs_update_priority t s = Inr (upd_thread t (priority_update (\<lambda>_.
    max PRI_MIN (min PRI_MAX (PRI_MAX - recent_cpu (threads s t) sdiv (4 * F) - 2 * nice (threads s t))))) s)"
  using assms mlfqs_update_priority_eq [of t s]
  by (simp add: mlfqs_priority_spec_def kernel_consts abs_le_iff)

theorem mlfqs_update_priority_correct_witness:
  "mlfqs_update_priority 2 (ref_state True INTR_OFF (\<lambda>_. ref_thread THREAD_READY 31) (\<lambda>_. [])) =
    Inr (upd_thread 2 (priority_update (\<lambda>_. 63))
      (ref_state True INTR_OFF (\<lambda>_. ref_thread THREAD_READY 31) (\<lambda>_. [])))"
  using mlfqs_update_priority_correct [of 2 "ref_state True INTR_OFF (\<lambda>_. ref_thread THREAD_READY 31) (\<lambda>_. [])"]
  by (simp add: is_i32_def kernel_consts)

section \<open>Load average and recent CPU\<close>

text \<open>
  The load average is a weighted mean of itself and the number of ready threads; both weights are
  rounded down, so a bound on the number of threads bounds the load average for ever.
\<close>

lemma load_avg_coefficients:
  "fp_div_int (int_to_fp 59) 60 = Inr 16110" "fp_div_int (int_to_fp 1) 60 = Inr 273"
  by (simp_all add: fp_div_int_def int_to_fp_def i32_id is_i32_def)

lemma mlfqs_update_load_avg_eq:
  assumes ready: "mlfqs_ready_threads E s = Inr r" and r: "0 \<le> r" "r \<le> N"
    and la: "0 \<le> load_avg s" "load_avg s \<le> N * F" and N: "N < 131072"
  shows "mlfqs_update_load_avg E s =
    Inr (s\<lparr>load_avg := (16110 * load_avg s) div F + 273 * r\<rparr>)"
proof -
  let ?a = "(16110 * load_avg s) div 16384"
  have a: "0 \<le> ?a" "?a \<le> 16110 * N"
    using la zdiv_mono1 [of "16110 * load_avg s" "16110 * N * 16384" 16384]
    by (simp_all add: pos_imp_zdiv_nonneg_iff)
  have N0: "0 \<le> N" using r by simp
  have l: "is_i32 (load_avg s)" using la N by (simp add: is_i32_def)
  have "fp_mul 16110 (load_avg s) = ?a"
    using l a N N0 la fp_mul_in_range [of 16110 "load_avg s"]
    by (simp add: sdiv_nonneg is_i32_def)
  moreover have "fp_mul_int 273 r = 273 * r"
    using r N by (simp add: fp_mul_int_def i32_id is_i32_def)
  moreover have "i32 (?a + 273 * r) = ?a + 273 * r"
    using a r N by (intro i32_id) (simp add: is_i32_def)
  ultimately show ?thesis
    by (simp add: mlfqs_update_load_avg_def ready load_avg_coefficients fp_add_def Let_def)
qed

text \<open>As long as no more than \<open>N\<close> threads are ever ready, the load average stays between 0 and \<open>N\<close>
  (in fixed point), for every \<open>N\<close> below 131072: the update neither panics nor overflows, and it changes
  nothing but the load average.\<close>

theorem mlfqs_load_avg_bounded:
  assumes "mlfqs_ready_threads E s = Inr r" and "0 \<le> r" and "r \<le> N" and "N < 131072"
    and "0 \<le> load_avg s" and "load_avg s \<le> N * F"
  shows "\<exists>la. mlfqs_update_load_avg E s = Inr (s\<lparr>load_avg := la\<rparr>) \<and> 0 \<le> la \<and> la \<le> N * F"
proof -
  have "(16110 * load_avg s) div 16384 \<le> 16110 * N"
    using assms(6) zdiv_mono1 [of "16110 * load_avg s" "16110 * N * 16384" 16384] by simp
  moreover have "0 \<le> (16110 * load_avg s) div 16384"
    using assms(5) by (simp add: pos_imp_zdiv_nonneg_iff)
  ultimately show ?thesis
    using mlfqs_update_load_avg_eq [OF assms(1-3,5,6,4)] assms(2,3)
    by (intro exI [of _ "(16110 * load_avg s) div F + 273 * r"]) simp
qed

text \<open>
  The factor that \<open>recent_cpu\<close> is multiplied with lies between 0 and 1 and is below 1, so each
  second the old value decays before \<open>nice\<close> is added.
\<close>

lemma recent_cpu_coef:
  assumes "0 \<le> la" and "la \<le> 1073733631"
  shows "\<exists>coef. fp_div (fp_mul_int la 2) (fp_add_int (fp_mul_int la 2) 1) = Inr coef \<and>
    coef = (2 * la * F) div (2 * la + F) \<and> 0 \<le> coef \<and> coef < F"
proof -
  have two: "fp_mul_int la 2 = 2 * la"
    using assms by (simp add: fp_mul_int_def i32_id is_i32_def mult.commute)
  have denom: "fp_add_int (2 * la) 1 = 2 * la + 16384"
    using assms by (simp add: fp_add_int_def i32_id is_i32_def)
  let ?c = "(2 * la * 16384) div (2 * la + 16384)"
  have c0: "0 \<le> ?c" using assms by (simp add: pos_imp_zdiv_nonneg_iff)
  have c1: "?c < 16384"
  proof (rule ccontr)
    assume "\<not> ?c < 16384"
    then have "(2 * la + 16384) * 16384 \<le> (2 * la + 16384) * ?c"
      using assms by (intro mult_left_mono) auto
    also have "\<dots> \<le> 2 * la * 16384"
      using div_sandwich [of "2 * la + 16384" "2 * la * 16384"] assms by simp
    finally show False by simp
  qed
  have "fp_div (2 * la) (2 * la + 16384) = Inr ?c"
    using assms c0 c1
    by (simp add: fp_div_def i64_id is_i64_def sdiv_nonneg i32_id is_i32_def)
  then show ?thesis using c0 c1 by (simp add: two denom)
qed

lemma scaled_shrinks:
  assumes "0 \<le> c" and "c < (16384 :: int)"
  shows "\<bar>(c * x) sdiv 16384\<bar> \<le> \<bar>x\<bar> \<and> (x \<noteq> 0 \<longrightarrow> \<bar>(c * x) sdiv 16384\<bar> < \<bar>x\<bar>)"
proof -
  have "16384 * \<bar>(c * x) sdiv 16384\<bar> \<le> c * \<bar>x\<bar>"
    using sdiv_shrinks [of 16384 "c * x"] assms by (simp add: abs_mult)
  also have "c * \<bar>x\<bar> \<le> 16383 * \<bar>x\<bar>"
    using assms by (intro mult_right_mono) auto
  finally show ?thesis by linarith
qed

text \<open>What is left of the old value, and the new value.\<close>

definition recent_cpu_part :: "int \<Rightarrow> thread \<Rightarrow> int" where
  "recent_cpu_part la th = ((2 * la * F) div (2 * la + F) * recent_cpu th) sdiv F"

definition recent_cpu_spec :: "int \<Rightarrow> thread \<Rightarrow> int" where
  "recent_cpu_spec la th = recent_cpu_part la th + nice th * F"

lemma mlfqs_update_recent_cpu_eq:
  assumes "Some t \<noteq> idle_thread s" and la: "0 \<le> load_avg s" "load_avg s \<le> 65535 * F"
    and old: "\<bar>recent_cpu (threads s t)\<bar> \<le> 2147155967"
    and n: "NICE_MIN \<le> nice (threads s t)" "nice (threads s t) \<le> NICE_MAX"
  shows "mlfqs_update_recent_cpu t s =
      Inr (upd_thread t (recent_cpu_update (\<lambda>_. recent_cpu_spec (load_avg s) (threads s t))) s) \<and>
    \<bar>recent_cpu_part (load_avg s) (threads s t)\<bar> \<le> \<bar>recent_cpu (threads s t)\<bar> \<and>
    (recent_cpu (threads s t) \<noteq> 0 \<longrightarrow> \<bar>recent_cpu_part (load_avg s) (threads s t)\<bar> < \<bar>recent_cpu (threads s t)\<bar>)"
proof -
  let ?r = "recent_cpu (threads s t)" and ?n = "nice (threads s t)" and ?p = "recent_cpu_part (load_avg s) (threads s t)"
  obtain c where c: "fp_div (fp_mul_int (load_avg s) 2) (fp_add_int (fp_mul_int (load_avg s) 2) 1) = Inr c"
    and ceq: "c = (2 * load_avg s * F) div (2 * load_avg s + F)" and c01: "0 \<le> c" "c < F"
    using recent_cpu_coef [of "load_avg s"] la by auto
  have peq: "?p = (c * ?r) sdiv 16384" by (simp add: recent_cpu_part_def ceq)
  have p: "\<bar>?p\<bar> \<le> \<bar>?r\<bar> \<and> (?r \<noteq> 0 \<longrightarrow> \<bar>?p\<bar> < \<bar>?r\<bar>)"
    using scaled_shrinks c01 by (simp add: peq)
  have "is_i32 c" "is_i32 ?r" "is_i32 ?p" using c01 old p by (auto simp: is_i32_def)
  then have "fp_mul c ?r = ?p"
    by (simp add: fp_mul_in_range peq)
  moreover have "fp_add_int ?p ?n = ?p + ?n * 16384"
  proof -
    have "\<bar>?p\<bar> \<le> 2147155967" using p old by linarith
    then show ?thesis
      using n by (simp add: fp_add_int_def i32_id is_i32_def kernel_consts abs_le_iff)
  qed
  ultimately show ?thesis
    using assms(1) c p by (simp add: mlfqs_update_recent_cpu_def Let_def recent_cpu_spec_def)
qed

text \<open>C36. The new \<open>recent_cpu\<close> of a thread is its old value times
  \<open>2 * load_avg / (2 * load_avg + 1)\<close> plus its \<open>nice\<close> value; the product is smaller in magnitude
  than the old value unless that was zero, so that \<open>recent_cpu\<close> decays.  There is no division by zero
  and no overflow while the load average is between 0 and 65535 and \<open>recent_cpu\<close> keeps a margin for
  adding \<open>nice\<close>.\<close>

theorem mlfqs_recent_cpu_decays:
  assumes "Some t \<noteq> idle_thread s"
    and "0 \<le> load_avg s" and "load_avg s \<le> 65535 * F"
    and old: "\<bar>recent_cpu (threads s t)\<bar> \<le> 2147155967"
    and n: "NICE_MIN \<le> nice (threads s t)" "nice (threads s t) \<le> NICE_MAX"
  shows "\<exists>part. mlfqs_update_recent_cpu t s =
      Inr (upd_thread t (recent_cpu_update (\<lambda>_. part + nice (threads s t) * F)) s) \<and>
    part = ((2 * load_avg s * F) div (2 * load_avg s + F) * recent_cpu (threads s t)) sdiv F \<and>
    \<bar>part\<bar> \<le> \<bar>recent_cpu (threads s t)\<bar> \<and>
    (recent_cpu (threads s t) \<noteq> 0 \<longrightarrow> \<bar>part\<bar> < \<bar>recent_cpu (threads s t)\<bar>)"
  using mlfqs_update_recent_cpu_eq [OF assms] by (auto simp: recent_cpu_spec_def recent_cpu_part_def)

section \<open>The queues\<close>

context list_lib
begin

lemma mlfqs_collect_correct:
  assumes "linked_once E (lists s)" and "elems E s (Mlfqs_list i) = es" and "elems E s Temp_list = ts"
  shows "\<exists>h. mlfqs_collect E i s = Inr (s\<lparr>lists := h\<rparr>) \<and> linked_once E h \<and>
    (\<forall>l. list_elems E l h = (if l = Mlfqs_list i then [] else if l = Temp_list then ts @ es else elems E s l))"
  using assms
proof (induction es arbitrary: s ts)
  case Nil
  then show ?case
    by (intro exI [of _ "lists s"]) (auto simp: mlfqs_collect_def res_while_unfold list_empty_iff)
next
  case (Cons e es)
  define h1 where "h1 = snd (list_pop_front E (Mlfqs_list i) (lists s))"
  define s1 where "s1 = s\<lparr>lists := list_push_back E Temp_list e h1\<rparr>"
  have h1: "list_elems E l h1 = (if l = Mlfqs_list i then es else elems E s l)" for l
    using elems_pop_front [OF Cons.prems(2)] by (simp add: h1_def)
  have u: "unlinked E e h1" and o1: "linked_once E h1"
    using Cons.prems(1,2) unlinked_pop_front linked_once_pop_front by (auto simp: h1_def)
  have e1: "elems E s1 l = (if l = Mlfqs_list i then es else if l = Temp_list then ts @ [e] else elems E s l)" for l
    using Cons.prems(3) by (simp add: s1_def elems_push_back [OF u] h1)
  have "linked_once E (lists s1)" using linked_once_push_back [OF o1 u] by (simp add: s1_def)
  then obtain h where "mlfqs_collect E i s1 = Inr (s1\<lparr>lists := h\<rparr>)" "linked_once E h"
      "\<forall>l. list_elems E l h = (if l = Mlfqs_list i then [] else if l = Temp_list then (ts @ [e]) @ es else elems E s1 l)"
    using Cons.IH [of s1 "ts @ [e]"] e1 by auto
  moreover have "mlfqs_collect E i s = mlfqs_collect E i s1"
    using Cons.prems(2) pop_front [OF Cons.prems(2)]
    by (subst mlfqs_collect_def, subst res_while_unfold)
      (simp add: mlfqs_collect_def list_empty_iff s1_def h1_def case_prod_beta)
  moreover have "s1\<lparr>lists := h\<rparr> = s\<lparr>lists := h\<rparr>" by (simp add: s1_def)
  ultimately show ?case by (intro exI [of _ h]) (simp add: e1)
qed

lemma mlfqs_collect_all_correct:
  assumes "linked_once E (lists s)" and "distinct is"
  shows "\<exists>h. res_fold (mlfqs_collect E) is s = Inr (s\<lparr>lists := h\<rparr>) \<and> linked_once E h \<and>
    (\<forall>l. list_elems E l h =
      (if l \<in> Mlfqs_list ` set is then []
       else if l = Temp_list then elems E s Temp_list @ concat (map (\<lambda>i. elems E s (Mlfqs_list i)) is)
       else elems E s l))"
  using assms
proof (induction "is" arbitrary: s)
  case Nil
  then show ?case by (intro exI [of _ "lists s"]) simp
next
  case (Cons i "is")
  obtain h1 where h1: "mlfqs_collect E i s = Inr (s\<lparr>lists := h1\<rparr>)" "linked_once E h1"
    and e1: "\<And>l. list_elems E l h1 = (if l = Mlfqs_list i then []
      else if l = Temp_list then elems E s Temp_list @ elems E s (Mlfqs_list i) else elems E s l)"
    using mlfqs_collect_correct [OF Cons.prems(1) refl refl] by blast
  obtain h where h: "res_fold (mlfqs_collect E) is (s\<lparr>lists := h1\<rparr>) = Inr (s\<lparr>lists := h\<rparr>)" "linked_once E h"
    and e: "\<And>l. list_elems E l h =
      (if l \<in> Mlfqs_list ` set is then []
       else if l = Temp_list then list_elems E Temp_list h1 @ concat (map (\<lambda>i. list_elems E (Mlfqs_list i) h1) is)
       else list_elems E l h1)"
    using Cons.IH [of "s\<lparr>lists := h1\<rparr>"] h1(2) Cons.prems(2) by auto
  have "map (\<lambda>j. list_elems E (Mlfqs_list j) h1) is = map (\<lambda>j. elems E s (Mlfqs_list j)) is"
    using Cons.prems(2) by (auto simp: e1)
  note e = e [unfolded this]
  show ?case
    using h h1(1) by (intro exI [of _ h]) (auto simp: e e1)
qed

lemma mlfqs_reinsert_correct:
  assumes "linked_once E (lists s)" and "elems E s Temp_list = es"
    and "\<forall>e \<in> set es. member_of e = Elem \<and> PRI_MIN \<le> priority (threads s (list_entry e)) \<and>
      priority (threads s (list_entry e)) \<le> PRI_MAX"
  shows "\<exists>h. mlfqs_reinsert E s = Inr (s\<lparr>lists := h\<rparr>) \<and> linked_once E h \<and>
    list_elems E Temp_list h = [] \<and>
    (\<forall>i. list_elems E (Mlfqs_list i) h = elems E s (Mlfqs_list i) @
      filter (\<lambda>e. priority (threads s (list_entry e)) = i) es) \<and>
    (\<forall>l. l \<noteq> Temp_list \<longrightarrow> l \<notin> range Mlfqs_list \<longrightarrow> list_elems E l h = elems E s l)"
  using assms
proof (induction es arbitrary: s)
  case Nil
  then show ?case
    by (intro exI [of _ "lists s"]) (auto simp: mlfqs_reinsert_def res_while_unfold list_empty_iff)
next
  case (Cons e es)
  define h1 where "h1 = snd (list_pop_front E Temp_list (lists s))"
  define p where "p = priority (threads s (list_entry e))"
  define s1 where "s1 = s\<lparr>lists := list_push_back E (Mlfqs_list p) e h1\<rparr>"
  have h1: "list_elems E l h1 = (if l = Temp_list then es else elems E s l)" for l
    using elems_pop_front [OF Cons.prems(2)] by (simp add: h1_def)
  have u: "unlinked E e h1" and o1: "linked_once E h1"
    using Cons.prems(1,2) unlinked_pop_front linked_once_pop_front by (auto simp: h1_def)
  have e1: "elems E s1 l = (if l = Temp_list then es else
      if l = Mlfqs_list p then elems E s l @ [e] else elems E s l)" for l
    by (simp add: s1_def elems_push_back [OF u] h1)
  have th: "threads s1 = threads s" by (simp add: s1_def)
  have "linked_once E (lists s1)" using linked_once_push_back [OF o1 u] by (simp add: s1_def)
  then obtain h where h: "mlfqs_reinsert E s1 = Inr (s1\<lparr>lists := h\<rparr>)" "linked_once E h"
      "list_elems E Temp_list h = []"
      "\<And>i. list_elems E (Mlfqs_list i) h = elems E s1 (Mlfqs_list i) @
        filter (\<lambda>e. priority (threads s (list_entry e)) = i) es"
      "\<And>l. l \<noteq> Temp_list \<Longrightarrow> l \<notin> range Mlfqs_list \<Longrightarrow> list_elems E l h = elems E s1 l"
    using Cons.IH [of s1] e1 Cons.prems(3) unfolding th by auto
  have "elem_of (list_entry e) = e" using Cons.prems(3) by (cases e) simp
  then have "mlfqs_reinsert E s = mlfqs_reinsert E s1"
    using Cons.prems(2,3) pop_front [OF Cons.prems(2)]
    by (subst mlfqs_reinsert_def, subst res_while_unfold)
      (simp add: mlfqs_reinsert_def list_empty_iff s1_def h1_def case_prod_beta mlfqs_insert_def
        p_def upd_lists_def)
  moreover have "s1\<lparr>lists := h\<rparr> = s\<lparr>lists := h\<rparr>" by (simp add: s1_def)
  ultimately show ?case using h
    by (intro exI [of _ h]) (auto simp: e1 p_def)
qed

lemma mlfqs_scan_empty:
  "(\<forall>i \<in> set is. elems E s (Mlfqs_list i) = []) \<Longrightarrow> mlfqs_scan E is s = (idle_thread s, s)"
  by (induction "is") (simp_all add: list_empty_iff)

lemma mlfqs_scan_first:
  assumes "\<forall>i \<in> set is1. elems E s (Mlfqs_list i) = []" and "elems E s (Mlfqs_list p) = e # es"
  shows "mlfqs_scan E (is1 @ p # is2) s =
    (Some (list_entry e), s\<lparr>lists := snd (list_pop_front E (Mlfqs_list p) (lists s))\<rparr>)"
  using assms by (induction is1) (simp_all add: list_empty_iff case_prod_beta pop_front)

end

text \<open>The threads in the queues, from the lowest priority to the highest.\<close>

definition mlfqs_queued :: "('l, 'i, 'p) externs \<Rightarrow> ('l, 'i, 'p) kstate \<Rightarrow> list_elem list" where
  "mlfqs_queued E s = concat (map (\<lambda>i. elems E s (Mlfqs_list i)) [PRI_MIN..PRI_MAX])"

text \<open>The invariant of the queues: each holds the threads of its own priority.\<close>

definition mlfqs_queues_ok :: "('l, 'i, 'p) externs \<Rightarrow> ('l, 'i, 'p) kstate \<Rightarrow> bool" where
  "mlfqs_queues_ok E s \<longleftrightarrow> (\<forall>i \<in> {PRI_MIN..PRI_MAX}. \<forall>e \<in> set (elems E s (Mlfqs_list i)).
    member_of e = Elem \<and> priority (threads s (list_entry e)) = i)"

lemma set_mlfqs_queued:
  "e \<in> set (mlfqs_queued E s) \<longleftrightarrow> (\<exists>i \<in> {PRI_MIN..PRI_MAX}. e \<in> set (elems E s (Mlfqs_list i)))"
  by (simp add: mlfqs_queued_def)

lemma split_priorities: "p \<in> {PRI_MIN..PRI_MAX} \<Longrightarrow>
    rev [PRI_MIN..PRI_MAX] = rev [p + 1..PRI_MAX] @ p # rev [PRI_MIN..p - 1]"
  by (simp add: upto_split2 [of PRI_MIN p PRI_MAX] upto_rec2 [of PRI_MIN p])

text \<open>Distributing a list over the queues by a key in their range keeps every element.\<close>

lemma mset_distribute:
  assumes "distinct is" and "\<forall>x \<in> set xs. key x \<in> set is"
  shows "mset (concat (map (\<lambda>i. filter (\<lambda>x. key x = i) xs) is)) = mset xs"
  using assms
proof (induction "is" arbitrary: xs)
  case (Cons i "is")
  let ?ys = "filter (\<lambda>x. key x \<noteq> i) xs"
  have "filter (\<lambda>x. key x = j) ?ys = filter (\<lambda>x. key x = j) xs" if "j \<in> set is" for j
    using that Cons.prems(1) by (auto simp: filter_filter intro: filter_cong)
  then have "map (\<lambda>j. filter (\<lambda>x. key x = j) xs) is = map (\<lambda>j. filter (\<lambda>x. key x = j) ?ys) is"
    by simp
  moreover have "mset (concat (map (\<lambda>j. filter (\<lambda>x. key x = j) ?ys) is)) = mset ?ys"
    using Cons.prems by (intro Cons.IH) auto
  ultimately show ?case using multiset_partition [of "mset xs" "\<lambda>x. key x = i"]
    by (simp only: list.map concat.simps mset_append mset_filter)
qed simp

lemma mlfqs_queued_distribute:
  assumes "\<forall>e \<in> set (mlfqs_queued E s). member_of e = Elem \<and>
      PRI_MIN \<le> priority (threads s (list_entry e)) \<and> priority (threads s (list_entry e)) \<le> PRI_MAX"
    and "\<forall>i \<in> {PRI_MIN..PRI_MAX}. list_elems E (Mlfqs_list i) h =
      filter (\<lambda>e. priority (threads s (list_entry e)) = i) (mlfqs_queued E s)"
  shows "mset (mlfqs_queued E (s\<lparr>lists := h\<rparr>)) = mset (mlfqs_queued E s)"
proof -
  have "mlfqs_queued E (s\<lparr>lists := h\<rparr>) =
      concat (map (\<lambda>i. filter (\<lambda>e. priority (threads s (list_entry e)) = i) (mlfqs_queued E s)) [PRI_MIN..PRI_MAX])"
    unfolding mlfqs_queued_def [of E "s\<lparr>lists := h\<rparr>"]
    using assms(2) by (intro arg_cong [where f = concat] map_cong) simp_all
  then show ?thesis
    using assms(1) by (simp only:) (intro mset_distribute; auto)
qed

lemma highest_index:
  assumes "P i" and "i \<in> {m..n :: int}"
  shows "\<exists>p \<in> {m..n}. P p \<and> (\<forall>j \<in> {p<..n}. \<not> P j)"
proof -
  define A where "A = {i \<in> {m..n}. P i}"
  have "finite A" unfolding A_def by (rule finite_subset [of _ "{m..n}"]) auto
  moreover have "i \<in> A" using assms by (simp add: A_def)
  ultimately have "Max A \<in> A" and "\<And>j. j \<in> A \<Longrightarrow> j \<le> Max A"
    by (blast intro: Max_in, simp)
  then show ?thesis by (intro bexI [of _ "Max A"]) (fastforce simp: A_def)+
qed

context list_lib
begin

lemma mlfqs_reorganize_lists:
  assumes "linked_once E (lists s)"
    and "\<forall>e \<in> set (mlfqs_queued E s). member_of e = Elem \<and>
      PRI_MIN \<le> priority (threads s (list_entry e)) \<and> priority (threads s (list_entry e)) \<le> PRI_MAX"
  shows "\<exists>h. mlfqs_reorganize_queues E s = Inr (s\<lparr>lists := h\<rparr>) \<and> linked_once E h \<and>
    list_elems E Temp_list h = [] \<and>
    (\<forall>i \<in> {PRI_MIN..PRI_MAX}. list_elems E (Mlfqs_list i) h =
      filter (\<lambda>e. priority (threads s (list_entry e)) = i) (mlfqs_queued E s)) \<and>
    (\<forall>l. l \<noteq> Temp_list \<longrightarrow> l \<notin> range Mlfqs_list \<longrightarrow> list_elems E l h = elems E s l) \<and>
    (\<forall>e. unlinked E e (lists s) \<longrightarrow> unlinked E e h)"
proof -
  define s0 where "s0 = upd_lists (list_init E Temp_list) s"
  have s0: "linked_once E (lists s0)" "\<And>l. elems E s0 l = (if l = Temp_list then [] else elems E s l)"
    using assms(1) by (simp_all add: s0_def linked_once_init elems_init)
  obtain h1 where h1: "res_fold (mlfqs_collect E) [PRI_MIN..PRI_MAX] s0 = Inr (s0\<lparr>lists := h1\<rparr>)"
      "linked_once E h1"
    and e1: "\<And>l. list_elems E l h1 =
      (if l \<in> Mlfqs_list ` {PRI_MIN..PRI_MAX} then []
       else if l = Temp_list then mlfqs_queued E s else elems E s l)"
    using mlfqs_collect_all_correct [OF s0(1), of "[PRI_MIN..PRI_MAX]"] s0(2)
    by (auto simp: mlfqs_queued_def)
  have th: "threads (s0\<lparr>lists := h1\<rparr>) = threads s" by (simp add: s0_def)
  have t1: "elems E (s0\<lparr>lists := h1\<rparr>) Temp_list = mlfqs_queued E s" by (auto simp: e1)
  obtain h where h: "mlfqs_reinsert E (s0\<lparr>lists := h1\<rparr>) = Inr (s0\<lparr>lists := h\<rparr>)" "linked_once E h"
      "list_elems E Temp_list h = []"
      "\<And>i. list_elems E (Mlfqs_list i) h = list_elems E (Mlfqs_list i) h1 @
        filter (\<lambda>e. priority (threads s (list_entry e)) = i) (mlfqs_queued E s)"
      "\<And>l. l \<noteq> Temp_list \<Longrightarrow> l \<notin> range Mlfqs_list \<Longrightarrow> list_elems E l h = list_elems E l h1"
    using mlfqs_reinsert_correct [OF _ t1] assms(2) h1(2) unfolding th by auto
  have "s0\<lparr>lists := h\<rparr> = s\<lparr>lists := h\<rparr>" by (simp add: s0_def upd_lists_def)
  then have "mlfqs_reorganize_queues E s = Inr (s\<lparr>lists := h\<rparr>)"
    using h1(1) h(1) by (simp add: mlfqs_reorganize_queues_def flip: s0_def)
  moreover have "unlinked E e h" if un: "unlinked E e (lists s)" for e
    unfolding unlinked_def
  proof
    fix l
    have free: "e \<notin> set (list_elems E k h1)" if "k \<noteq> Temp_list" for k using un that by (auto simp: e1 unlinked_def)
    have "e \<notin> set (mlfqs_queued E s)" using un by (auto simp: mlfqs_queued_def unlinked_def)
    then have "e \<notin> set (list_elems E (Mlfqs_list i) h)" for i using free [of "Mlfqs_list i"] by (simp add: h(4))
    moreover have "e \<notin> set (list_elems E l h)" if "l \<noteq> Temp_list" "l \<notin> range Mlfqs_list"
      using h(5) [OF that] free [OF that(1)] by simp
    ultimately show "e \<notin> set (list_elems E l h)" using h(3) by (cases "l = Temp_list") auto
  qed
  ultimately show ?thesis using h by (intro exI [of _ h]) (auto simp: e1)
qed

lemma mlfqs_next_idle: "mlfqs_queued E s = [] \<Longrightarrow> mlfqs_next_thread_to_run E s = (idle_thread s, s)"
  unfolding mlfqs_next_thread_to_run_def by (rule mlfqs_scan_empty) (simp add: mlfqs_queued_def)

lemma mlfqs_next_highest:
  assumes "mlfqs_queued E s \<noteq> []"
  shows "\<exists>p e es. p \<in> {PRI_MIN..PRI_MAX} \<and> elems E s (Mlfqs_list p) = e # es \<and>
    (\<forall>i \<in> {p<..PRI_MAX}. elems E s (Mlfqs_list i) = []) \<and>
    mlfqs_next_thread_to_run E s =
      (Some (list_entry e), s\<lparr>lists := snd (list_pop_front E (Mlfqs_list p) (lists s))\<rparr>)"
proof -
  obtain i where "elems E s (Mlfqs_list i) \<noteq> []" "i \<in> {PRI_MIN..PRI_MAX}"
    using assms by (auto simp: mlfqs_queued_def)
  then obtain p where p: "p \<in> {PRI_MIN..PRI_MAX}" "elems E s (Mlfqs_list p) \<noteq> []"
    and up: "\<forall>i \<in> {p<..PRI_MAX}. elems E s (Mlfqs_list i) = []"
    using highest_index [of "\<lambda>i. elems E s (Mlfqs_list i) \<noteq> []" i] by blast
  then obtain e es where e: "elems E s (Mlfqs_list p) = e # es" by (auto simp: neq_Nil_conv)
  have "\<forall>i \<in> set (rev [p + 1..PRI_MAX]). elems E s (Mlfqs_list i) = []" using up by auto
  then have "mlfqs_next_thread_to_run E s =
      (Some (list_entry e), s\<lparr>lists := snd (list_pop_front E (Mlfqs_list p) (lists s))\<rparr>)"
    unfolding mlfqs_next_thread_to_run_def split_priorities [OF p(1)]
    by (rule mlfqs_scan_first [OF _ e])
  with p(1) e up show ?thesis by blast
qed

end

text \<open>C37. Redistributing the run queues after the priorities have changed ends, loses and adds no
  thread, puts every thread into the queue of its new priority, keeps the order of the threads that
  meet in one queue, and touches no other list.  Threads that were in a lower queue come before
  threads that were in a higher one.\<close>

theorem mlfqs_reorganize_correct:
  assumes "list_lib E" and "linked_once E (lists s)"
    and "\<forall>e \<in> set (mlfqs_queued E s). member_of e = Elem \<and>
      PRI_MIN \<le> priority (threads s (list_entry e)) \<and> priority (threads s (list_entry e)) \<le> PRI_MAX"
  shows "\<exists>h. mlfqs_reorganize_queues E s = Inr (s\<lparr>lists := h\<rparr>) \<and> linked_once E h \<and>
    mset (mlfqs_queued E (s\<lparr>lists := h\<rparr>)) = mset (mlfqs_queued E s) \<and>
    mlfqs_queues_ok E (s\<lparr>lists := h\<rparr>) \<and>
    (\<forall>i \<in> {PRI_MIN..PRI_MAX}. list_elems E (Mlfqs_list i) h =
      filter (\<lambda>e. priority (threads s (list_entry e)) = i) (mlfqs_queued E s)) \<and>
    (\<forall>l. l \<noteq> Temp_list \<longrightarrow> l \<notin> range Mlfqs_list \<longrightarrow> list_elems E l h = elems E s l)"
proof -
  obtain h where h: "mlfqs_reorganize_queues E s = Inr (s\<lparr>lists := h\<rparr>)" "linked_once E h"
    and q: "\<forall>i \<in> {PRI_MIN..PRI_MAX}. list_elems E (Mlfqs_list i) h =
      filter (\<lambda>e. priority (threads s (list_entry e)) = i) (mlfqs_queued E s)"
    and o: "\<forall>l. l \<noteq> Temp_list \<longrightarrow> l \<notin> range Mlfqs_list \<longrightarrow> list_elems E l h = elems E s l"
    using list_lib.mlfqs_reorganize_lists [OF assms] by (elim exE conjE) (rule that)
  have "mset (mlfqs_queued E (s\<lparr>lists := h\<rparr>)) = mset (mlfqs_queued E s)"
    using assms(3) q by (simp add: mlfqs_queued_distribute)
  moreover have "mlfqs_queues_ok E (s\<lparr>lists := h\<rparr>)"
    using assms(3) q by (auto simp: mlfqs_queues_ok_def)
  ultimately show ?thesis using h q o by blast
qed

text \<open>The advanced scheduler takes the thread that waits longest in the highest queue that is not
  empty: no queued thread has a higher priority, the thread leaves its queue, and nothing else
  changes.  With every queue empty the idle thread is next and nothing changes.\<close>

theorem mlfqs_next_is_highest:
  assumes "list_lib E" and "mlfqs_queues_ok E s"
  shows "(mlfqs_queued E s = [] \<longrightarrow> mlfqs_next_thread_to_run E s = (idle_thread s, s)) \<and>
    (mlfqs_queued E s \<noteq> [] \<longrightarrow> (\<exists>t es h. mlfqs_next_thread_to_run E s = (Some t, s\<lparr>lists := h\<rparr>) \<and>
      elems E s (Mlfqs_list (priority (threads s t))) = elem_of t # es \<and>
      (\<forall>e \<in> set (mlfqs_queued E s). priority (threads s (list_entry e)) \<le> priority (threads s t)) \<and>
      (\<forall>l. list_elems E l h =
        (if l = Mlfqs_list (priority (threads s t)) then es else elems E s l))))"
proof (intro conjI impI)
  assume "mlfqs_queued E s = []"
  then show "mlfqs_next_thread_to_run E s = (idle_thread s, s)"
    by (rule list_lib.mlfqs_next_idle [OF assms(1)])
next
  assume "mlfqs_queued E s \<noteq> []"
  then obtain p e es where p: "p \<in> {PRI_MIN..PRI_MAX}" and e: "elems E s (Mlfqs_list p) = e # es"
    and up: "\<forall>i \<in> {p<..PRI_MAX}. elems E s (Mlfqs_list i) = []"
    and next_t: "mlfqs_next_thread_to_run E s =
      (Some (list_entry e), s\<lparr>lists := snd (list_pop_front E (Mlfqs_list p) (lists s))\<rparr>)"
    using list_lib.mlfqs_next_highest [OF assms(1)] by blast
  have m: "member_of e = Elem" and pe: "priority (threads s (list_entry e)) = p"
    using assms(2) p e by (auto simp: mlfqs_queues_ok_def)
  have "elem_of (list_entry e) = e" using m by (cases e) simp
  moreover have "\<forall>x \<in> set (mlfqs_queued E s). priority (threads s (list_entry x)) \<le> p"
  proof
    fix x assume "x \<in> set (mlfqs_queued E s)"
    then obtain i where i: "i \<in> {PRI_MIN..PRI_MAX}" "x \<in> set (elems E s (Mlfqs_list i))"
      by (auto simp: set_mlfqs_queued)
    with assms(2) have "priority (threads s (list_entry x)) = i" by (auto simp: mlfqs_queues_ok_def)
    moreover have "\<not> p < i" using i up by auto
    ultimately show "priority (threads s (list_entry x)) \<le> p" by simp
  qed
  ultimately show "\<exists>t es h. mlfqs_next_thread_to_run E s = (Some t, s\<lparr>lists := h\<rparr>) \<and>
      elems E s (Mlfqs_list (priority (threads s t))) = elem_of t # es \<and>
      (\<forall>e \<in> set (mlfqs_queued E s). priority (threads s (list_entry e)) \<le> priority (threads s t)) \<and>
      (\<forall>l. list_elems E l h = (if l = Mlfqs_list (priority (threads s t)) then es else elems E s l))"
    using next_t e pe list_lib.elems_pop_front [OF assms(1) e] by (intro exI) auto
qed

section \<open>Counting ready threads\<close>

lemma fold_count:
  assumes "n + sum_list (map g is) < 2147483648" and "\<forall>i. 0 \<le> g i" and "0 \<le> n"
  shows "fold (\<lambda>i c. i32 (c + i32 (g i))) is n = n + sum_list (map g is)"
  using assms
proof (induction "is" arbitrary: n)
  case (Cons i "is")
  have "0 \<le> sum_list (map g is)" using assms(2) by (intro sum_list_nonneg) auto
  moreover have "0 \<le> g i" using assms(2) by simp
  ultimately have "i32 (g i) = g i" "i32 (n + g i) = n + g i"
    using Cons.prems(1,3) by (simp_all add: i32_id is_i32_def)
  then show ?case
    using Cons.IH [of "n + g i"] Cons.prems \<open>0 \<le> g i\<close> by (simp add: add.assoc)
qed simp

text \<open>The number of ready threads, from which the load average is computed, is the number of
  threads in the run queues plus the running thread unless that is the idle thread.\<close>

theorem mlfqs_ready_threads_counts:
  assumes "list_lib E" and "on_cpu s" and "length (mlfqs_queued E s) < 2147483647"
  shows "mlfqs_ready_threads E s = Inr (int (length (mlfqs_queued E s)) +
    (if Some (running s) = idle_thread s then 0 else 1))"
proof -
  let ?g = "\<lambda>i. int (length (elems E s (Mlfqs_list i)))"
  have n: "int (length (mlfqs_queued E s)) = sum_list (map ?g [PRI_MIN..PRI_MAX])"
    by (simp add: mlfqs_queued_def length_concat o_def flip: sum_list_of_nat)
  have "fold (\<lambda>i c. i32 (c + i32 (?g i))) [PRI_MIN..PRI_MAX] 0 = 0 + sum_list (map ?g [PRI_MIN..PRI_MAX])"
    using assms(3) n by (intro fold_count) linarith+
  moreover have "i32 (int (length (mlfqs_queued E s)) + 1) = int (length (mlfqs_queued E s)) + 1"
    using assms(3) by (intro i32_id) (simp add: is_i32_def)
  ultimately show ?thesis
    using assms(2) by (simp add: mlfqs_ready_threads_def list_lib.size_eq [OF assms(1)] n)
qed

section \<open>Recalculating every priority\<close>

lemma mlfqs_priority_spec_update [simp]:
  "mlfqs_priority_spec (priority_update f th) = mlfqs_priority_spec th"
  by (simp add: mlfqs_priority_spec_def)

lemma mlfqs_priority_spec_range: "PRI_MIN \<le> mlfqs_priority_spec th \<and> mlfqs_priority_spec th \<le> PRI_MAX"
  by (simp add: mlfqs_priority_spec_def kernel_consts)

definition mlfqs_inputs_ok :: "thread \<Rightarrow> bool" where
  "mlfqs_inputs_ok th \<longleftrightarrow> is_i32 (recent_cpu th) \<and> NICE_MIN \<le> nice th \<and> nice th \<le> NICE_MAX"

lemma mlfqs_update_priorities:
  assumes "\<forall>e \<in> set es. mlfqs_inputs_ok (threads s (list_entry e))"
  shows "\<exists>ths. res_fold (\<lambda>e. mlfqs_update_priority (list_entry e)) es s = Inr (s\<lparr>threads := ths\<rparr>) \<and>
    (\<forall>t. ths t = (if t \<in> list_entry ` set es \<and> Some t \<noteq> idle_thread s
      then (threads s t)\<lparr>priority := mlfqs_priority_spec (threads s t)\<rparr> else threads s t))"
  using assms
proof (induction es arbitrary: s)
  case Nil
  then show ?case by (intro exI [of _ "threads s"]) simp
next
  case (Cons e es)
  define t where "t = list_entry e"
  define s1 where "s1 = (if Some t = idle_thread s then s
    else upd_thread t (priority_update (\<lambda>_. mlfqs_priority_spec (threads s t))) s)"
  have first: "mlfqs_update_priority t s = Inr s1"
    using Cons.prems mlfqs_update_priority_eq [of t s]
    by (auto simp: s1_def t_def mlfqs_inputs_ok_def kernel_consts abs_le_iff mlfqs_update_priority_def)
  have "\<forall>e \<in> set es. mlfqs_inputs_ok (threads s1 (list_entry e))"
    using Cons.prems by (auto simp: s1_def mlfqs_inputs_ok_def)
  then obtain ths where "res_fold (\<lambda>e. mlfqs_update_priority (list_entry e)) es s1 = Inr (s1\<lparr>threads := ths\<rparr>)"
    and ths: "\<And>t. ths t = (if t \<in> list_entry ` set es \<and> Some t \<noteq> idle_thread s1
      then (threads s1 t)\<lparr>priority := mlfqs_priority_spec (threads s1 t)\<rparr> else threads s1 t)"
    using Cons.IH by blast
  moreover have "s1\<lparr>threads := ths\<rparr> = s\<lparr>threads := ths\<rparr>" by (simp add: s1_def upd_thread_def)
  ultimately have "res_fold (\<lambda>e. mlfqs_update_priority (list_entry e)) (e # es) s = Inr (s\<lparr>threads := ths\<rparr>)"
    using first by (simp add: t_def)
  moreover have "ths u = (if u \<in> list_entry ` set (e # es) \<and> Some u \<noteq> idle_thread s
      then (threads s u)\<lparr>priority := mlfqs_priority_spec (threads s u)\<rparr> else threads s u)" for u
    by (subst ths) (auto simp: s1_def t_def)
  ultimately show ?case by blast
qed

context list_lib
begin

lemma mlfqs_update_all_runs:
  assumes off: "level E s = INTR_OFF" and once: "linked_once E (lists s)"
    and ok: "\<forall>e \<in> set (elems E s All_list). mlfqs_inputs_ok (threads s (list_entry e))"
    and q: "\<forall>e \<in> set (mlfqs_queued E s). member_of e = Elem \<and> Some (list_entry e) \<noteq> idle_thread s \<and>
      list_entry e \<in> list_entry ` set (elems E s All_list)"
  shows "\<exists>ths h. mlfqs_update_priority_all E s = Inr (s\<lparr>threads := ths, lists := h\<rparr>) \<and>
    (\<forall>t. ths t = (if t \<in> list_entry ` set (elems E s All_list) \<and> Some t \<noteq> idle_thread s
      then (threads s t)\<lparr>priority := mlfqs_priority_spec (threads s t)\<rparr> else threads s t)) \<and>
    linked_once E h \<and> mlfqs_queues_ok E (s\<lparr>threads := ths, lists := h\<rparr>) \<and>
    mset (mlfqs_queued E (s\<lparr>threads := ths, lists := h\<rparr>)) = mset (mlfqs_queued E s) \<and>
    (\<forall>l. l \<noteq> Temp_list \<longrightarrow> l \<notin> range Mlfqs_list \<longrightarrow> list_elems E l h = elems E s l) \<and>
    (\<forall>e. unlinked E e (lists s) \<longrightarrow> unlinked E e h)"
proof -
  obtain ths where step: "res_fold (\<lambda>e. mlfqs_update_priority (list_entry e)) (elems E s All_list) s =
      Inr (s\<lparr>threads := ths\<rparr>)"
    and ths: "\<And>t. ths t = (if t \<in> list_entry ` set (elems E s All_list) \<and> Some t \<noteq> idle_thread s
      then (threads s t)\<lparr>priority := mlfqs_priority_spec (threads s t)\<rparr> else threads s t)"
    using mlfqs_update_priorities [OF ok] by blast
  let ?s1 = "s\<lparr>threads := ths\<rparr>"
  have q1: "mlfqs_queued E ?s1 = mlfqs_queued E s" by (simp add: mlfqs_queued_def)
  have ready: "\<forall>e \<in> set (mlfqs_queued E ?s1). member_of e = Elem \<and>
      PRI_MIN \<le> priority (threads ?s1 (list_entry e)) \<and> priority (threads ?s1 (list_entry e)) \<le> PRI_MAX"
    using q by (auto simp: q1 ths mlfqs_priority_spec_range)
  have "linked_once E (lists ?s1)" using once by simp
  from mlfqs_reorganize_lists [OF this ready] obtain h where
    h: "mlfqs_reorganize_queues E ?s1 = Inr (?s1\<lparr>lists := h\<rparr>)" "linked_once E h"
    and hq: "\<forall>i \<in> {PRI_MIN..PRI_MAX}. list_elems E (Mlfqs_list i) h =
      filter (\<lambda>e. priority (threads ?s1 (list_entry e)) = i) (mlfqs_queued E ?s1)"
    and frame: "\<forall>l. l \<noteq> Temp_list \<longrightarrow> l \<notin> range Mlfqs_list \<longrightarrow> list_elems E l h = elems E s l"
      "\<forall>e. unlinked E e (lists s) \<longrightarrow> unlinked E e h"
    by (elim exE conjE) (rule that; simp)
  have "mlfqs_update_priority_all E s = Inr (s\<lparr>threads := ths, lists := h\<rparr>)"
    using off step h(1) by (simp add: mlfqs_update_priority_all_def thread_foreach_def)
  moreover have "mset (mlfqs_queued E (?s1\<lparr>lists := h\<rparr>)) = mset (mlfqs_queued E s)"
    using mlfqs_queued_distribute [OF ready hq] q1 by simp
  moreover have "mlfqs_queues_ok E (?s1\<lparr>lists := h\<rparr>)"
    using ready hq by (auto simp: mlfqs_queues_ok_def)
  ultimately show ?thesis using ths h(2) frame by (intro exI [of _ ths] exI [of _ h]) simp
qed

end

text \<open>C38. The recalculation that runs every fourth tick gives every thread on the list of all threads,
  except the idle thread, the priority of the formula, and leaves the queues in order again: every queue
  holds the threads of its priority, and exactly the threads that were queued before are queued after.
  Nothing else of a thread changes.\<close>

theorem mlfqs_update_priority_all_correct:
  assumes "list_lib E" and "level E s = INTR_OFF" and "linked_once E (lists s)"
    and ok: "\<forall>e \<in> set (elems E s All_list). mlfqs_inputs_ok (threads s (list_entry e))"
    and q: "\<forall>e \<in> set (mlfqs_queued E s). member_of e = Elem \<and> Some (list_entry e) \<noteq> idle_thread s \<and>
      list_entry e \<in> list_entry ` set (elems E s All_list)"
  shows "\<exists>ths h. mlfqs_update_priority_all E s = Inr (s\<lparr>threads := ths, lists := h\<rparr>) \<and>
    (\<forall>t. ths t = (if t \<in> list_entry ` set (elems E s All_list) \<and> Some t \<noteq> idle_thread s
      then (threads s t)\<lparr>priority := mlfqs_priority_spec (threads s t)\<rparr> else threads s t)) \<and>
    linked_once E h \<and> mlfqs_queues_ok E (s\<lparr>threads := ths, lists := h\<rparr>) \<and>
    mset (mlfqs_queued E (s\<lparr>threads := ths, lists := h\<rparr>)) = mset (mlfqs_queued E s)"
  using list_lib.mlfqs_update_all_runs [OF assms] by blast

section \<open>Examples\<close>

text \<open>
  Thread 1 runs; threads 2 and 3 are in the queue of priority 31, where thread 2, whose priority
  has become 40, no longer belongs.
\<close>

definition mlfqs_example :: ref_kstate where
  "mlfqs_example = ref_state True INTR_OFF
    (ref_threads ((\<lambda>_. (THREAD_READY, 31))(1 := (THREAD_RUNNING, 31), 2 := (THREAD_READY, 40))))
    ((\<lambda>_. [])(Mlfqs_list 31 := [elem_of 2, elem_of 3],
      All_list := [allelem_of 1, allelem_of 2, allelem_of 3]))"

lemma priorities_unfold: "[0..63 :: int] = 0 # 1 # [2..63]"
  by (simp add: upto.simps [of 0] upto.simps [of 1])

lemma mlfqs_example_queued: "mlfqs_queued ref_externs mlfqs_example = [elem_of 2, elem_of 3]"
  by (simp add: mlfqs_queued_def mlfqs_example_def kernel_consts priorities_unfold)

lemma mlfqs_example_linked: "linked_once ref_externs (lists mlfqs_example)"
  by (auto simp: linked_once_def mlfqs_example_def)

lemma mlfqs_example_on_cpu: "on_cpu mlfqs_example"
  by (simp add: on_cpu_def mlfqs_example_def ref_threads_def)

theorem mlfqs_reorganize_correct_witness:
  "\<exists>h. mlfqs_reorganize_queues ref_externs mlfqs_example = Inr (mlfqs_example\<lparr>lists := h\<rparr>) \<and>
    h (Mlfqs_list 31) = [elem_of 3] \<and> h (Mlfqs_list 40) = [elem_of 2]"
proof -
  have "\<forall>e \<in> set (mlfqs_queued ref_externs mlfqs_example). member_of e = Elem \<and>
      PRI_MIN \<le> priority (threads mlfqs_example (list_entry e)) \<and>
      priority (threads mlfqs_example (list_entry e)) \<le> PRI_MAX"
    by (simp add: mlfqs_example_queued) (simp add: mlfqs_example_def ref_threads_def kernel_consts)
  from mlfqs_reorganize_correct [OF ref.list_lib_axioms mlfqs_example_linked this]
  obtain h where "mlfqs_reorganize_queues ref_externs mlfqs_example = Inr (mlfqs_example\<lparr>lists := h\<rparr>)"
    and "\<forall>i \<in> {PRI_MIN..PRI_MAX}. list_elems ref_externs (Mlfqs_list i) h =
      filter (\<lambda>e. priority (threads mlfqs_example (list_entry e)) = i) [elem_of 2, elem_of 3]"
    unfolding mlfqs_example_queued by auto
  then show ?thesis
    by (intro exI [of _ h]) (simp add: kernel_consts, simp add: mlfqs_example_def ref_threads_def)
qed

theorem mlfqs_next_is_highest_witness:
  "mlfqs_queues_ok ref_externs (mlfqs_example\<lparr>threads := \<lambda>_. ref_thread THREAD_READY 31\<rparr>) \<and>
    (\<exists>h. mlfqs_next_thread_to_run ref_externs (mlfqs_example\<lparr>threads := \<lambda>_. ref_thread THREAD_READY 31\<rparr>) =
      (Some 2, mlfqs_example\<lparr>threads := \<lambda>_. ref_thread THREAD_READY 31, lists := h\<rparr>))"
proof -
  let ?s = "mlfqs_example\<lparr>threads := \<lambda>_. ref_thread THREAD_READY 31\<rparr>"
  have ok: "mlfqs_queues_ok ref_externs ?s"
    by (auto simp: mlfqs_queues_ok_def mlfqs_example_def)
  have "mlfqs_queued ref_externs ?s \<noteq> []"
    using mlfqs_example_queued by (simp add: mlfqs_queued_def)
  with mlfqs_next_is_highest [OF ref.list_lib_axioms ok]
  obtain t es h where "mlfqs_next_thread_to_run ref_externs ?s = (Some t, ?s\<lparr>lists := h\<rparr>)"
    and "elems ref_externs ?s (Mlfqs_list (priority (threads ?s t))) = elem_of t # es"
    by blast
  then show ?thesis using ok by (auto simp: mlfqs_example_def)
qed

theorem mlfqs_ready_threads_counts_witness: "mlfqs_ready_threads ref_externs mlfqs_example = Inr 3"
  using mlfqs_ready_threads_counts [OF ref.list_lib_axioms mlfqs_example_on_cpu]
  by (simp add: mlfqs_example_queued) (simp add: mlfqs_example_def)

theorem mlfqs_update_priority_all_correct_witness:
  "\<exists>ths h. mlfqs_update_priority_all ref_externs mlfqs_example =
      Inr (mlfqs_example\<lparr>threads := ths, lists := h\<rparr>) \<and> priority (ths 2) = 63"
proof -
  have "\<forall>e \<in> set (elems ref_externs mlfqs_example All_list).
      mlfqs_inputs_ok (threads mlfqs_example (list_entry e))"
    by (simp add: mlfqs_example_def ref_threads_def mlfqs_inputs_ok_def is_i32_def kernel_consts)
  moreover have "\<forall>e \<in> set (mlfqs_queued ref_externs mlfqs_example). member_of e = Elem \<and>
      Some (list_entry e) \<noteq> idle_thread mlfqs_example \<and>
      list_entry e \<in> list_entry ` set (elems ref_externs mlfqs_example All_list)"
    by (simp add: mlfqs_example_queued) (simp add: mlfqs_example_def)
  moreover have "level ref_externs mlfqs_example = INTR_OFF" by (simp add: mlfqs_example_def)
  ultimately obtain ths h where
    "mlfqs_update_priority_all ref_externs mlfqs_example = Inr (mlfqs_example\<lparr>threads := ths, lists := h\<rparr>)"
    and "\<forall>t. ths t = (if t \<in> list_entry ` set (elems ref_externs mlfqs_example All_list) \<and>
        Some t \<noteq> idle_thread mlfqs_example
      then (threads mlfqs_example t)\<lparr>priority := mlfqs_priority_spec (threads mlfqs_example t)\<rparr>
      else threads mlfqs_example t)"
    using mlfqs_update_priority_all_correct [OF ref.list_lib_axioms _ mlfqs_example_linked] by blast
  then show ?thesis
    by (intro exI [of _ ths] exI [of _ h] conjI)
      (simp_all add: mlfqs_example_def ref_threads_def mlfqs_priority_spec_def kernel_consts)
qed

theorem mlfqs_load_avg_bounded_witness:
  "\<exists>la. mlfqs_update_load_avg ref_externs mlfqs_example = Inr (mlfqs_example\<lparr>load_avg := la\<rparr>) \<and>
    0 \<le> la \<and> la \<le> 64 * F"
proof (rule mlfqs_load_avg_bounded [of _ _ 3])
  show "mlfqs_ready_threads ref_externs mlfqs_example = Inr 3"
    by (simp add: mlfqs_ready_threads_def mlfqs_example_on_cpu)
      (simp add: mlfqs_example_def kernel_consts priorities_unfold i32_id is_i32_def)
qed (simp_all add: mlfqs_example_def)

definition recent_cpu_example :: ref_kstate where
  "recent_cpu_example = mlfqs_example\<lparr>load_avg := 16384,
    threads := (\<lambda>_. (ref_thread THREAD_READY 31)\<lparr>recent_cpu := 300, nice := 5\<rparr>)\<rparr>"

theorem mlfqs_recent_cpu_decays_witness:
  "\<exists>part. mlfqs_update_recent_cpu 2 recent_cpu_example =
    Inr (upd_thread 2 (recent_cpu_update (\<lambda>_. part + 5 * F)) recent_cpu_example) \<and> \<bar>part\<bar> < 300"
proof -
  have t: "recent_cpu (threads recent_cpu_example 2) = 300" "nice (threads recent_cpu_example 2) = 5"
    "load_avg recent_cpu_example = 16384" "idle_thread recent_cpu_example = Some 9"
    by (simp_all add: recent_cpu_example_def mlfqs_example_def)
  show ?thesis
    using mlfqs_recent_cpu_decays [of 2 recent_cpu_example]
    by (intro exI [of _ 199]) (auto simp: t kernel_consts)
qed

end
