(* ===== verification/Run_Queue.thy ===== *)
theory Run_Queue
  imports Mlfqs
begin

text \<open>
  The interface between the scheduler and its run queue.  The scheduler hands a thread to the queue
  (\<open>enqueue\<close>), takes the next one out of it (\<open>dequeue\<close>), and relies on one contract: the queue is a
  list sorted by priority, a thread goes behind the threads of at least its own priority, and the
  thread at the front is taken.  Two parts of \<^verbatim>\<open>thread.c\<close> implement it, the ready list that is kept
  in order by \<open>list_insert_ordered\<close> and the 64 queues of the advanced scheduler.
\<close>

section \<open>The contract\<close>

definition higher :: "('l, 'i, 'p) kstate \<Rightarrow> thread_ptr \<Rightarrow> thread_ptr \<Rightarrow> bool" where
  "higher s a b \<longleftrightarrow> priority (threads s a) > priority (threads s b)"

text \<open>
  Queue operations on thread \<open>t\<close> touch no list but the run lists, and no element but that of \<open>t\<close>.
\<close>

definition run_list :: "list_ptr \<Rightarrow> bool" where
  "run_list l = (case l of Ready_list \<Rightarrow> True | Mlfqs_list i \<Rightarrow> True | _ \<Rightarrow> False)"

lemma run_list_simps [simp]:
  "run_list Ready_list" "run_list (Mlfqs_list i)" "\<not> run_list All_list" "\<not> run_list Temp_list"
  "\<not> run_list Sleep_list" "\<not> run_list (Sema_waiters x)" "\<not> run_list (Lock_waiters k)"
  "\<not> run_list (Cond_waiters c)" "\<not> run_list (Locks_held u)"
  by (simp_all add: run_list_def)

definition run_frame :: "('l, 'i, 'p) externs \<Rightarrow> thread_ptr \<Rightarrow> 'l \<Rightarrow> 'l \<Rightarrow> bool" where
  "run_frame E t h h' \<longleftrightarrow> (\<forall>l. \<not> run_list l \<longrightarrow> list_elems E l h' = list_elems E l h) \<and>
    (\<forall>e. e \<noteq> elem_of t \<longrightarrow> unlinked E e h' = unlinked E e h)"

lemma run_frameI:
  assumes "\<And>l. \<not> run_list l \<Longrightarrow> list_elems E l h' = list_elems E l h"
    and "\<And>l e. e \<noteq> elem_of t \<Longrightarrow> e \<in> set (list_elems E l h') \<longleftrightarrow> e \<in> set (list_elems E l h)"
  shows "run_frame E t h h'"
  using assms by (auto simp: run_frame_def unlinked_def)

locale run_queue =
  fixes E :: "('l, 'i, 'p) externs"
    and enqueue :: "thread_ptr \<Rightarrow> ('l, 'i, 'p) kstate \<Rightarrow> ('l, 'i, 'p) kstate res"
    and dequeue :: "('l, 'i, 'p) kstate \<Rightarrow> thread_ptr option \<times> ('l, 'i, 'p) kstate"
    and queue :: "('l, 'i, 'p) kstate \<Rightarrow> thread_ptr list"
    and ok :: "('l, 'i, 'p) kstate \<Rightarrow> bool"
    and fits :: "thread_ptr \<Rightarrow> ('l, 'i, 'p) kstate \<Rightarrow> bool"
  assumes ok_sorted: "ok s \<Longrightarrow> sorted_wrt (\<lambda>a b. \<not> higher s b a) (queue s)"
    and dequeue_empty: "ok s \<Longrightarrow> queue s = [] \<Longrightarrow> dequeue s = (idle_thread s, s)"
    and dequeue_front: "ok s \<Longrightarrow> queue s = t # ts \<Longrightarrow>
      \<exists>h. dequeue s = (Some t, s\<lparr>lists := h\<rparr>) \<and> queue (s\<lparr>lists := h\<rparr>) = ts \<and> ok (s\<lparr>lists := h\<rparr>) \<and>
        run_frame E t (lists s) h \<and> unlinked E (elem_of t) h"
    and enqueue_ordered: "ok s \<Longrightarrow> fits t s \<Longrightarrow>
      \<exists>h. enqueue t s = Inr (s\<lparr>lists := h\<rparr>) \<and> queue (s\<lparr>lists := h\<rparr>) = ins_before (higher s) t (queue s) \<and>
        ok (s\<lparr>lists := h\<rparr>) \<and> run_frame E t (lists s) h"
begin

lemma front_is_highest: "ok s \<Longrightarrow> queue s = t # ts \<Longrightarrow> u \<in> set ts \<Longrightarrow> \<not> higher s u t"
  using ok_sorted by fastforce

text \<open>
  A thread that goes back to the queue is the next one only when every queued thread has a lower
  priority; otherwise the front of the queue is next, so that threads of equal priority take turns.
\<close>

lemma enqueue_dequeue:
  assumes "ok s" and "fits t s"
  shows "\<exists>h h'. enqueue t s = Inr (s\<lparr>lists := h\<rparr>) \<and>
    dequeue (s\<lparr>lists := h\<rparr>) =
      (Some (if queue s = [] \<or> higher s t (hd (queue s)) then t else hd (queue s)), s\<lparr>lists := h'\<rparr>) \<and>
    ok (s\<lparr>lists := h'\<rparr>) \<and>
    queue (s\<lparr>lists := h'\<rparr>) =
      (if queue s = [] \<or> higher s t (hd (queue s)) then queue s
       else ins_before (higher s) t (tl (queue s)))"
proof -
  obtain h where h: "enqueue t s = Inr (s\<lparr>lists := h\<rparr>)" "ok (s\<lparr>lists := h\<rparr>)"
    and q: "queue (s\<lparr>lists := h\<rparr>) = ins_before (higher s) t (queue s)"
    using enqueue_ordered [OF assms] by blast
  let ?first = "queue s = [] \<or> higher s t (hd (queue s))"
  have "queue (s\<lparr>lists := h\<rparr>) = (if ?first then t else hd (queue s)) #
      (if ?first then queue s else ins_before (higher s) t (tl (queue s)))"
    unfolding q by (cases "queue s") (simp_all add: ins_before_Cons)
  from dequeue_front [OF h(2) this] obtain h' where
    "dequeue (s\<lparr>lists := h\<rparr>) = (Some (if ?first then t else hd (queue s)), s\<lparr>lists := h'\<rparr>)"
    "queue (s\<lparr>lists := h'\<rparr>) = (if ?first then queue s else ins_before (higher s) t (tl (queue s)))"
    "ok (s\<lparr>lists := h'\<rparr>)"
    by auto
  with h(1) show ?thesis by (intro exI [of _ h] exI [of _ h']) simp
qed

end

section \<open>The ready list\<close>

definition less_priority :: "('l, 'i, 'p) kstate \<Rightarrow> list_elem \<Rightarrow> list_elem \<Rightarrow> bool" where
  "less_priority s a b =
    (let threadA = list_entry a; threadB = list_entry b
     in priority (threads s threadA) > priority (threads s threadB))"

definition more_priority :: "('l, 'i, 'p) kstate \<Rightarrow> list_elem \<Rightarrow> list_elem \<Rightarrow> bool" where
  "more_priority s a b =
    (let threadA = list_entry a; threadB = list_entry b
     in priority (threads s threadA) < priority (threads s threadB))"

text \<open>The insertion into the ready list that \<open>thread_unblock\<close> and \<open>thread_yield\<close> share.\<close>

definition ready_insert :: "('l, 'i, 'p) externs \<Rightarrow> thread_ptr \<Rightarrow> ('l, 'i, 'p) kstate \<Rightarrow> ('l, 'i, 'p) kstate" where
  "ready_insert E t s = upd_lists (list_insert_ordered E Ready_list (elem_of t) (less_priority s)) s"

text \<open>The branch of \<open>next_thread_to_run\<close> that serves the ready list.\<close>

definition ready_next ::
    "('l, 'i, 'p) externs \<Rightarrow> ('l, 'i, 'p) kstate \<Rightarrow> thread_ptr option \<times> ('l, 'i, 'p) kstate" where
  "ready_next E s =
    (if list_empty E Ready_list (lists s) then (idle_thread s, s)
     else case list_pop_front E Ready_list (lists s) of
       (e, h) \<Rightarrow> (Some (list_entry e), s\<lparr>lists := h\<rparr>))"

definition ready_queue :: "('l, 'i, 'p) externs \<Rightarrow> ('l, 'i, 'p) kstate \<Rightarrow> thread_ptr list" where
  "ready_queue E s = map list_entry (elems E s Ready_list)"

definition ready_ok :: "('l, 'i, 'p) externs \<Rightarrow> ('l, 'i, 'p) kstate \<Rightarrow> bool" where
  "ready_ok E s \<longleftrightarrow> linked_once E (lists s) \<and> (\<forall>e \<in> set (elems E s Ready_list). member_of e = Elem) \<and>
    sorted_wrt (\<lambda>a b. \<not> less_priority s b a) (elems E s Ready_list)"

definition ready_fits :: "('l, 'i, 'p) externs \<Rightarrow> thread_ptr \<Rightarrow> ('l, 'i, 'p) kstate \<Rightarrow> bool" where
  "ready_fits E t s \<longleftrightarrow> unlinked E (elem_of t) (lists s)"

lemma less_priority_higher: "less_priority s a b \<longleftrightarrow> higher s (list_entry a) (list_entry b)"
  by (simp add: less_priority_def higher_def)

lemma less_priority_lists [simp]:
  "less_priority (s\<lparr>lists := h\<rparr>) = less_priority s" "higher (s\<lparr>lists := h\<rparr>) = higher s"
  by (auto simp: less_priority_def higher_def fun_eq_iff)

lemma sorted_less_priority:
  "sorted_wrt (\<lambda>a b. \<not> less_priority s b a) es \<longleftrightarrow> sorted_wrt (\<lambda>a b. \<not> higher s b a) (map list_entry es)"
  by (simp add: sorted_wrt_map less_priority_higher)

lemma sorted_higher_insert:
  "sorted_wrt (\<lambda>a b. \<not> higher s b a) ts \<Longrightarrow> sorted_wrt (\<lambda>a b. \<not> higher s b a) (ins_before (higher s) t ts)"
proof -
  have "higher s = (\<lambda>a b. priority (threads s b) < priority (threads s a))"
    by (simp add: fun_eq_iff higher_def)
  then show "sorted_wrt (\<lambda>a b. \<not> higher s b a) ts \<Longrightarrow> ?thesis"
    using sorted_ins_before [where key = "\<lambda>t. - priority (threads s t)" and xs = ts and e = t]
    by (simp add: not_less)
qed

section \<open>The queues of the advanced scheduler\<close>

text \<open>The order in which \<open>mlfqs_next_thread_to_run\<close> meets the queued threads.\<close>

definition mlfqs_queue :: "('l, 'i, 'p) externs \<Rightarrow> ('l, 'i, 'p) kstate \<Rightarrow> thread_ptr list" where
  "mlfqs_queue E s = map list_entry (concat (map (\<lambda>i. elems E s (Mlfqs_list i)) (rev [PRI_MIN..PRI_MAX])))"

definition mlfqs_ok :: "('l, 'i, 'p) externs \<Rightarrow> ('l, 'i, 'p) kstate \<Rightarrow> bool" where
  "mlfqs_ok E s \<longleftrightarrow> linked_once E (lists s) \<and> mlfqs_queues_ok E s"

definition mlfqs_fits :: "('l, 'i, 'p) externs \<Rightarrow> thread_ptr \<Rightarrow> ('l, 'i, 'p) kstate \<Rightarrow> bool" where
  "mlfqs_fits E t s \<longleftrightarrow> unlinked E (elem_of t) (lists s) \<and>
    PRI_MIN \<le> priority (threads s t) \<and> priority (threads s t) \<le> PRI_MAX"

text \<open>The queues above, at and below a priority.\<close>

lemma mlfqs_queue_split:
  assumes "p \<in> {PRI_MIN..PRI_MAX}"
  shows "mlfqs_queue E s =
    map list_entry (concat (map (\<lambda>i. elems E s (Mlfqs_list i)) (rev [p + 1..PRI_MAX]))) @
    map list_entry (elems E s (Mlfqs_list p)) @
    map list_entry (concat (map (\<lambda>i. elems E s (Mlfqs_list i)) (rev [PRI_MIN..p - 1])))"
  by (simp add: mlfqs_queue_def split_priorities [OF assms])

lemma mlfqs_queue_part_priority:
  assumes "mlfqs_queues_ok E s" and "set is \<subseteq> {PRI_MIN..PRI_MAX}"
    and "t \<in> set (map list_entry (concat (map (\<lambda>i. elems E s (Mlfqs_list i)) is)))"
  shows "priority (threads s t) \<in> set is"
  using assms by (auto simp: mlfqs_queues_ok_def)

lemma mlfqs_queue_Nil: "mlfqs_queue E s = [] \<longleftrightarrow> mlfqs_queued E s = []"
  by (auto simp: mlfqs_queue_def mlfqs_queued_def)

lemma mlfqs_part_sorted:
  assumes "mlfqs_queues_ok E s" and "sorted_wrt (\<lambda>i j. j < i) is" and "set is \<subseteq> {PRI_MIN..PRI_MAX}"
  shows "sorted_wrt (\<lambda>a b. \<not> higher s b a)
    (map list_entry (concat (map (\<lambda>i. elems E s (Mlfqs_list i)) is)))"
  using assms(2,3)
proof (induction "is")
  case (Cons i "is")
  have own: "priority (threads s (list_entry e)) = i" if "e \<in> set (elems E s (Mlfqs_list i))" for e
    using assms(1) Cons.prems(2) that by (auto simp: mlfqs_queues_ok_def)
  have rest: "priority (threads s t) < i"
    if "t \<in> set (map list_entry (concat (map (\<lambda>i. elems E s (Mlfqs_list i)) is)))" for t
    using mlfqs_queue_part_priority [OF assms(1) _ that] Cons.prems by simp
  have "sorted_wrt (\<lambda>a b. \<not> higher s b a) (map list_entry (elems E s (Mlfqs_list i)))"
    using own by (auto simp: higher_def sorted_wrt_map sorted_wrt_iff_nth_less)
  moreover have "\<not> higher s t (list_entry e)"
    if "e \<in> set (elems E s (Mlfqs_list i))"
      "t \<in> set (map list_entry (concat (map (\<lambda>i. elems E s (Mlfqs_list i)) is)))" for t e
    using own [OF that(1)] rest [OF that(2)] by (simp add: higher_def)
  ultimately show ?case using Cons by (auto simp: sorted_wrt_append)
qed simp

section \<open>Both implement the contract\<close>

context list_lib
begin

lemma ready_enqueue:
  assumes ok: "ready_ok E s" and fits: "ready_fits E t s"
  shows "ready_queue E (ready_insert E t s) = ins_before (higher s) t (ready_queue E s) \<and>
    ready_ok E (ready_insert E t s) \<and> run_frame E t (lists s) (lists (ready_insert E t s))"
proof -
  let ?lt = "\<lambda>a b. higher s (list_entry a) (list_entry b)"
  have u: "unlinked E (elem_of t) (lists s)" using fits by (simp add: ready_fits_def)
  have lt: "less_priority s = ?lt" by (simp add: fun_eq_iff less_priority_higher)
  have sorted: "sorted_wrt (\<lambda>a b. \<not> less_priority s b a) (elems E s Ready_list)"
    using ok by (simp add: ready_ok_def)
  note ins = elems_insert_ordered [OF u sorted]
  have r: "elems E (ready_insert E t s) Ready_list = ins_before (less_priority s) (elem_of t) (elems E s Ready_list)"
    by (simp add: ready_insert_def ins)
  have q: "ready_queue E (ready_insert E t s) = ins_before (higher s) t (ready_queue E s)"
    using map_ins_before [of list_entry "higher s" "elem_of t"] by (simp add: ready_queue_def r lt)
  have h: "higher (ready_insert E t s) = higher s"
    by (simp add: ready_insert_def higher_def fun_eq_iff)
  have "sorted_wrt (\<lambda>a b. \<not> higher s b a) (ins_before (higher s) t (ready_queue E s))"
    using sorted by (intro sorted_higher_insert) (simp add: sorted_less_priority ready_queue_def)
  then have "sorted_wrt (\<lambda>a b. \<not> less_priority (ready_insert E t s) b a) (elems E (ready_insert E t s) Ready_list)"
    unfolding sorted_less_priority h q [unfolded ready_queue_def [of _ "ready_insert E t s"]] .
  moreover have "linked_once E (lists (ready_insert E t s))"
    using ok linked_once_insert_ordered [OF _ u sorted] by (simp add: ready_insert_def ready_ok_def)
  moreover have "\<forall>e \<in> set (elems E (ready_insert E t s) Ready_list). member_of e = Elem"
    using ok by (auto simp: r ready_ok_def)
  moreover have "run_frame E t (lists s) (lists (ready_insert E t s))"
    by (rule run_frameI) (auto simp: ready_insert_def ins)
  ultimately show ?thesis using q by (simp add: ready_ok_def)
qed

lemma ready_dequeue:
  assumes ok: "ready_ok E s" and q: "ready_queue E s = t # ts"
  shows "\<exists>h. ready_next E s = (Some t, s\<lparr>lists := h\<rparr>) \<and> ready_queue E (s\<lparr>lists := h\<rparr>) = ts \<and>
    ready_ok E (s\<lparr>lists := h\<rparr>) \<and> run_frame E t (lists s) h \<and> unlinked E (elem_of t) h"
proof -
  from q obtain e es where e: "elems E s Ready_list = e # es" "list_entry e = t" "map list_entry es = ts"
    by (auto simp: ready_queue_def)
  let ?h = "snd (list_pop_front E Ready_list (lists s))"
  have "ready_ok E (s\<lparr>lists := ?h\<rparr>)"
    using ok e(1) linked_once_pop_front [OF _ e(1)] by (simp add: ready_ok_def elems_pop_front [OF e(1)])
  moreover have "elem_of t = e" using ok e(1,2) by (cases e) (simp add: ready_ok_def)
  moreover have "run_frame E t (lists s) ?h" if "elem_of t = e"
    using that by (intro run_frameI) (auto simp: elems_pop_front [OF e(1)] e(1))
  moreover have "unlinked E e ?h"
    using ok unlinked_pop_front [OF _ e(1)] by (simp add: ready_ok_def)
  ultimately show ?thesis
    using e by (intro exI [of _ ?h])
      (simp add: ready_next_def list_empty_iff case_prod_beta pop_front [OF e(1)]
        elems_pop_front [OF e(1)] ready_queue_def)
qed

lemma mlfqs_enqueue:
  assumes ok: "mlfqs_ok E s" and fits: "mlfqs_fits E t s"
  shows "\<exists>h. mlfqs_insert E t s = Inr (s\<lparr>lists := h\<rparr>) \<and>
    mlfqs_queue E (s\<lparr>lists := h\<rparr>) = ins_before (higher s) t (mlfqs_queue E s) \<and> mlfqs_ok E (s\<lparr>lists := h\<rparr>) \<and>
    run_frame E t (lists s) h"
proof -
  define p where "p = priority (threads s t)"
  have p: "p \<in> {PRI_MIN..PRI_MAX}" and u: "unlinked E (elem_of t) (lists s)"
    using fits by (auto simp: mlfqs_fits_def p_def)
  have qok: "mlfqs_queues_ok E s" using ok by (simp add: mlfqs_ok_def)
  let ?h = "list_push_back E (Mlfqs_list p) (elem_of t) (lists s)"
  let ?part = "\<lambda>is. map list_entry (concat (map (\<lambda>i. elems E s (Mlfqs_list i)) is))"
  note eq = elems_push_back [OF u, of _ "Mlfqs_list p"]
  have parts: "concat (map (\<lambda>i. list_elems E (Mlfqs_list i) ?h) is) =
      concat (map (\<lambda>i. elems E s (Mlfqs_list i)) is)" if "p \<notin> set is" for "is"
    using that by (intro arg_cong [where f = concat] map_cong) (auto simp: eq)
  have up: "\<not> higher s t x" if "x \<in> set (?part (rev [p + 1..PRI_MAX]))" for x
    using mlfqs_queue_part_priority [OF qok _ that] p by (auto simp: higher_def p_def [symmetric])
  have own: "\<not> higher s t x" if "x \<in> set (map list_entry (elems E s (Mlfqs_list p)))" for x
    using qok p that by (auto simp: higher_def mlfqs_queues_ok_def p_def [symmetric])
  have low: "higher s t x" if "x \<in> set (?part (rev [PRI_MIN..p - 1]))" for x
    using mlfqs_queue_part_priority [OF qok _ that] p by (auto simp: higher_def p_def [symmetric])
  have "mlfqs_queue E (s\<lparr>lists := ?h\<rparr>) = ?part (rev [p + 1..PRI_MAX]) @
      map list_entry (elems E s (Mlfqs_list p)) @ t # ?part (rev [PRI_MIN..p - 1])"
    by (simp add: mlfqs_queue_split [OF p] parts) (simp add: eq)
  also have "\<dots> = ins_before (higher s) t (mlfqs_queue E s)"
    unfolding mlfqs_queue_split [OF p, of E s]
    by (rule ins_before_between [symmetric]) (erule up own low)+
  finally have "mlfqs_queue E (s\<lparr>lists := ?h\<rparr>) = ins_before (higher s) t (mlfqs_queue E s)" .
  moreover have "mlfqs_ok E (s\<lparr>lists := ?h\<rparr>)"
    using ok linked_once_push_back [OF _ u] qok
    by (auto simp: mlfqs_ok_def mlfqs_queues_ok_def eq p_def [symmetric])
  moreover have "mlfqs_insert E t s = Inr (s\<lparr>lists := ?h\<rparr>)"
    using p by (simp add: mlfqs_insert_def p_def upd_lists_def)
  moreover have "run_frame E t (lists s) ?h" by (rule run_frameI) (auto simp: eq)
  ultimately show ?thesis by blast
qed

lemma mlfqs_dequeue:
  assumes ok: "mlfqs_ok E s" and q: "mlfqs_queue E s = t # ts"
  shows "\<exists>h. mlfqs_next_thread_to_run E s = (Some t, s\<lparr>lists := h\<rparr>) \<and>
    mlfqs_queue E (s\<lparr>lists := h\<rparr>) = ts \<and> mlfqs_ok E (s\<lparr>lists := h\<rparr>) \<and>
    run_frame E t (lists s) h \<and> unlinked E (elem_of t) h"
proof -
  have "mlfqs_queued E s \<noteq> []" using q mlfqs_queue_Nil [of E s] by simp
  then obtain p e es where p: "p \<in> {PRI_MIN..PRI_MAX}" and e: "elems E s (Mlfqs_list p) = e # es"
    and up: "\<forall>i \<in> {p<..PRI_MAX}. elems E s (Mlfqs_list i) = []"
    and next_t: "mlfqs_next_thread_to_run E s =
      (Some (list_entry e), s\<lparr>lists := snd (list_pop_front E (Mlfqs_list p) (lists s))\<rparr>)"
    using mlfqs_next_highest by blast
  let ?h = "snd (list_pop_front E (Mlfqs_list p) (lists s))"
  note eq = elems_pop_front [OF e]
  have parts: "concat (map (\<lambda>i. list_elems E (Mlfqs_list i) ?h) is) =
      concat (map (\<lambda>i. elems E s (Mlfqs_list i)) is)" if "p \<notin> set is" for "is"
    using that by (intro arg_cong [where f = concat] map_cong) (auto simp: eq)
  have above: "concat (map (\<lambda>i. elems E s (Mlfqs_list i)) (rev [p + 1..PRI_MAX])) = []"
    using up by auto
  have split: "mlfqs_queue E s = list_entry e # map list_entry es @
      map list_entry (concat (map (\<lambda>i. elems E s (Mlfqs_list i)) (rev [PRI_MIN..p - 1])))"
    by (simp only: mlfqs_queue_split [OF p] above e list.map append.simps)
  have "mlfqs_queue E (s\<lparr>lists := ?h\<rparr>) = map list_entry es @
      map list_entry (concat (map (\<lambda>i. elems E s (Mlfqs_list i)) (rev [PRI_MIN..p - 1])))"
    by (simp add: mlfqs_queue_split [OF p] parts above del: concat_eq_Nil_conv) (simp add: eq)
  moreover have "mlfqs_ok E (s\<lparr>lists := ?h\<rparr>)"
    using ok linked_once_pop_front [OF _ e] e
    by (auto simp: mlfqs_ok_def mlfqs_queues_ok_def eq)
  moreover have "list_entry e = t" using q split by simp
  moreover have "member_of e = Elem" using ok p e by (fastforce simp: mlfqs_ok_def mlfqs_queues_ok_def)
  then have "elem_of (list_entry e) = e" by (cases e) simp
  moreover have "run_frame E (list_entry e) (lists s) ?h" if "elem_of (list_entry e) = e"
    using that by (intro run_frameI) (auto simp: eq e)
  moreover have "unlinked E e ?h"
    using ok unlinked_pop_front [OF _ e] by (simp add: mlfqs_ok_def)
  ultimately show ?thesis using next_t q split by (intro exI [of _ ?h]) simp
qed

end

sublocale list_lib \<subseteq> ready: run_queue E "\<lambda>t s. Inr (ready_insert E t s)" "ready_next E"
  "ready_queue E" "ready_ok E" "ready_fits E"
proof unfold_locales
  fix s assume "ready_ok E s"
  then show "sorted_wrt (\<lambda>a b. \<not> higher s b a) (ready_queue E s)"
    by (simp add: ready_ok_def ready_queue_def sorted_less_priority)
next
  fix s assume "ready_ok E s" "ready_queue E s = []"
  then show "ready_next E s = (idle_thread s, s)"
    by (simp add: ready_next_def ready_queue_def list_empty_iff)
next
  fix s t ts assume "ready_ok E s" "ready_queue E s = t # ts"
  then show "\<exists>h. ready_next E s = (Some t, s\<lparr>lists := h\<rparr>) \<and> ready_queue E (s\<lparr>lists := h\<rparr>) = ts \<and>
      ready_ok E (s\<lparr>lists := h\<rparr>) \<and> run_frame E t (lists s) h \<and> unlinked E (elem_of t) h"
    by (rule ready_dequeue)
next
  fix s t assume "ready_ok E s" "ready_fits E t s"
  from ready_enqueue [OF this]
  show "\<exists>h. Inr (ready_insert E t s) = Inr (s\<lparr>lists := h\<rparr>) \<and>
      ready_queue E (s\<lparr>lists := h\<rparr>) = ins_before (higher s) t (ready_queue E s) \<and> ready_ok E (s\<lparr>lists := h\<rparr>) \<and>
      run_frame E t (lists s) h"
    unfolding ready_insert_def upd_lists_def by auto
qed

sublocale list_lib \<subseteq> mlfqs: run_queue E "mlfqs_insert E" "mlfqs_next_thread_to_run E"
  "mlfqs_queue E" "mlfqs_ok E" "mlfqs_fits E"
proof unfold_locales
  fix s assume "mlfqs_ok E s"
  then show "sorted_wrt (\<lambda>a b. \<not> higher s b a) (mlfqs_queue E s)"
    unfolding mlfqs_queue_def
    by (intro mlfqs_part_sorted) (auto simp: mlfqs_ok_def sorted_wrt_rev)
next
  fix s assume "mlfqs_ok E s" "mlfqs_queue E s = []"
  then show "mlfqs_next_thread_to_run E s = (idle_thread s, s)"
    by (simp add: mlfqs_queue_Nil mlfqs_next_idle)
qed (rule mlfqs_dequeue mlfqs_enqueue; assumption)+

end
