(* ===== verification/Scheduler.thy ===== *)
theory Scheduler
  imports Run_Queue
begin

text \<open>
  The scheduler of \<^verbatim>\<open>threads/thread.c\<close>: blocking, unblocking and yielding, the choice of the next
  thread and the thread switch, preemption, the timer tick and the setters of priority and \<open>nice\<close>.
  Functions that may give up the processor are of type \<open>kernel\<close>.
\<close>

section \<open>Ticks\<close>

definition thread_tick ::
    "('l, 'i, 'p) externs \<Rightarrow> ('l, 'i, 'p) kstate \<Rightarrow> ('l, 'i, 'p) kstate res" where
  "thread_tick E s =
    res_bind (thread_current s) (\<lambda>t.
      let s1 = (if Some t = idle_thread s then s\<lparr>idle_ticks := i64 (idle_ticks s + 1)\<rparr>
                else s\<lparr>kernel_ticks := i64 (kernel_ticks s + 1)\<rparr>);
          s2 = (if thread_mlfqs s1 \<and> Some t \<noteq> idle_thread s1
                then upd_thread t (recent_cpu_update (\<lambda>r. fp_add_int r 1)) s1 else s1);
          s3 = s2\<lparr>thread_ticks := thread_ticks s2 + 1\<rparr>
      in Inr (if thread_ticks s3 \<ge> TIME_SLICE then upd_cpu (intr_yield_on_return E) s3 else s3))"

section \<open>Unblocking\<close>

definition thread_unblock ::
    "('l, 'i, 'p) externs \<Rightarrow> thread_ptr \<Rightarrow> ('l, 'i, 'p) kstate \<Rightarrow> ('l, 'i, 'p) kstate res" where
  "thread_unblock E t s =
    ensure (is_thread s (Some t)) Assert_is_thread
      (let old_level = fst (intr_disable E (cpu s));
           s1 = upd_cpu (\<lambda>i. snd (intr_disable E i)) s
       in ensure (status (threads s1 t) = THREAD_BLOCKED) Assert_blocked
         (let s2 = upd_thread t (status_update (\<lambda>_. THREAD_READY)) s1
          in res_bind
              (if \<not> thread_mlfqs s2 then Inr (ready_insert E t s2)
               else res_bind (mlfqs_update_priority t s2) (mlfqs_insert E t))
              (\<lambda>s3. Inr (upd_cpu (intr_set_level E old_level) s3))))"

section \<open>Switching threads\<close>

text \<open>The choice between the two run queues that \<open>thread_yield\<close> makes.\<close>

definition run_insert ::
    "('l, 'i, 'p) externs \<Rightarrow> thread_ptr \<Rightarrow> ('l, 'i, 'p) kstate \<Rightarrow> ('l, 'i, 'p) kstate res" where
  "run_insert E t s = (if \<not> thread_mlfqs s then Inr (ready_insert E t s) else mlfqs_insert E t s)"

definition next_thread_to_run ::
    "('l, 'i, 'p) externs \<Rightarrow> ('l, 'i, 'p) kstate \<Rightarrow> thread_ptr option \<times> ('l, 'i, 'p) kstate" where
  "next_thread_to_run E s = (if thread_mlfqs s then mlfqs_next_thread_to_run E s else ready_next E s)"

definition thread_schedule_tail ::
    "('l, 'i, 'p) externs \<Rightarrow> thread_ptr option \<Rightarrow> ('l, 'i, 'p) kstate \<Rightarrow> ('l, 'i, 'p) kstate res" where
  "thread_schedule_tail E prev s =
    (let cur = running_thread s
     in ensure (level E s = INTR_OFF) Assert_intr_off
       (let s1 = upd_thread cur (status_update (\<lambda>_. THREAD_RUNNING)) s;
            s2 = s1\<lparr>thread_ticks := 0\<rparr>
        in case prev of
             None \<Rightarrow> Inr s2
           | Some p \<Rightarrow>
               if status (threads s2 p) = THREAD_DYING \<and> Some p \<noteq> initial_thread s2
               then ensure (p \<noteq> cur) Assert_prev_not_cur
                 (Inr (s2\<lparr>pages := palloc_free_page E p (pages s2)\<rparr>))
               else Inr s2))"

definition schedule ::
    "('l, 'i, 'p) externs \<Rightarrow> (('l, 'i, 'p) kstate, unit) kernel" where
  "schedule E s =
    (let cur = running_thread s
     in case next_thread_to_run E s of (next, s1) \<Rightarrow>
          if level E s1 \<noteq> INTR_OFF then Panic Assert_intr_off
          else if status (threads s1 cur) = THREAD_RUNNING then Panic Assert_not_running
          else case next of
              None \<Rightarrow> Panic Assert_is_thread
            | Some n \<Rightarrow>
                if \<not> is_thread s1 (Some n) then Panic Assert_is_thread
                else if cur \<noteq> n
                then Switch cur n s1 (\<lambda>prev. katomic (thread_schedule_tail E (Some prev)))
                else katomic (thread_schedule_tail E None) s1)"

text \<open>The statement \<open>old_level = intr_disable ();\<close> and what follows it.\<close>

definition kdisable ::
    "('l, 'i, 'p) externs \<Rightarrow> (intr_level \<Rightarrow> (('l, 'i, 'p) kstate, 'a) kernel) \<Rightarrow> (('l, 'i, 'p) kstate, 'a) kernel" where
  "kdisable E f s = f (fst (intr_disable E (cpu s))) (upd_cpu (\<lambda>i. snd (intr_disable E i)) s)"

definition kset_level ::
    "('l, 'i, 'p) externs \<Rightarrow> intr_level \<Rightarrow> (('l, 'i, 'p) kstate, unit) kernel" where
  "kset_level E lv = kmodify (upd_cpu (intr_set_level E lv))"

definition thread_block :: "('l, 'i, 'p) externs \<Rightarrow> (('l, 'i, 'p) kstate, unit) kernel" where
  "thread_block E =
    kseq [kassert (\<lambda>s. \<not> intr_context E (cpu s)) Assert_not_intr_context,
          kassert (\<lambda>s. level E s = INTR_OFF) Assert_intr_off,
          kcall thread_current (\<lambda>cur. kmodify (upd_thread cur (status_update (\<lambda>_. THREAD_BLOCKED)))),
          schedule E]"

definition thread_yield :: "('l, 'i, 'p) externs \<Rightarrow> (('l, 'i, 'p) kstate, unit) kernel" where
  "thread_yield E =
    kcall thread_current (\<lambda>cur.
      kseq [kassert (\<lambda>s. \<not> intr_context E (cpu s)) Assert_not_intr_context,
            kdisable E (\<lambda>old_level.
              kseq [katomic (\<lambda>s. if Some cur \<noteq> idle_thread s then run_insert E cur s else Inr s),
                    kmodify (upd_thread cur (status_update (\<lambda>_. THREAD_READY))),
                    schedule E,
                    kset_level E old_level])])"

definition thread_exit :: "('l, 'i, 'p) externs \<Rightarrow> (('l, 'i, 'p) kstate, unit) kernel" where
  "thread_exit E =
    kseq [kassert (\<lambda>s. \<not> intr_context E (cpu s)) Assert_not_intr_context,
          kdisable E (\<lambda>_.
            kseq [kcall thread_current (\<lambda>cur. kmodify (upd_lists (list_remove E (allelem_of cur)))),
                  kcall thread_current (\<lambda>cur. kmodify (upd_thread cur (status_update (\<lambda>_. THREAD_DYING)))),
                  schedule E,
                  (\<lambda>s. Panic Not_reached)])]"

section \<open>Preemption\<close>

text \<open>The thread at the front of a list; what \<^verbatim>\<open>list_front\<close> returns for an empty list is undefined.\<close>

definition front_thread ::
    "('l, 'i, 'p) externs \<Rightarrow> list_ptr \<Rightarrow> ('l, 'i, 'p) kstate \<Rightarrow> thread_ptr res" where
  "front_thread E l s =
    ensure (\<not> list_empty E l (lists s)) Empty_list (Inr (list_entry (list_front E l (lists s))))"

definition check_preemption :: "('l, 'i, 'p) externs \<Rightarrow> (('l, 'i, 'p) kstate, unit) kernel" where
  "check_preemption E =
    kif (\<lambda>s. \<not> list_empty E Ready_list (lists s))
      (kpause (kcall (front_thread E Ready_list) (\<lambda>t.
        kpause (kcall thread_current (\<lambda>cur.
          kif (\<lambda>s. priority (threads s t) > priority (threads s cur))
            (kif (\<lambda>s. intr_context E (cpu s)) (kmodify (upd_cpu (intr_yield_on_return E))) (thread_yield E))
            kskip)))))
      kskip"

definition thread_yield_if_necessary :: "('l, 'i, 'p) externs \<Rightarrow> (('l, 'i, 'p) kstate, unit) kernel" where
  "thread_yield_if_necessary E =
    kif (\<lambda>s. \<not> list_empty E Ready_list (lists s))
      (kpause (kcall (front_thread E Ready_list) (\<lambda>highest.
        kpause (kcall thread_current (\<lambda>cur.
          kif (\<lambda>s. priority (threads s highest) > priority (threads s cur)) (thread_yield E) kskip)))))
      kskip"

text \<open>The loop over the queues, of which each turn looks at one of them, and what is done with the number of the first that is
  not empty.\<close>

fun mlfqs_highest ::
    "('l, 'i, 'p) externs \<Rightarrow> int list \<Rightarrow> (int \<Rightarrow> (('l, 'i, 'p) kstate, unit) kernel) \<Rightarrow>
      (('l, 'i, 'p) kstate, unit) kernel" where
  "mlfqs_highest E [] f = f (- 1)"
| "mlfqs_highest E (i # is) f =
    kif (\<lambda>s. \<not> list_empty E (Mlfqs_list i) (lists s)) (kpause (f i)) (kpause (mlfqs_highest E is f))"

definition mlfqs_check_preemption :: "('l, 'i, 'p) externs \<Rightarrow> (('l, 'i, 'p) kstate, unit) kernel" where
  "mlfqs_check_preemption E =
    mlfqs_highest E (rev [PRI_MIN..PRI_MAX]) (\<lambda>highest_priority.
      kcall thread_current (\<lambda>cur.
        kif (\<lambda>s. highest_priority > priority (threads s cur))
          (kif (\<lambda>s. intr_context E (cpu s)) (kmodify (upd_cpu (intr_yield_on_return E))) (thread_yield E))
          kskip))"

text \<open>The test that \<open>thread_create\<close> and \<open>sema_up\<close> end with.\<close>

definition preemption_check :: "('l, 'i, 'p) externs \<Rightarrow> (('l, 'i, 'p) kstate, unit) kernel" where
  "preemption_check E = kif thread_mlfqs (mlfqs_check_preemption E) (check_preemption E)"

section \<open>Setters\<close>

definition thread_set_priority ::
    "('l, 'i, 'p) externs \<Rightarrow> int \<Rightarrow> (('l, 'i, 'p) kstate, unit) kernel" where
  "thread_set_priority E new_priority =
    kseq [kcall thread_current (\<lambda>cur. kmodify (upd_thread cur (priority_update (\<lambda>_. new_priority)))),
          check_preemption E]"

definition thread_set_nice ::
    "('l, 'i, 'p) externs \<Rightarrow> int \<Rightarrow> (('l, 'i, 'p) kstate, unit) kernel" where
  "thread_set_nice E new_nice =
    (let new_nice = (if new_nice > NICE_MAX then NICE_MAX else new_nice);
         new_nice = (if new_nice < NICE_MIN then NICE_MIN else new_nice)
     in kseq [kcall thread_current (\<lambda>cur. kmodify (upd_thread cur (nice_update (\<lambda>_. new_nice)))),
              kcall thread_current (\<lambda>cur. katomic (mlfqs_update_priority cur)),
              mlfqs_check_preemption E])"

section \<open>The run queue in use\<close>

definition run_order :: "('l, 'i, 'p) externs \<Rightarrow> ('l, 'i, 'p) kstate \<Rightarrow> thread_ptr list" where
  "run_order E s = (if thread_mlfqs s then mlfqs_queue E s else ready_queue E s)"

definition run_ok :: "('l, 'i, 'p) externs \<Rightarrow> ('l, 'i, 'p) kstate \<Rightarrow> bool" where
  "run_ok E s = (if thread_mlfqs s then mlfqs_ok E s else ready_ok E s)"

definition run_fits :: "('l, 'i, 'p) externs \<Rightarrow> thread_ptr \<Rightarrow> ('l, 'i, 'p) kstate \<Rightarrow> bool" where
  "run_fits E t s = (if thread_mlfqs s then mlfqs_fits E t s else ready_fits E t s)"

sublocale list_lib \<subseteq> run: run_queue E "run_insert E" "next_thread_to_run E" "run_order E" "run_ok E" "run_fits E"
proof unfold_locales
  fix s assume "run_ok E s"
  then show "sorted_wrt (\<lambda>a b. \<not> higher s b a) (run_order E s)"
    using ready.ok_sorted mlfqs.ok_sorted by (simp add: run_ok_def run_order_def split: if_splits)
next
  fix s assume "run_ok E s" "run_order E s = []"
  then show "next_thread_to_run E s = (idle_thread s, s)"
    using ready.dequeue_empty mlfqs.dequeue_empty
    by (simp add: run_ok_def run_order_def next_thread_to_run_def split: if_splits)
next
  fix s t ts assume "run_ok E s" "run_order E s = t # ts"
  then show "\<exists>h. next_thread_to_run E s = (Some t, s\<lparr>lists := h\<rparr>) \<and> run_order E (s\<lparr>lists := h\<rparr>) = ts \<and>
      run_ok E (s\<lparr>lists := h\<rparr>) \<and> run_frame E t (lists s) h \<and> unlinked E (elem_of t) h"
    using ready.dequeue_front mlfqs.dequeue_front
    by (simp add: run_ok_def run_order_def next_thread_to_run_def split: if_splits)
next
  fix s t assume "run_ok E s" "run_fits E t s"
  then show "\<exists>h. run_insert E t s = Inr (s\<lparr>lists := h\<rparr>) \<and>
      run_order E (s\<lparr>lists := h\<rparr>) = ins_before (higher s) t (run_order E s) \<and> run_ok E (s\<lparr>lists := h\<rparr>) \<and>
      run_frame E t (lists s) h"
    using ready.enqueue_ordered mlfqs.enqueue_ordered
    by (simp add: run_ok_def run_order_def run_fits_def run_insert_def split: if_splits)
qed

text \<open>The run queue depends on the lists and on the priorities of the queued threads only.\<close>

lemma run_order_cong:
  "lists s = lists s' \<Longrightarrow> thread_mlfqs s = thread_mlfqs s' \<Longrightarrow> run_order E s = run_order E s'"
  by (simp add: run_order_def mlfqs_queue_def ready_queue_def)

lemma run_ok_cong:
  assumes eq: "lists s = lists s'" "thread_mlfqs s = thread_mlfqs s'"
    and p: "\<And>t. \<not> unlinked E (elem_of t) (lists s) \<Longrightarrow> priority (threads s t) = priority (threads s' t)"
  shows "run_ok E s = run_ok E s'"
proof -
  have q: "priority (threads s (list_entry e)) = priority (threads s' (list_entry e))"
    if "e \<in> set (elems E s' l)" "member_of e = Elem" for e l
  proof (rule p)
    have "elem_of (list_entry e) = e" using that(2) by (cases e) simp
    with that(1) show "\<not> unlinked E (elem_of (list_entry e)) (lists s)" by (auto simp: unlinked_def eq(1))
  qed
  have "sorted_wrt (\<lambda>a b. \<not> less_priority s b a) (elems E s' Ready_list) =
      sorted_wrt (\<lambda>a b. \<not> less_priority s' b a) (elems E s' Ready_list)"
    if "\<forall>e \<in> set (elems E s' Ready_list). member_of e = Elem"
    using that q by (intro iffI; elim sorted_wrt_mono_rel [rotated]; auto simp: less_priority_def)
  then have "ready_ok E s = ready_ok E s'" using eq by (auto simp: ready_ok_def)
  moreover have "mlfqs_ok E s = mlfqs_ok E s'"
    using eq q by (fastforce simp: mlfqs_ok_def mlfqs_queues_ok_def)
  ultimately show ?thesis using eq by (simp add: run_ok_def)
qed

lemma run_fits_cong:
  assumes "lists s = lists s'" and "thread_mlfqs s = thread_mlfqs s'"
    and "priority (threads s u) = priority (threads s' u)"
  shows "run_fits E u s = run_fits E u s'"
  using assms by (simp add: run_fits_def mlfqs_fits_def ready_fits_def)

lemma higher_cong: "(\<And>t. priority (threads s t) = priority (threads s' t)) \<Longrightarrow> higher s = higher s'"
  by (simp add: higher_def fun_eq_iff)

lemma higher_simps [simp]:
  "higher (upd_cpu f s) = higher s" "higher (upd_lists g s) = higher s"
  "higher (upd_thread t (status_update u) s) = higher s"
  by (auto simp: higher_def fun_eq_iff)

lemma less_priority_simps [simp]:
  "less_priority (upd_cpu f s) = less_priority s" "less_priority (upd_lists g s) = less_priority s"
  "less_priority (upd_thread t (status_update u) s) = less_priority s"
  by (auto simp: less_priority_def Let_def fun_eq_iff)

lemma run_simps [simp]:
  "run_order E (upd_cpu f s) = run_order E s" "run_order E (upd_thread t g s) = run_order E s"
  "run_ok E (upd_cpu f s) = run_ok E s" "run_ok E (upd_thread t (status_update u) s) = run_ok E s"
  "run_fits E v (upd_cpu f s) = run_fits E v s"
  "run_fits E v (upd_thread t (status_update u) s) = run_fits E v s"
  by (rule run_order_cong run_ok_cong run_fits_cong; simp)+

lemma run_ok_unlinked: "unlinked E (elem_of t) (lists s) \<Longrightarrow> run_ok E (upd_thread t g s) = run_ok E s"
  by (rule run_ok_cong) auto

lemma run_fits_unlinked: "run_fits E t s \<Longrightarrow> unlinked E (elem_of t) (lists s)"
  by (auto simp: run_fits_def mlfqs_fits_def ready_fits_def split: if_splits)

end
