(* ===== verification/Scheduling.thy ===== *)
theory Scheduling
  imports Scheduler
begin

text \<open>
  What the scheduler guarantees: which thread runs next when the running one blocks, yields, is
  preempted or exits, what happens to the run queue and to the interrupt level, and what the thread
  finds when it runs again.  The lemmas are proved once for the run queue interface, so every
  property covers the ready list and the queues of the advanced scheduler.
\<close>

section \<open>Choosing and switching\<close>

lemma upd_set_lists:
  "(upd_thread t f s)\<lparr>lists := h\<rparr> = upd_thread t f (s\<lparr>lists := h\<rparr>)"
  "(upd_cpu g s)\<lparr>lists := h\<rparr> = upd_cpu g (s\<lparr>lists := h\<rparr>)"
  by (simp_all add: upd_thread_def upd_cpu_def)

definition run_next :: "('l, 'i, 'p) externs \<Rightarrow> ('l, 'i, 'p) kstate \<Rightarrow> thread_ptr option" where
  "run_next E s = (case run_order E s of [] \<Rightarrow> idle_thread s | t # ts \<Rightarrow> Some t)"

lemma run_next_simps [simp]:
  "run_next E (upd_thread t f s) = run_next E s" "run_next E (upd_cpu g s) = run_next E s"
  by (simp_all add: run_next_def split: list.split)

text \<open>The state after a completed switch: the new thread is marked as running with a fresh time slice, and
  the page of a thread that has exited goes back to the allocator.\<close>

definition switched_in ::
    "('l, 'i, 'p) externs \<Rightarrow> thread_ptr \<Rightarrow> ('l, 'i, 'p) kstate \<Rightarrow> ('l, 'i, 'p) kstate" where
  "switched_in E prev s =
    (let s' = (upd_thread (running s) (status_update (\<lambda>_. THREAD_RUNNING)) s)\<lparr>thread_ticks := 0\<rparr>
     in if status (threads s prev) = THREAD_DYING \<and> Some prev \<noteq> initial_thread s
        then s'\<lparr>pages := palloc_free_page E prev (pages s)\<rparr> else s')"

lemma thread_schedule_tail_switched:
  assumes "level E s = INTR_OFF" and "prev \<noteq> running s"
  shows "thread_schedule_tail E (Some prev) s = Inr (switched_in E prev s)"
  using assms by (simp add: thread_schedule_tail_def switched_in_def running_thread_def Let_def upd_thread_def)

lemma switched_in_simps [simp]:
  "lists (switched_in E prev s) = lists s" "cpu (switched_in E prev s) = cpu s"
  "running (switched_in E prev s) = running s" "thread_ticks (switched_in E prev s) = 0"
  "threads (switched_in E prev s) =
    (threads s)(running s := (threads s (running s))\<lparr>status := THREAD_RUNNING\<rparr>)"
  by (simp_all add: switched_in_def Let_def)

lemma pages_switched_in:
  "pages (switched_in E prev s) =
    (if status (threads s prev) = THREAD_DYING \<and> Some prev \<noteq> initial_thread s
     then palloc_free_page E prev (pages s) else pages s)"
  by (simp add: switched_in_def Let_def)

context kernel_env
begin

lemma schedule_switches:
  assumes ok: "run_ok E s" and nxt: "run_next E s = Some n"
    and off: "level E s = INTR_OFF" and st: "status (threads s (running s)) \<noteq> THREAD_RUNNING"
    and m: "magic (threads s n) = THREAD_MAGIC" and n: "n \<noteq> running s"
  shows "\<exists>h. schedule E s = Switch (running s) n (s\<lparr>lists := h\<rparr>)
      (\<lambda>prev. katomic (thread_schedule_tail E (Some prev))) \<and>
    run_order E (s\<lparr>lists := h\<rparr>) = tl (run_order E s) \<and> run_ok E (s\<lparr>lists := h\<rparr>) \<and>
    run_frame E n (lists s) h"
proof (cases "run_order E s")
  case Nil
  then show ?thesis
    using run.dequeue_empty [OF ok Nil] assms
    by (intro exI [of _ "lists s"]) (simp add: schedule_def running_thread_def Let_def run_next_def run_frame_def)
next
  case (Cons t ts)
  then show ?thesis
    using run.dequeue_front [OF ok Cons] assms
    by (auto simp: schedule_def running_thread_def Let_def run_next_def)
qed

lemma schedule_same:
  assumes ok: "run_ok E s" and q: "run_order E s = running s # ts"
    and off: "level E s = INTR_OFF" and st: "status (threads s (running s)) \<noteq> THREAD_RUNNING"
    and m: "magic (threads s (running s)) = THREAD_MAGIC"
  shows "\<exists>h. schedule E s =
      Done () ((upd_thread (running s) (status_update (\<lambda>_. THREAD_RUNNING)) (s\<lparr>lists := h\<rparr>))\<lparr>thread_ticks := 0\<rparr>) \<and>
    run_order E (s\<lparr>lists := h\<rparr>) = ts \<and> run_ok E (s\<lparr>lists := h\<rparr>)"
  using run.dequeue_front [OF ok q] off st m
  by (auto simp: schedule_def thread_schedule_tail_def running_thread_def katomic_def Let_def)

lemma run_fits_fresh:
  assumes "run_ok E s" and "run_fits E t s"
  shows "t \<notin> set (run_order E s)"
proof
  assume "t \<in> set (run_order E s)"
  then obtain e l where e: "e \<in> set (elems E s l)" "list_entry e = t" "member_of e = Elem"
    using assms(1) by (auto simp: run_order_def run_ok_def mlfqs_queue_def ready_queue_def mlfqs_ok_def
        ready_ok_def mlfqs_queues_ok_def split: if_splits)
  from e(2,3) have "elem_of t = e" by (cases e) simp
  with e(1) run_fits_unlinked [OF assms(2)] show False by (auto simp: unlinked_def)
qed

lemma front_not_lower: "run_ok E s \<Longrightarrow> u \<in> set (tl (run_order E s)) \<Longrightarrow> \<not> higher s u (hd (run_order E s))"
  using run.front_is_highest [of s "hd (run_order E s)" "tl (run_order E s)" u]
  by (cases "run_order E s") simp_all

end

section \<open>Blocking\<close>

context kernel_env
begin

lemma block_switches:
  assumes cpu: "on_cpu s" and off: "level E s = INTR_OFF"
    and nint: "\<not> intr_context E (cpu s)" and ok: "run_ok E s"
    and nxt: "run_next E s = Some n" and m: "magic (threads s n) = THREAD_MAGIC" and n: "n \<noteq> running s"
  shows "\<exists>h. switches (thread_block E s) (running s) n
      ((upd_thread (running s) (status_update (\<lambda>_. THREAD_BLOCKED)) s)\<lparr>lists := h\<rparr>)
      (\<lambda>prev. katomic (thread_schedule_tail E (Some prev))) \<and>
    run_order E (s\<lparr>lists := h\<rparr>) = tl (run_order E s) \<and> run_ok E (s\<lparr>lists := h\<rparr>) \<and>
    run_frame E n (lists s) h"
proof -
  let ?s1 = "upd_thread (running s) (status_update (\<lambda>_. THREAD_BLOCKED)) s"
  have "run_next E ?s1 = Some n" using nxt by simp
  with ok off n m obtain h where h: "schedule E ?s1 = Switch (running s) n (?s1\<lparr>lists := h\<rparr>)
        (\<lambda>prev. katomic (thread_schedule_tail E (Some prev)))"
      "run_order E (?s1\<lparr>lists := h\<rparr>) = tl (run_order E s)" "run_ok E (?s1\<lparr>lists := h\<rparr>)"
      "run_frame E n (lists s) h"
    using schedule_switches [of ?s1 n] by auto
  have "switches (thread_block E s) (running s) n (?s1\<lparr>lists := h\<rparr>)
      (\<lambda>prev. katomic (thread_schedule_tail E (Some prev)))"
    using cpu off nint h(1) by (simp add: thread_block_def kernel_defs)
  with h(2-) show ?thesis by (intro exI [of _ h]) (simp add: upd_set_lists)
qed

end

text \<open>C20. A thread that blocks (interrupts off, not in an interrupt handler) is marked as blocked and
  hands the processor to the front of the run queue, to which no queued thread is preferable, or to
  the idle thread when the queue is empty.  The queue loses exactly that thread, and no other list changes.  When the blocked
  thread is switched to again, \<open>thread_block\<close> returns with the thread marked as running, a new time
  slice and the rest of the state as it was found.\<close>

theorem thread_block_correct:
  assumes E: "kernel_env E" and cpu: "on_cpu s" and off: "level E s = INTR_OFF"
    and nint: "\<not> intr_context E (cpu s)" and ok: "run_ok E s"
    and nxt: "run_next E s = Some n" and m: "magic (threads s n) = THREAD_MAGIC" and n: "n \<noteq> running s"
  shows "\<exists>h r. switches (thread_block E s) (running s) n
      ((upd_thread (running s) (status_update (\<lambda>_. THREAD_BLOCKED)) s)\<lparr>lists := h\<rparr>) r \<and>
    run_order E (s\<lparr>lists := h\<rparr>) = tl (run_order E s) \<and> run_ok E (s\<lparr>lists := h\<rparr>) \<and>
    (\<forall>l. \<not> run_list l \<longrightarrow> list_elems E l h = elems E s l) \<and>
    (\<forall>u \<in> set (tl (run_order E s)). priority (threads s u) \<le> priority (threads s n)) \<and>
    (\<forall>prev s'. running s' = running s \<and> level E s' = INTR_OFF \<and> prev \<noteq> running s \<longrightarrow>
      returns (r prev s') () (switched_in E prev s'))"
proof -
  have "\<forall>u \<in> set (tl (run_order E s)). priority (threads s u) \<le> priority (threads s n)"
    using nxt kernel_env.front_not_lower [OF E ok]
    by (auto simp: run_next_def higher_def not_less split: list.splits)
  moreover have "returns (katomic (thread_schedule_tail E (Some prev)) s') () (switched_in E prev s')"
    if "running s' = running s \<and> level E s' = INTR_OFF \<and> prev \<noteq> running s" for prev s'
    using that thread_schedule_tail_switched [of E s' prev] by (simp add: katomic_def)
  ultimately show ?thesis using kernel_env.block_switches [OF E cpu off nint ok nxt m n]
    unfolding run_frame_def by blast
qed

section \<open>Yielding\<close>

context kernel_env
begin

lemma yield_enqueues:
  assumes ok: "run_ok E s" and fits: "run_fits E (running s) s"
  shows "\<exists>h. run_insert E (running s) (upd_cpu (\<lambda>i. snd (intr_disable E i)) s) =
      Inr (upd_cpu (\<lambda>i. snd (intr_disable E i)) (s\<lparr>lists := h\<rparr>)) \<and>
    run_order E (s\<lparr>lists := h\<rparr>) = ins_before (higher s) (running s) (run_order E s) \<and> run_ok E (s\<lparr>lists := h\<rparr>) \<and>
    run_frame E (running s) (lists s) h"
  using run.enqueue_ordered [of "upd_cpu (\<lambda>i. snd (intr_disable E i)) s" "running s"] assms
  by (simp add: upd_set_lists)

lemma yield_keeps:
  assumes cpu: "on_cpu s" and nint: "\<not> intr_context E (cpu s)" and ok: "run_ok E s"
    and idle: "Some (running s) \<noteq> idle_thread s" and fits: "run_fits E (running s) s"
    and top: "run_order E s = [] \<or> higher s (running s) (hd (run_order E s))"
  shows "\<exists>s'. returns (thread_yield E s) () s' \<and> run_order E s' = run_order E s \<and> run_ok E s' \<and>
    threads s' = threads s \<and> running s' = running s \<and> level E s' = level E s \<and> thread_ticks s' = 0"
proof -
  let ?off = "upd_cpu (\<lambda>i. snd (intr_disable E i))"
  obtain h where h: "run_insert E (running s) (?off s) = Inr (?off (s\<lparr>lists := h\<rparr>))"
      "run_order E (s\<lparr>lists := h\<rparr>) = ins_before (higher s) (running s) (run_order E s)" "run_ok E (s\<lparr>lists := h\<rparr>)"
    using yield_enqueues [OF ok fits] by blast
  let ?s2 = "upd_thread (running s) (status_update (\<lambda>_. THREAD_READY)) (?off (s\<lparr>lists := h\<rparr>))"
  have "run_order E ?s2 = running ?s2 # run_order E s"
    using h(2) top by (cases "run_order E s") (auto simp: ins_before_Cons)
  then obtain h' where h': "schedule E ?s2 = Done () ((upd_thread (running s)
        (status_update (\<lambda>_. THREAD_RUNNING)) (?s2\<lparr>lists := h'\<rparr>))\<lparr>thread_ticks := 0\<rparr>)"
      "run_order E (?s2\<lparr>lists := h'\<rparr>) = run_order E s" "run_ok E (?s2\<lparr>lists := h'\<rparr>)"
    using schedule_same [of ?s2 "run_order E s"] h(3) cpu by (auto simp: intr_laws on_cpu_def)
  let ?s3 = "(upd_thread (running s) (status_update (\<lambda>_. THREAD_RUNNING)) (?s2\<lparr>lists := h'\<rparr>))\<lparr>thread_ticks := 0\<rparr>"
  have eq: "threads ?s3 = threads s"
    using cpu by (auto simp: fun_eq_iff on_cpu_def)
  have "run_order E ?s3 = run_order E s" using h'(2) by (subst run_order_cong [of _ "?s2\<lparr>lists := h'\<rparr>"]) simp_all
  moreover have "run_ok E ?s3" using h'(3) by (subst run_ok_cong [of _ "?s2\<lparr>lists := h'\<rparr>"]) auto
  moreover have "returns (thread_yield E s) () (upd_cpu (intr_set_level E (level E s)) ?s3)"
    using cpu nint idle h(1) h'(1)
    by (simp add: thread_yield_def kernel_defs kdisable_def kset_level_def intr_laws)
  ultimately show ?thesis using eq
    by (intro exI [of _ "upd_cpu (intr_set_level E (level E s)) ?s3"]) (simp add: intr_laws)
qed

lemma yield_switches:
  assumes cpu: "on_cpu s" and nint: "\<not> intr_context E (cpu s)" and ok: "run_ok E s"
    and idle: "Some (running s) \<noteq> idle_thread s" and fits: "run_fits E (running s) s"
    and q: "run_order E s = n # ts" and low: "\<not> higher s (running s) n"
    and m: "magic (threads s n) = THREAD_MAGIC"
  shows "\<exists>s'. switches (thread_yield E s) (running s) n s'
      (\<lambda>prev s2. kbind (katomic (thread_schedule_tail E (Some prev)) s2) (\<lambda>_. kset_level E (level E s))) \<and>
    run_order E s' = ins_before (higher s) (running s) ts \<and> run_ok E s' \<and> level E s' = INTR_OFF \<and>
    threads s' = (threads s)(running s := (threads s (running s))\<lparr>status := THREAD_READY\<rparr>) \<and>
    (\<forall>l. \<not> run_list l \<longrightarrow> elems E s' l = elems E s l)"
proof -
  let ?off = "upd_cpu (\<lambda>i. snd (intr_disable E i))"
  obtain h where h: "run_insert E (running s) (?off s) = Inr (?off (s\<lparr>lists := h\<rparr>))"
      "run_order E (s\<lparr>lists := h\<rparr>) = ins_before (higher s) (running s) (run_order E s)" "run_ok E (s\<lparr>lists := h\<rparr>)"
      "run_frame E (running s) (lists s) h"
    using yield_enqueues [OF ok fits] by blast
  let ?s2 = "upd_thread (running s) (status_update (\<lambda>_. THREAD_READY)) (?off (s\<lparr>lists := h\<rparr>))"
  have n: "n \<noteq> running s" using run_fits_fresh [OF ok fits] q by auto
  have o: "run_order E ?s2 = n # ins_before (higher s) (running s) ts"
    using h(2) low by (simp add: q ins_before_Cons)
  then have "run_next E ?s2 = Some n" by (simp add: run_next_def)
  then obtain h' where h': "schedule E ?s2 = Switch (running s) n (?s2\<lparr>lists := h'\<rparr>)
        (\<lambda>prev. katomic (thread_schedule_tail E (Some prev)))"
      "run_order E (?s2\<lparr>lists := h'\<rparr>) = ins_before (higher s) (running s) ts" "run_ok E (?s2\<lparr>lists := h'\<rparr>)"
      "run_frame E n h h'"
    using schedule_switches [of ?s2 n] h(3) o m n by (auto simp: intr_laws)
  have "switches (thread_yield E s) (running s) n (?s2\<lparr>lists := h'\<rparr>)
      (\<lambda>prev s2. kbind (katomic (thread_schedule_tail E (Some prev)) s2) (\<lambda>_. kset_level E (level E s)))"
    using cpu nint idle h(1) h'(1)
    by (simp add: thread_yield_def kernel_defs kdisable_def kset_level_def intr_laws fun_eq_iff)
  moreover have "\<forall>l. \<not> run_list l \<longrightarrow> list_elems E l h' = elems E s l"
    using h(4) h'(4) by (simp add: run_frame_def)
  ultimately show ?thesis using h'(2,3) by (intro exI [of _ "?s2\<lparr>lists := h'\<rparr>"]) (simp add: intr_laws)
qed

end

text \<open>C7. A thread that yields keeps the processor exactly when the run queue is empty or its priority is
  above that of every queued thread; the queue is then unchanged and a new time slice begins.
  Otherwise the front of the queue runs, a thread of the highest queued priority, and the yielding
  thread is queued behind all threads of its own or a higher priority.  In both cases the interrupt level
  that held before the call holds again when the call returns.\<close>

theorem thread_yield_correct:
  assumes E: "kernel_env E" and cpu: "on_cpu s" and nint: "\<not> intr_context E (cpu s)" and ok: "run_ok E s"
    and idle: "Some (running s) \<noteq> idle_thread s" and fits: "run_fits E (running s) s"
    and m: "\<forall>t \<in> set (run_order E s). magic (threads s t) = THREAD_MAGIC"
  shows "(if \<forall>t \<in> set (run_order E s). priority (threads s t) < priority (threads s (running s)) then
      \<exists>s'. returns (thread_yield E s) () s' \<and> run_order E s' = run_order E s \<and> run_ok E s' \<and>
        threads s' = threads s \<and> running s' = running s \<and> level E s' = level E s \<and> thread_ticks s' = 0
    else \<exists>n ts s' r. run_order E s = n # ts \<and> switches (thread_yield E s) (running s) n s' r \<and>
        (\<forall>u \<in> set ts. priority (threads s u) \<le> priority (threads s n)) \<and>
        run_order E s' = ins_before (higher s) (running s) ts \<and> run_ok E s' \<and> level E s' = INTR_OFF \<and>
        threads s' = (threads s)(running s := (threads s (running s))\<lparr>status := THREAD_READY\<rparr>) \<and>
        (\<forall>prev s2. running s2 = running s \<and> level E s2 = INTR_OFF \<and> prev \<noteq> running s \<longrightarrow>
          (\<exists>s3. returns (r prev s2) () s3 \<and> level E s3 = level E s \<and> threads s3 = threads (switched_in E prev s2) \<and>
            lists s3 = lists s2 \<and> thread_ticks s3 = 0)))"
proof (cases "run_order E s")
  case Nil
  with kernel_env.yield_keeps [OF E cpu nint ok idle fits] show ?thesis by simp
next
  case (Cons n ts)
  have front: "priority (threads s u) \<le> priority (threads s n)" if "u \<in> set ts" for u
    using kernel_env.front_not_lower [OF E ok, of u] that by (simp add: Cons higher_def)
  then have all: "(\<forall>t \<in> set (run_order E s). priority (threads s t) < priority (threads s (running s))) \<longleftrightarrow>
      higher s (running s) n"
    by (force simp: Cons higher_def)
  show ?thesis
  proof (cases "higher s (running s) n")
    case True
    with kernel_env.yield_keeps [OF E cpu nint ok idle fits] show ?thesis unfolding all by (simp add: Cons)
  next
    case False
    let ?r = "\<lambda>prev s2. kbind (katomic (thread_schedule_tail E (Some prev)) s2) (\<lambda>_. kset_level E (level E s))"
    obtain s' where s': "switches (thread_yield E s) (running s) n s' ?r"
        "run_order E s' = ins_before (higher s) (running s) ts" "run_ok E s'" "level E s' = INTR_OFF"
        "threads s' = (threads s)(running s := (threads s (running s))\<lparr>status := THREAD_READY\<rparr>)"
      using kernel_env.yield_switches [OF E cpu nint ok idle fits Cons False] m by (auto simp: Cons)
    have "\<exists>s3. returns (?r prev s2) () s3 \<and> level E s3 = level E s \<and> threads s3 = threads (switched_in E prev s2) \<and>
        lists s3 = lists s2 \<and> thread_ticks s3 = 0"
      if "running s2 = running s \<and> level E s2 = INTR_OFF \<and> prev \<noteq> running s" for prev s2
      using that thread_schedule_tail_switched [of E s2 prev] kernel_env.axioms(2) [OF E]
      by (simp add: katomic_def kset_level_def kmodify_def intr_lib.get_set)
    with s' front False show ?thesis unfolding all
      by (simp only: if_False) (intro exI [of _ n] exI [of _ ts] exI [of _ s'] exI [of _ ?r], simp add: Cons)
  qed
qed

section \<open>Preemption\<close>

text \<open>What the test does, as an outcome: it yields exactly when the front of the run queue is higher.\<close>

definition preempted :: "('l, 'i, 'p) externs \<Rightarrow> ('l, 'i, 'p) kstate \<Rightarrow> bool" where
  "preempted E s \<longleftrightarrow> run_order E s \<noteq> [] \<and> higher s (hd (run_order E s)) (running s)"

context kernel_env
begin

lemma preempted_iff:
  assumes "run_ok E s"
  shows "preempted E s \<longleftrightarrow> (\<exists>t \<in> set (run_order E s). higher s t (running s))"
proof (cases "run_order E s")
  case (Cons n ts)
  then show ?thesis
    using front_not_lower [OF assms] by (force simp: preempted_def higher_def)
qed (simp add: preempted_def)

lemma mlfqs_highest_eq:
  assumes "mlfqs_queues_ok E s" and "set is \<subseteq> {PRI_MIN..PRI_MAX}"
  defines "p \<equiv> \<lambda>is. case concat (map (\<lambda>i. elems E s (Mlfqs_list i)) is) of [] \<Rightarrow> - 1 | e # es \<Rightarrow> priority (threads s (list_entry e))"
  shows "returns (mlfqs_highest E is f s) v s' = returns (f (p is) s) v s' \<and>
    switches (mlfqs_highest E is f s) q n s' r = switches (f (p is) s) q n s' r"
  using assms(2)
proof (induction "is")
  case (Cons i "is")
  then show ?case using assms(1)
    by (cases "elems E s (Mlfqs_list i)") (auto simp: p_def kernel_defs list_empty_iff mlfqs_queues_ok_def)
qed (simp add: p_def)

lemma mlfqs_highest_front:
  assumes "run_ok E s" and "thread_mlfqs s"
  defines "p \<equiv> case run_order E s of [] \<Rightarrow> - 1 | t # ts \<Rightarrow> priority (threads s t)"
  shows "returns (mlfqs_highest E (rev [PRI_MIN..PRI_MAX]) f s) v s' = returns (f p s) v s'"
    "switches (mlfqs_highest E (rev [PRI_MIN..PRI_MAX]) f s) q n s' r = switches (f p s) q n s' r"
  using assms(1,2) mlfqs_highest_eq [of s "rev [PRI_MIN..PRI_MAX]"] unfolding p_def
  by (cases "concat (map (\<lambda>i. elems E s (Mlfqs_list i)) (rev [PRI_MIN..PRI_MAX]))";
      simp add: run_ok_def mlfqs_ok_def run_order_def mlfqs_queue_def del: concat_eq_Nil_conv)+

text \<open>An uninterrupted run of the test: it goes on with a yield or not at all.\<close>

lemma preemption_check_runs:
  assumes cpu: "on_cpu s" and ok: "run_ok E s" and pos: "PRI_MIN \<le> priority (threads s (running s))"
  shows "(\<not> preempted E s \<longrightarrow> returns (preemption_check E s) () s) \<and>
    (preempted E s \<and> intr_context E (cpu s) \<longrightarrow>
      returns (preemption_check E s) () (upd_cpu (intr_yield_on_return E) s)) \<and>
    (preempted E s \<and> \<not> intr_context E (cpu s) \<longrightarrow>
      (\<forall>p n s' r. switches (thread_yield E s) p n s' r \<longrightarrow> switches (preemption_check E s) p n s' r))"
proof (cases "thread_mlfqs s")
  case True
  then show ?thesis
    using cpu pos mlfqs_highest_front [OF ok True]
    by (auto simp: preemption_check_def mlfqs_check_preemption_def kernel_defs preempted_def higher_def kernel_consts
        split: list.splits)
next
  case False
  then have "run_order E s = map list_entry (elems E s Ready_list)" by (simp add: run_order_def ready_queue_def)
  with False show ?thesis
    using cpu front_eq [of Ready_list "lists s"]
    by (cases "elems E s Ready_list")
      (auto simp: preemption_check_def check_preemption_def front_thread_def kernel_defs preempted_def higher_def list_empty_iff)
qed

end

context kernel_env
begin

lemma preemption_runs:
  assumes cpu: "on_cpu s" and ok: "run_ok E s"
    and idle: "Some (running s) \<noteq> idle_thread s" and fits: "run_fits E (running s) s"
    and pos: "PRI_MIN \<le> priority (threads s (running s))"
    and m: "\<forall>t \<in> set (run_order E s). magic (threads s t) = THREAD_MAGIC"
  shows "(if \<exists>t \<in> set (run_order E s). priority (threads s t) > priority (threads s (running s)) then
      (if intr_context E (cpu s) then
        returns (preemption_check E s) () (upd_cpu (intr_yield_on_return E) s) \<and>
        intr_yield_pending E (cpu (upd_cpu (intr_yield_on_return E) s))
      else \<exists>n ts s' r. run_order E s = n # ts \<and> switches (preemption_check E s) (running s) n s' r \<and>
        priority (threads s n) > priority (threads s (running s)) \<and>
        (\<forall>u \<in> set ts. priority (threads s u) \<le> priority (threads s n)) \<and>
        run_order E s' = ins_before (higher s) (running s) ts \<and> run_ok E s')
    else returns (preemption_check E s) () s)"
proof -
  have ex: "(\<exists>t \<in> set (run_order E s). priority (threads s t) > priority (threads s (running s))) \<longleftrightarrow>
      preempted E s"
    using preempted_iff [OF ok] by (simp add: higher_def)
  note check = preemption_check_runs [OF cpu ok pos]
  show ?thesis
  proof (cases "preempted E s \<and> \<not> intr_context E (cpu s)")
    case True
    then obtain n ts where q: "run_order E s = n # ts" and n: "higher s n (running s)"
      by (cases "run_order E s") (auto simp: preempted_def)
    have "\<not> higher s (running s) n" using n by (simp add: higher_def)
    with yield_switches [OF cpu _ ok idle fits q] True m q
    obtain s' r where "switches (thread_yield E s) (running s) n s' r"
      "run_order E s' = ins_before (higher s) (running s) ts" "run_ok E s'" by auto
    moreover have "\<forall>u \<in> set ts. priority (threads s u) \<le> priority (threads s n)"
      using front_not_lower [OF ok] by (auto simp: q higher_def not_less)
    moreover from calculation(1) True check
    have "switches (preemption_check E s) (running s) n s' r" by blast
    ultimately show ?thesis unfolding ex using True q n
      by (simp add: higher_def) (intro exI [of _ s'] conjI exI [of _ r])
  next
    case False
    with check show ?thesis unfolding ex
      using pending_yield by auto
  qed
qed

end

text \<open>C12. The preemption test after a thread has become ready keeps the scheduler's promise in either mode.
  If no queued thread has a higher priority than the running one, nothing happens.  Otherwise the
  running thread gives way: in an interrupt handler a yield is requested for the end of the handler and nothing
  else changes; in a thread the processor goes to a queued thread whose priority is above the running
  one's and at least that of every other queued thread.\<close>

theorem preemption_correct:
  assumes E: "kernel_env E" and cpu: "on_cpu s" and ok: "run_ok E s"
    and idle: "Some (running s) \<noteq> idle_thread s" and fits: "run_fits E (running s) s"
    and pos: "PRI_MIN \<le> priority (threads s (running s))"
    and m: "\<forall>t \<in> set (run_order E s). magic (threads s t) = THREAD_MAGIC"
  shows "(if \<exists>t \<in> set (run_order E s). priority (threads s t) > priority (threads s (running s)) then
      (if intr_context E (cpu s) then
        returns (preemption_check E s) () (upd_cpu (intr_yield_on_return E) s) \<and>
        intr_yield_pending E (cpu (upd_cpu (intr_yield_on_return E) s))
      else \<exists>n ts s' r. run_order E s = n # ts \<and> switches (preemption_check E s) (running s) n s' r \<and>
        priority (threads s n) > priority (threads s (running s)) \<and>
        (\<forall>u \<in> set ts. priority (threads s u) \<le> priority (threads s n)) \<and>
        run_order E s' = ins_before (higher s) (running s) ts \<and> run_ok E s')
    else returns (preemption_check E s) () s)"
  using assms by (rule kernel_env.preemption_runs)

section \<open>Unblocking\<close>

text \<open>The thread that \<open>thread_unblock\<close> leaves behind: ready, and in the advanced scheduler with a fresh priority.\<close>

definition readied :: "('l, 'i, 'p) kstate \<Rightarrow> thread_ptr \<Rightarrow> thread" where
  "readied s t = (threads s t)\<lparr>status := THREAD_READY,
    priority := (if thread_mlfqs s then mlfqs_priority_spec (threads s t) else priority (threads s t))\<rparr>"

definition wakeable :: "('l, 'i, 'p) kstate \<Rightarrow> thread_ptr \<Rightarrow> bool" where
  "wakeable s t \<longleftrightarrow> magic (threads s t) = THREAD_MAGIC \<and> status (threads s t) = THREAD_BLOCKED \<and>
    (thread_mlfqs s \<longrightarrow> mlfqs_inputs_ok (threads s t) \<and> Some t \<noteq> idle_thread s)"

definition unblock_ok :: "('l, 'i, 'p) externs \<Rightarrow> thread_ptr \<Rightarrow> ('l, 'i, 'p) kstate \<Rightarrow> bool" where
  "unblock_ok E t s \<longleftrightarrow> wakeable s t \<and> unlinked E (elem_of t) (lists s)"

lemma mlfqs_update_priority_inputs:
  "mlfqs_inputs_ok (threads s t) \<Longrightarrow> Some t \<noteq> idle_thread s \<Longrightarrow>
    mlfqs_update_priority t s = Inr (upd_thread t (priority_update (\<lambda>_. mlfqs_priority_spec (threads s t))) s)"
  by (rule mlfqs_update_priority_eq) (auto simp: mlfqs_inputs_ok_def kernel_consts)

context kernel_env
begin

lemma thread_unblock_insert:
  assumes "unblock_ok E t s"
  shows "thread_unblock E t s =
    res_bind (run_insert E t (upd_thread t (\<lambda>_. readied s t) (upd_cpu (\<lambda>i. snd (intr_disable E i)) s)))
      (\<lambda>s'. Inr (upd_cpu (intr_set_level E (level E s)) s'))"
proof -
  let ?s2 = "upd_thread t (status_update (\<lambda>_. THREAD_READY)) (upd_cpu (\<lambda>i. snd (intr_disable E i)) s)"
  have "mlfqs_update_priority t ?s2 = Inr (upd_thread t (priority_update (\<lambda>_. mlfqs_priority_spec (threads ?s2 t))) ?s2)"
    if "thread_mlfqs s"
    using assms that by (intro mlfqs_update_priority_inputs) (simp_all add: unblock_ok_def wakeable_def mlfqs_inputs_ok_def)
  then show ?thesis
    using assms by (simp add: thread_unblock_def run_insert_def readied_def unblock_ok_def wakeable_def Let_def intr_laws)
      (simp add: upd_thread_def upd_cpu_def mlfqs_priority_spec_def)
qed

lemma thread_unblock_enqueues:
  assumes u: "unblock_ok E t s" and ok: "run_ok E s"
  shows "\<exists>s'. thread_unblock E t s = Inr s' \<and>
    run_order E s' = ins_before (higher s') t (run_order E s) \<and> run_ok E s' \<and>
    threads s' = (threads s)(t := readied s t) \<and> level E s' = level E s \<and>
    (\<exists>h c. s' = s\<lparr>lists := h, cpu := c, threads := (threads s)(t := readied s t)\<rparr> \<and> run_frame E t (lists s) h \<and>
      intr_context E c = intr_context E (cpu s) \<and> intr_yield_pending E c = intr_yield_pending E (cpu s))"
proof -
  let ?s3 = "upd_thread t (\<lambda>_. readied s t) (upd_cpu (\<lambda>i. snd (intr_disable E i)) s)"
  have free: "unlinked E (elem_of t) (lists ?s3)" using u by (simp add: unblock_ok_def wakeable_def)
  then have "run_ok E ?s3" using ok by (simp add: run_ok_unlinked)
  moreover have "run_fits E t ?s3"
    using free mlfqs_priority_spec_range [of "threads s t"]
    by (simp add: run_fits_def ready_fits_def mlfqs_fits_def readied_def)
  ultimately obtain h where h: "run_insert E t ?s3 = Inr (?s3\<lparr>lists := h\<rparr>)"
      "run_order E (?s3\<lparr>lists := h\<rparr>) = ins_before (higher ?s3) t (run_order E s)" "run_ok E (?s3\<lparr>lists := h\<rparr>)"
      "run_frame E t (lists s) h"
    using run.enqueue_ordered [of ?s3 t] by auto
  define s' where "s' = upd_cpu (intr_set_level E (level E s)) (?s3\<lparr>lists := h\<rparr>)"
  have "thread_unblock E t s = Inr s'" using thread_unblock_insert [OF u] h(1) by (simp add: s'_def)
  moreover have "run_order E s' = ins_before (higher s') t (run_order E s)" "run_ok E s'"
    using h(2,3) by (simp_all add: s'_def)
  moreover have "s' = s\<lparr>lists := h, cpu := cpu s', threads := (threads s)(t := readied s t)\<rparr>"
    "threads s' = (threads s)(t := readied s t)"
    by (simp_all add: s'_def upd_thread_def upd_cpu_def)
  moreover have "level E s' = level E s" "intr_context E (cpu s') = intr_context E (cpu s)"
    "intr_yield_pending E (cpu s') = intr_yield_pending E (cpu s)"
    by (simp_all add: s'_def intr_laws)
  ultimately show ?thesis using h(4) by (intro exI [of _ s'] conjI exI [of _ h] exI [of _ "cpu s'"])
qed

end

text \<open>C24. Unblocking a blocked thread that is on no list marks it as ready and inserts it into the run queue
  behind every thread of its own or a higher priority and before every thread of a lower one, so that the
  queue stays sorted; in the advanced scheduler its priority is first computed afresh.  No other list and nothing else
  changes: the interrupt level is restored and, as the comment promises, the running thread is not preempted.\<close>

theorem thread_unblock_correct:
  assumes "kernel_env E" and "unblock_ok E t s" and "run_ok E s"
  shows "\<exists>s'. thread_unblock E t s = Inr s' \<and>
    run_order E s' = ins_before (higher s') t (run_order E s) \<and> run_ok E s' \<and>
    threads s' = (threads s)(t := readied s t) \<and> level E s' = level E s \<and>
    (\<exists>h c. s' = s\<lparr>lists := h, cpu := c, threads := (threads s)(t := readied s t)\<rparr> \<and> run_frame E t (lists s) h \<and>
      intr_context E c = intr_context E (cpu s) \<and> intr_yield_pending E c = intr_yield_pending E (cpu s))"
  using assms by (rule kernel_env.thread_unblock_enqueues)

section \<open>Ticks\<close>

text \<open>The timer interrupts that find the same thread running.\<close>

definition tick_run :: "('l, 'i, 'p) externs \<Rightarrow> nat \<Rightarrow> ('l, 'i, 'p) kstate \<Rightarrow> ('l, 'i, 'p) kstate res" where
  "tick_run E n s = res_fold (\<lambda>_. thread_tick E) [0..<n] s"

lemma tick_run_Suc: "tick_run E (Suc n) s = res_bind (tick_run E n s) (thread_tick E)"
  by (simp add: tick_run_def res_fold_append) (cases "res_fold (\<lambda>_. thread_tick E) [0..<n] s"; simp add: res_bind_def split: sum.split)

definition ticks_ok :: "nat \<Rightarrow> ('l, 'i, 'p) kstate \<Rightarrow> bool" where
  "ticks_ok n s \<longleftrightarrow> is_i64 (idle_ticks s + int n) \<and> is_i64 (kernel_ticks s + int n) \<and> 0 \<le> idle_ticks s \<and>
    0 \<le> kernel_ticks s \<and> is_i32 (recent_cpu (threads s (running s))) \<and>
    is_i32 (recent_cpu (threads s (running s)) + int n * F)"

definition charged :: "nat \<Rightarrow> ('l, 'i, 'p) kstate \<Rightarrow> ('l, 'i, 'p) kstate" where
  "charged n s =
    (if Some (running s) = idle_thread s then s\<lparr>idle_ticks := idle_ticks s + int n\<rparr>
     else let s' = s\<lparr>kernel_ticks := kernel_ticks s + int n\<rparr>
          in if thread_mlfqs s then upd_thread (running s) (\<lambda>th. th\<lparr>recent_cpu := recent_cpu th + int n * F\<rparr>) s' else s')
    \<lparr>thread_ticks := thread_ticks s + of_nat n\<rparr>"

lemma recent_cpu_increment:
  "recent_cpu_update (\<lambda>r. fp_add_int r 1) = (\<lambda>th. th\<lparr>recent_cpu := fp_add_int (recent_cpu th) 1\<rparr>)"
  by (rule ext) simp

lemma charged_zero: "charged 0 s = s"
  by (simp add: charged_def upd_thread_def)

lemma charged_simps [simp]:
  "running (charged n s) = running s" "cpu (charged n s) = cpu s" "lists (charged n s) = lists s"
  "thread_ticks (charged n s) = thread_ticks s + of_nat n" "on_cpu (charged n s) = on_cpu s"
  "idle_thread (charged n s) = idle_thread s" "thread_mlfqs (charged n s) = thread_mlfqs s"
  by (auto simp: charged_def Let_def on_cpu_def)

lemma thread_tick_charged:
  assumes cpu: "on_cpu s" and ok: "ticks_ok (Suc n) s"
  shows "thread_tick E (upd_cpu g (charged n s)) =
    Inr (upd_cpu (\<lambda>i. if TIME_SLICE \<le> thread_ticks s + of_nat (Suc n) then intr_yield_on_return E (g i) else g i)
      (charged (Suc n) s))"
proof -
  let ?r = "recent_cpu (threads s (running s)) + int n * F"
  have r: "fp_add_int ?r 1 = ?r + F"
    using ok by (simp add: ticks_ok_def fp_add_int_def i32_id is_i32_def)
  have i: "i64 (idle_ticks s + int n + 1) = idle_ticks s + int (Suc n)"
    "i64 (kernel_ticks s + int n + 1) = kernel_ticks s + int (Suc n)"
    using ok by (auto simp: ticks_ok_def i64_id algebra_simps)
  have "on_cpu (upd_cpu g (charged n s))" using cpu by (simp add: on_cpu_def charged_def Let_def)
  then show ?thesis
    using r i
    by (cases "Some (running s) = idle_thread s"; cases "thread_mlfqs s")
      (simp_all add: thread_tick_def recent_cpu_increment charged_def Let_def upd_cpu_def upd_thread_def
        add.assoc add.commute [of 1])
qed

text \<open>C26. The timer charges \<open>n\<close> ticks that find the same thread running: exactly one of the statistics grows, by
  \<open>n\<close> (idle ticks for the idle thread, kernel ticks for any other), and under the advanced scheduler the
  thread's \<open>recent_cpu\<close> grows by \<open>n\<close> units.  A thread that starts with a fresh time slice and no yield pending is
  asked to yield when the fourth tick has come and not before.\<close>

theorem thread_tick_time_slice:
  assumes E: "kernel_env E" and cpu: "on_cpu s" and fresh: "thread_ticks s = 0"
    and pending: "\<not> intr_yield_pending E (cpu s)" and n: "n < 4294967296" and ok: "ticks_ok n s"
  shows "\<exists>g. tick_run E n s = Inr (upd_cpu g (charged n s)) \<and>
    intr_get_level E (g (cpu s)) = level E s \<and> (intr_yield_pending E (g (cpu s)) \<longleftrightarrow> 4 \<le> n)"
  using n ok
proof (induction n)
  case 0
  show ?case using pending by (intro exI [of _ id]) (simp add: tick_run_def charged_zero upd_cpu_def)
next
  case (Suc n)
  have "ticks_ok n s" using Suc.prems(2) by (auto simp: ticks_ok_def is_i64_def is_i32_def)
  with Suc obtain g where g: "tick_run E n s = Inr (upd_cpu g (charged n s))"
    "intr_get_level E (g (cpu s)) = level E s" "intr_yield_pending E (g (cpu s)) \<longleftrightarrow> 4 \<le> n" by auto
  have slice: "TIME_SLICE \<le> (of_nat (Suc n) :: 32 word) \<longleftrightarrow> 4 \<le> Suc n"
    using Suc.prems(1) by (simp add: TIME_SLICE_def word_le_nat_alt unsigned_of_nat take_bit_nat_eq_self del: of_nat_Suc)
  let ?g = "\<lambda>i. if TIME_SLICE \<le> thread_ticks s + of_nat (Suc n) then intr_yield_on_return E (g i) else g i"
  have "tick_run E (Suc n) s = Inr (upd_cpu ?g (charged (Suc n) s))"
    using thread_tick_charged [OF cpu Suc.prems(2), of E g] g(1) by (simp add: tick_run_Suc)
  then show ?case using g(2,3) slice intr_lib.get_yield [OF kernel_env.axioms(2) [OF E]]
      intr_lib.pending_yield [OF kernel_env.axioms(2) [OF E]]
    by (intro exI [of _ ?g]) (auto simp: fresh simp del: of_nat_Suc)
qed

section \<open>Exit\<close>

text \<open>The run queue does not notice a change of any other list.\<close>

lemma run_queue_frame:
  assumes "linked_once E h" and "linked_once E (lists s)"
    and "\<And>l. run_list l \<Longrightarrow> list_elems E l h = elems E s l"
  shows "run_order E (s\<lparr>lists := h\<rparr>) = run_order E s" "run_ok E (s\<lparr>lists := h\<rparr>) = run_ok E s"
  using assms
  by (simp_all add: run_order_def ready_queue_def mlfqs_queue_def run_ok_def ready_ok_def mlfqs_ok_def mlfqs_queues_ok_def)

lemma run_ok_linked: "run_ok E s \<Longrightarrow> linked_once E (lists s)"
  by (simp add: run_ok_def ready_ok_def mlfqs_ok_def split: if_splits)

context list_lib
begin

lemma run_queue_insert_other:
  assumes "\<not> run_list l" and "run_ok E s" and "unlinked E e (lists s)"
    and "sorted_wrt (\<lambda>a b. \<not> lt b a) (elems E s l)"
  shows "run_order E (s\<lparr>lists := list_insert_ordered E l e lt (lists s)\<rparr>) = run_order E s"
    "run_ok E (s\<lparr>lists := list_insert_ordered E l e lt (lists s)\<rparr>)"
proof -
  note once = run_ok_linked [OF assms(2)]
  have "list_elems E k (list_insert_ordered E l e lt (lists s)) = elems E s k" if "run_list k" for k
    using that assms(1) by (auto simp: elems_insert_ordered [OF assms(3,4)])
  from run_queue_frame [OF linked_once_insert_ordered [OF once assms(3,4)] once this] assms(2)
  show "run_order E (s\<lparr>lists := list_insert_ordered E l e lt (lists s)\<rparr>) = run_order E s"
    "run_ok E (s\<lparr>lists := list_insert_ordered E l e lt (lists s)\<rparr>)" by simp_all
qed

lemma run_queue_pop_other:
  assumes "\<not> run_list l" and "run_ok E s" and es: "elems E s l = e # es"
  shows "run_order E (s\<lparr>lists := snd (list_pop_front E l (lists s))\<rparr>) = run_order E s"
    "run_ok E (s\<lparr>lists := snd (list_pop_front E l (lists s))\<rparr>)"
proof -
  note once = run_ok_linked [OF assms(2)]
  have "list_elems E k (snd (list_pop_front E l (lists s))) = elems E s k" if "run_list k" for k
    using that assms(1) by (auto simp: elems_pop_front [OF es])
  from run_queue_frame [OF linked_once_pop_front [OF once es] once this] assms(2)
  show "run_order E (s\<lparr>lists := snd (list_pop_front E l (lists s))\<rparr>) = run_order E s"
    "run_ok E (s\<lparr>lists := snd (list_pop_front E l (lists s))\<rparr>)" by simp_all
qed

lemma run_queue_push_other:
  assumes "\<not> run_list l" and "run_ok E s" and "unlinked E e (lists s)"
  shows "run_order E (s\<lparr>lists := list_push_back E l e (lists s)\<rparr>) = run_order E s"
    "run_ok E (s\<lparr>lists := list_push_back E l e (lists s)\<rparr>)"
proof -
  note once = run_ok_linked [OF assms(2)]
  have "list_elems E k (list_push_back E l e (lists s)) = elems E s k" if "run_list k" for k
    using that assms(1) by (auto simp: elems_push_back [OF assms(3)])
  from run_queue_frame [OF linked_once_push_back [OF once assms(3)] once this] assms(2)
  show "run_order E (s\<lparr>lists := list_push_back E l e (lists s)\<rparr>) = run_order E s"
    "run_ok E (s\<lparr>lists := list_push_back E l e (lists s)\<rparr>)" by simp_all
qed

lemma run_queue_remove_other:
  assumes "\<not> run_list l" and "run_ok E s" and e: "e \<in> set (elems E s l)"
  shows "run_order E (s\<lparr>lists := list_remove E e (lists s)\<rparr>) = run_order E s"
    "run_ok E (s\<lparr>lists := list_remove E e (lists s)\<rparr>)"
proof -
  note once = run_ok_linked [OF assms(2)]
  have "list_elems E k (list_remove E e (lists s)) = elems E s k" if "run_list k" for k
    using that assms(1) by (auto simp: elems_remove_once [OF once e])
  from run_queue_frame [OF linked_once_remove [OF once e] once this] assms(2)
  show "run_order E (s\<lparr>lists := list_remove E e (lists s)\<rparr>) = run_order E s"
    "run_ok E (s\<lparr>lists := list_remove E e (lists s)\<rparr>)" by simp_all
qed

end

context kernel_env
begin

lemma exit_switches:
  assumes cpu: "on_cpu s" and nint: "\<not> intr_context E (cpu s)" and ok: "run_ok E s"
    and all: "allelem_of (running s) \<in> set (elems E s All_list)"
    and nxt: "run_next E s = Some n" and m: "magic (threads s n) = THREAD_MAGIC" and n: "n \<noteq> running s"
  shows "\<exists>s' r. switches (thread_exit E s) (running s) n s' r \<and>
    threads s' = (threads s)(running s := (threads s (running s))\<lparr>status := THREAD_DYING\<rparr>) \<and>
    elems E s' All_list = remove1 (allelem_of (running s)) (elems E s All_list) \<and>
    run_order E s' = tl (run_order E s) \<and> run_ok E s' \<and> level E s' = INTR_OFF \<and>
    (\<forall>prev s2 v s3. \<not> returns (r prev s2) v s3)"
proof -
  let ?c = "running s"
  let ?off = "upd_cpu (\<lambda>i. snd (intr_disable E i))"
  let ?h1 = "list_remove E (allelem_of ?c) (lists s)"
  let ?s2 = "upd_thread ?c (status_update (\<lambda>_. THREAD_DYING)) (?off (s\<lparr>lists := ?h1\<rparr>))"
  note once = run_ok_linked [OF ok]
  note rem = elems_remove_once [OF once all]
  note frame = run_queue_remove_other [OF _ ok all, simplified]
  then have "run_next E ?s2 = Some n" using nxt by (simp add: run_next_def split: list.splits)
  then obtain h where h: "schedule E ?s2 = Switch ?c n (?s2\<lparr>lists := h\<rparr>)
        (\<lambda>prev. katomic (thread_schedule_tail E (Some prev)))"
      "run_order E (?s2\<lparr>lists := h\<rparr>) = tl (run_order E s)" "run_ok E (?s2\<lparr>lists := h\<rparr>)" "run_frame E n ?h1 h"
    using schedule_switches [of ?s2 n] frame m n by (auto simp: intr_laws)
  let ?r = "\<lambda>prev s2. kbind (katomic (thread_schedule_tail E (Some prev)) s2) (\<lambda>_ s. Panic Not_reached)"
  have up: "upd_lists (list_remove E (allelem_of ?c)) (?off s) = ?off (s\<lparr>lists := ?h1\<rparr>)"
    by (simp add: upd_lists_def upd_cpu_def)
  have cur: "on_cpu (?off s)" "on_cpu (?off (s\<lparr>lists := ?h1\<rparr>))" using cpu by (simp_all add: on_cpu_def)
  have "switches (thread_exit E s) ?c n (?s2\<lparr>lists := h\<rparr>) ?r"
    using cur nint h(1) by (simp add: thread_exit_def kernel_defs kdisable_def up)
  moreover have "list_elems E All_list h = remove1 (allelem_of ?c) (elems E s All_list)"
    using h(4) by (simp add: run_frame_def rem)
  ultimately show ?thesis using h(2,3)
    by (intro exI [of _ "?s2\<lparr>lists := h\<rparr>"] exI [of _ ?r]) (simp add: intr_laws returns_kbind_iff)
qed

end

text \<open>C25. A thread that exits leaves the list of all threads, is marked as dying and hands the processor to the
  next thread; its call of \<open>thread_exit\<close> never returns, whatever state it might be resumed in.  The
  thread that is switched to frees the page of the dying thread, unless that is the initial thread, whose
  page the allocator never handed out, and starts a new time slice.\<close>

theorem thread_exit_correct:
  assumes E: "kernel_env E" and cpu: "on_cpu s" and nint: "\<not> intr_context E (cpu s)" and ok: "run_ok E s"
    and all: "allelem_of (running s) \<in> set (elems E s All_list)"
    and nxt: "run_next E s = Some n" and m: "magic (threads s n) = THREAD_MAGIC" and n: "n \<noteq> running s"
  shows "\<exists>s' r. switches (thread_exit E s) (running s) n s' r \<and>
    threads s' = (threads s)(running s := (threads s (running s))\<lparr>status := THREAD_DYING\<rparr>) \<and>
    elems E s' All_list = remove1 (allelem_of (running s)) (elems E s All_list) \<and>
    run_order E s' = tl (run_order E s) \<and> run_ok E s' \<and>
    (\<forall>prev s2 v s3. \<not> returns (r prev s2) v s3) \<and>
    (\<exists>s2. thread_schedule_tail E (Some (running s)) (s'\<lparr>running := n\<rparr>) = Inr s2 \<and> on_cpu s2 \<and> thread_ticks s2 = 0 \<and>
      pages s2 = (if Some (running s) = initial_thread s' then pages s'
        else palloc_free_page E (running s) (pages s')))"
proof -
  obtain s' r where s': "switches (thread_exit E s) (running s) n s' r"
    "threads s' = (threads s)(running s := (threads s (running s))\<lparr>status := THREAD_DYING\<rparr>)"
    "elems E s' All_list = remove1 (allelem_of (running s)) (elems E s All_list)"
    "run_order E s' = tl (run_order E s)" "run_ok E s'" "level E s' = INTR_OFF"
    "\<forall>prev s2 v s3. \<not> returns (r prev s2) v s3"
    using kernel_env.exit_switches [OF E cpu nint ok all nxt m n] by blast
  have "thread_schedule_tail E (Some (running s)) (s'\<lparr>running := n\<rparr>) = Inr (switched_in E (running s) (s'\<lparr>running := n\<rparr>))"
    using s'(6) n by (simp add: thread_schedule_tail_switched)
  with s' m n show ?thesis
    by (intro exI [of _ s'] exI [of _ r]) (simp add: pages_switched_in on_cpu_def)
qed

section \<open>The advanced scheduler refines the priority scheduler\<close>

context list_lib
begin

lemmas idle_when_empty = mlfqs.dequeue_empty ready.dequeue_empty

end

text \<open>C21. The 64 queues of the advanced scheduler implement the sorted ready list.  Whenever the two represent the
  same sequence of threads, taking the next thread gives the same thread and the same sequence on both sides,
  and inserting a thread, which appends to one queue on the one side and searches the sorted list on the other,
  leads to the same sequence again; both invariants are kept.\<close>

theorem mlfqs_refines_ready:
  assumes L: "list_lib E" and a: "mlfqs_ok E a" and b: "ready_ok E b"
    and same: "mlfqs_queue E a = ready_queue E b" "threads a = threads b" "idle_thread a = idle_thread b"
  shows "(\<exists>n a' b'. mlfqs_next_thread_to_run E a = (n, a') \<and> ready_next E b = (n, b') \<and>
      mlfqs_queue E a' = ready_queue E b' \<and> mlfqs_ok E a' \<and> ready_ok E b') \<and>
    (\<forall>t. mlfqs_fits E t a \<and> ready_fits E t b \<longrightarrow>
      (\<exists>a'. mlfqs_insert E t a = Inr a' \<and> mlfqs_queue E a' = ready_queue E (ready_insert E t b) \<and>
        mlfqs_ok E a' \<and> ready_ok E (ready_insert E t b)))"
proof (intro conjI allI impI)
  show "\<exists>n a' b'. mlfqs_next_thread_to_run E a = (n, a') \<and> ready_next E b = (n, b') \<and>
      mlfqs_queue E a' = ready_queue E b' \<and> mlfqs_ok E a' \<and> ready_ok E b'"
  proof (cases "ready_queue E b")
    case Nil
    with same show ?thesis
      using list_lib.idle_when_empty [OF L] a b by simp
  next
    case (Cons t ts)
    obtain h where "mlfqs_next_thread_to_run E a = (Some t, a\<lparr>lists := h\<rparr>)"
      "mlfqs_queue E (a\<lparr>lists := h\<rparr>) = ts" "mlfqs_ok E (a\<lparr>lists := h\<rparr>)"
      using list_lib.mlfqs_dequeue [OF L a] same(1) Cons by metis
    moreover obtain k where "ready_next E b = (Some t, b\<lparr>lists := k\<rparr>)"
      "ready_queue E (b\<lparr>lists := k\<rparr>) = ts" "ready_ok E (b\<lparr>lists := k\<rparr>)"
      using list_lib.ready_dequeue [OF L b Cons] by metis
    ultimately show ?thesis by simp
  qed
next
  fix t assume "mlfqs_fits E t a \<and> ready_fits E t b"
  then have fits: "mlfqs_fits E t a" "ready_fits E t b" by simp_all
  have "higher a = higher b" using same(2) by (simp add: higher_def fun_eq_iff)
  with list_lib.mlfqs_enqueue [OF L a fits(1)] list_lib.ready_enqueue [OF L b fits(2)]
  show "\<exists>a'. mlfqs_insert E t a = Inr a' \<and> mlfqs_queue E a' = ready_queue E (ready_insert E t b) \<and>
      mlfqs_ok E a' \<and> ready_ok E (ready_insert E t b)"
    using same(1) by auto
qed

section \<open>Changing \<open>nice\<close>\<close>

text \<open>The state in which \<open>thread_set_nice\<close> looks for a preferable thread.\<close>

definition niced :: "int \<Rightarrow> ('l, 'i, 'p) kstate \<Rightarrow> ('l, 'i, 'p) kstate" where
  "niced v s = upd_thread (running s) (\<lambda>th. th\<lparr>nice := max NICE_MIN (min NICE_MAX v),
    priority := mlfqs_priority_spec (th\<lparr>nice := max NICE_MIN (min NICE_MAX v)\<rparr>)\<rparr>) s"

lemma niced_simps:
  "run_order E (niced v s) = run_order E s" "running (niced v s) = running s" "cpu (niced v s) = cpu s"
  "idle_thread (niced v s) = idle_thread s" "thread_mlfqs (niced v s) = thread_mlfqs s" "lists (niced v s) = lists s"
  "on_cpu (niced v s) = on_cpu s" "magic (threads (niced v s) t) = magic (threads s t)"
  by (simp_all add: niced_def on_cpu_def)

lemma niced_priority_range:
  "PRI_MIN \<le> priority (threads (niced v s) (running s)) \<and> priority (threads (niced v s) (running s)) \<le> PRI_MAX"
  using mlfqs_priority_spec_range by (simp add: niced_def)

text \<open>Uninterrupted, \<open>thread_set_nice\<close> is the preemption test in that state.\<close>

lemma thread_set_nice_runs:
  assumes cpu: "on_cpu s" and mode: "thread_mlfqs s" and idle: "Some (running s) \<noteq> idle_thread s"
    and r: "is_i32 (recent_cpu (threads s (running s)))"
  shows "returns (thread_set_nice E v s) () s' \<longleftrightarrow> returns (preemption_check E (niced v s)) () s'"
    "switches (thread_set_nice E v s) p n s' rest \<longleftrightarrow> switches (preemption_check E (niced v s)) p n s' rest"
proof -
  let ?c = "running s" and ?v = "max NICE_MIN (min NICE_MAX v)"
  let ?s1 = "upd_thread ?c (nice_update (\<lambda>_. ?v)) s"
  have cur: "on_cpu ?s1" using cpu by (simp add: on_cpu_def)
  have "mlfqs_update_priority ?c ?s1 = Inr (upd_thread ?c (priority_update (\<lambda>_. mlfqs_priority_spec (threads ?s1 ?c))) ?s1)"
    using r idle by (intro mlfqs_update_priority_inputs) (auto simp: mlfqs_inputs_ok_def kernel_consts)
  also have "\<dots> = Inr (niced v s)" by (simp add: niced_def upd_thread_def)
  finally have upd: "mlfqs_update_priority ?c ?s1 = Inr (niced v s)" .
  have clamp: "(let v = if v > NICE_MAX then NICE_MAX else v in if v < NICE_MIN then NICE_MIN else v) = ?v"
    by (simp add: Let_def kernel_consts max_def min_def)
  have body: "thread_set_nice E v s = Pause ?s1 (\<lambda>s1. kbind (kcall thread_current (\<lambda>cur. katomic (mlfqs_update_priority cur)) s1)
      (\<lambda>_. mlfqs_check_preemption E))"
    using cpu clamp by (simp add: thread_set_nice_def kernel_defs Let_def fun_eq_iff)
  show "returns (thread_set_nice E v s) () s' \<longleftrightarrow> returns (preemption_check E (niced v s)) () s'"
    "switches (thread_set_nice E v s) p n s' rest \<longleftrightarrow> switches (preemption_check E (niced v s)) p n s' rest"
    using cur upd mode by (simp_all add: body kernel_defs preemption_check_def niced_simps)
qed

text \<open>C35. \<open>thread_set_nice\<close> cuts its argument off at -20 and 20, stores it, computes the priority from it and
  then applies the preemption test: with no queued thread above the new priority it returns in exactly that
  state; otherwise the thread gives way to the front of the queue.\<close>

theorem thread_set_nice_correct:
  assumes E: "kernel_env E" and cpu: "on_cpu s" and ok: "run_ok E s" and mode: "thread_mlfqs s"
    and idle: "Some (running s) \<noteq> idle_thread s" and free: "unlinked E (elem_of (running s)) (lists s)"
    and nint: "\<not> intr_context E (cpu s)" and r: "is_i32 (recent_cpu (threads s (running s)))"
    and m: "\<forall>t \<in> set (run_order E s). magic (threads s t) = THREAD_MAGIC"
  shows "(if \<exists>t \<in> set (run_order E s). priority (threads s t) > priority (threads (niced v s) (running s)) then
      \<exists>n ts s' rest. run_order E s = n # ts \<and> switches (thread_set_nice E v s) (running s) n s' rest \<and>
        threads s' = (threads (niced v s))(running s := (threads (niced v s) (running s))\<lparr>status := THREAD_READY\<rparr>)
    else returns (thread_set_nice E v s) () (niced v s))"
proof -
  let ?s = "niced v s" and ?c = "running s"
  have cpu': "on_cpu ?s" using cpu by (simp add: niced_simps)
  have ok': "run_ok E ?s" using ok free by (simp add: niced_def run_ok_unlinked)
  have fits: "run_fits E ?c ?s"
    using free niced_priority_range mode by (simp add: run_fits_def mlfqs_fits_def niced_simps)
  have "priority (threads s t) = priority (threads ?s t)" if "t \<in> set (run_order E s)" for t
    using that kernel_env.run_fits_fresh [OF E ok', of ?c] fits by (auto simp: niced_def)
  then have ex: "(\<exists>t \<in> set (run_order E s). priority (threads s t) > priority (threads ?s ?c)) \<longleftrightarrow> preempted E ?s"
    using kernel_env.preempted_iff [OF E ok'] by (auto simp: higher_def niced_simps)
  note check = kernel_env.preemption_check_runs [OF E cpu' ok', unfolded niced_simps,
      OF conjunct1 [OF niced_priority_range]]
  note run = thread_set_nice_runs [OF cpu mode idle r]
  show ?thesis
  proof (cases "preempted E ?s")
    case True
    then obtain n ts where q: "run_order E ?s = n # ts" and n: "higher ?s n ?c"
      by (cases "run_order E ?s") (auto simp: preempted_def niced_simps)
    have "\<not> higher ?s (running ?s) n" using n by (simp add: higher_def niced_simps)
    from kernel_env.yield_switches [OF E cpu' _ ok' _ _ q this] nint idle fits m q
    obtain s' rest where "switches (thread_yield E ?s) ?c n s' rest"
      "threads s' = (threads ?s)(?c := (threads ?s ?c)\<lparr>status := THREAD_READY\<rparr>)" by (auto simp: niced_simps)
    with True check nint q show ?thesis unfolding ex run by (simp add: niced_simps) blast
  next
    case False
    with check show ?thesis unfolding ex run by simp
  qed
qed

section \<open>Examples\<close>

text \<open>
  Thread 1 runs with the given priority; threads 2 (priority 31) and 3 (priority 20) are ready, thread 4
  (priority 31) is blocked.
\<close>

definition sched_example :: "intr_level \<Rightarrow> int \<Rightarrow> ref_kstate" where
  "sched_example lv p = ref_state False lv
    (ref_threads ((\<lambda>_. (THREAD_READY, 31))(1 := (THREAD_RUNNING, p), 3 := (THREAD_READY, 20), 4 := (THREAD_BLOCKED, 31))))
    ((\<lambda>_. [])(Ready_list := [elem_of 2, elem_of 3], All_list := [allelem_of 1, allelem_of 2, allelem_of 3, allelem_of 4]))"

lemma sched_example_facts:
  "run_order ref_externs (sched_example lv p) = [2, 3]" "on_cpu (sched_example lv p)"
  "run_ok ref_externs (sched_example lv p)" "running (sched_example lv p) = 1"
  "run_fits ref_externs 1 (sched_example lv p)" "idle_thread (sched_example lv p) = Some 9"
  "cpu (sched_example lv p) = \<lparr>flag_level = lv, flag_context = False, flag_pending = False\<rparr>"
  "magic (threads (sched_example lv p) t) = THREAD_MAGIC" "thread_ticks (sched_example lv p) = 0"
  "threads (sched_example lv p) 1 = ref_thread THREAD_RUNNING p"
  "threads (sched_example lv p) 2 = ref_thread THREAD_READY 31"
  "threads (sched_example lv p) 3 = ref_thread THREAD_READY 20"
  "lists (sched_example lv p) All_list = [allelem_of 1, allelem_of 2, allelem_of 3, allelem_of 4]"
  by (auto simp: sched_example_def run_order_def ready_queue_def on_cpu_def ref_threads_def run_ok_def ready_ok_def
      linked_once_def less_priority_def run_fits_def ready_fits_def unlinked_def)

theorem thread_block_correct_witness:
  "\<exists>h r. switches (thread_block ref_externs (sched_example INTR_OFF 40)) 1 2
    ((upd_thread 1 (status_update (\<lambda>_. THREAD_BLOCKED)) (sched_example INTR_OFF 40))\<lparr>lists := h\<rparr>) r"
  using thread_block_correct [OF ref.kernel_env_axioms, of "sched_example INTR_OFF 40" 2]
  by (simp add: sched_example_facts run_next_def del: One_nat_def) blast

theorem thread_yield_correct_witness:
  "\<exists>s' r. switches (thread_yield ref_externs (sched_example INTR_ON 31)) 1 2 s' r \<and>
    run_order ref_externs s' = [1, 3]"
  using thread_yield_correct [OF ref.kernel_env_axioms, of "sched_example INTR_ON 31"]
  by (simp add: sched_example_facts ins_before_Cons higher_def del: One_nat_def) blast

theorem preemption_correct_witness:
  "\<exists>s' r. switches (preemption_check ref_externs (sched_example INTR_ON 25)) 1 2 s' r \<and>
    run_order ref_externs s' = [1, 3]"
  using preemption_correct [OF ref.kernel_env_axioms, of "sched_example INTR_ON 25"]
  by (simp add: sched_example_facts ins_before_Cons higher_def kernel_consts del: One_nat_def) blast

theorem thread_unblock_correct_witness:
  "\<exists>s'. thread_unblock ref_externs 4 (sched_example INTR_ON 31) = Inr s' \<and> run_order ref_externs s' = [2, 4, 3]"
proof -
  have "unblock_ok ref_externs 4 (sched_example INTR_ON 31)"
    by (auto simp: unblock_ok_def wakeable_def unlinked_def sched_example_def ref_threads_def)
  from thread_unblock_correct [OF ref.kernel_env_axioms this sched_example_facts(3)]
  obtain s' where "thread_unblock ref_externs 4 (sched_example INTR_ON 31) = Inr s'"
    and "run_order ref_externs s' = ins_before (higher s') 4 [2, 3]"
    and "threads s' = (threads (sched_example INTR_ON 31))(4 := readied (sched_example INTR_ON 31) 4)"
    by (auto simp: sched_example_facts)
  then show ?thesis
    by (intro exI [of _ s']) (simp add: ins_before_Cons higher_def readied_def, simp add: sched_example_def ref_threads_def)
qed

theorem thread_tick_time_slice_witness:
  "\<exists>g. tick_run ref_externs 4 (sched_example INTR_OFF 31) = Inr (upd_cpu g (charged 4 (sched_example INTR_OFF 31))) \<and>
    flag_pending (g (cpu (sched_example INTR_OFF 31)))"
proof -
  have "ticks_ok 4 (sched_example INTR_OFF 31)"
    by (simp add: ticks_ok_def sched_example_def ref_state_def ref_threads_def is_i64_def is_i32_def)
  from thread_tick_time_slice [OF ref.kernel_env_axioms sched_example_facts(2) sched_example_facts(9) _ _ this]
  show ?thesis by (simp add: sched_example_facts(7)) blast
qed

theorem thread_exit_correct_witness:
  "\<exists>s' r. switches (thread_exit ref_externs (sched_example INTR_ON 31)) 1 2 s' r \<and>
    elems ref_externs s' All_list = [allelem_of 2, allelem_of 3, allelem_of 4]"
  using thread_exit_correct [OF ref.kernel_env_axioms, of "sched_example INTR_ON 31" 2]
  by (simp add: sched_example_facts run_next_def del: One_nat_def) blast

text \<open>The same threads in the queues of the advanced scheduler, both of priority 31.\<close>

definition mlfqs_sched_example :: ref_kstate where
  "mlfqs_sched_example = ref_state True INTR_ON
    (ref_threads ((\<lambda>_. (THREAD_READY, 31))(1 := (THREAD_RUNNING, 63)))) ((\<lambda>_. [])(Mlfqs_list 31 := [elem_of 2, elem_of 3]))"

definition ready_sched_example :: ref_kstate where
  "ready_sched_example = ref_state False INTR_ON
    (ref_threads ((\<lambda>_. (THREAD_READY, 31))(1 := (THREAD_RUNNING, 63)))) ((\<lambda>_. [])(Ready_list := [elem_of 2, elem_of 3]))"

lemma mlfqs_sched_example_queue: "mlfqs_queue ref_externs mlfqs_sched_example = [2, 3]"
  by (simp add: mlfqs_queue_split [of 31] kernel_consts) (simp add: mlfqs_sched_example_def)

lemma mlfqs_sched_example_ok: "mlfqs_ok ref_externs mlfqs_sched_example"
  by (auto simp: mlfqs_ok_def linked_once_def mlfqs_queues_ok_def mlfqs_sched_example_def ref_threads_def)

theorem mlfqs_refines_ready_witness:
  "\<exists>n a' b'. mlfqs_next_thread_to_run ref_externs mlfqs_sched_example = (n, a') \<and>
    ready_next ref_externs ready_sched_example = (n, b') \<and> mlfqs_queue ref_externs a' = ready_queue ref_externs b'"
proof -
  have "ready_ok ref_externs ready_sched_example" "ready_queue ref_externs ready_sched_example = [2, 3]"
    by (auto simp: ready_sched_example_def ready_ok_def linked_once_def less_priority_def ref_threads_def ready_queue_def)
  then show ?thesis
    using mlfqs_refines_ready [OF ref.list_lib_axioms mlfqs_sched_example_ok, of ready_sched_example]
    by (auto simp: mlfqs_sched_example_queue) (auto simp: ready_sched_example_def mlfqs_sched_example_def)
qed

theorem thread_set_nice_correct_witness:
  "\<exists>s' rest. switches (thread_set_nice ref_externs 30 mlfqs_sched_example) 1 2 s' rest \<and> nice (threads s' 1) = 20"
proof -
  have order: "run_order ref_externs mlfqs_sched_example = [2, 3]"
    using mlfqs_sched_example_queue by (simp add: run_order_def) (simp add: mlfqs_sched_example_def)
  have ok: "run_ok ref_externs mlfqs_sched_example"
    using mlfqs_sched_example_ok by (simp add: run_ok_def) (simp add: mlfqs_sched_example_def)
  have "threads (niced 30 mlfqs_sched_example) 1 = (ref_thread THREAD_RUNNING 63)\<lparr>nice := 20, priority := 23\<rparr>"
    by (simp add: niced_def mlfqs_sched_example_def ref_threads_def mlfqs_priority_spec_def kernel_consts)
  with thread_set_nice_correct [OF ref.kernel_env_axioms _ ok, of 30] order show ?thesis
    by (fastforce simp: mlfqs_sched_example_def on_cpu_def ref_threads_def unlinked_def is_i32_def)
qed

end
