(* ===== verification/Donation.thy ===== *)
theory Donation
  imports Reference_State
begin

text \<open>
  Priority donation of \<^verbatim>\<open>threads/thread.c\<close>: a thread that waits for a lock lends its priority to
  the holder, and through the lock the holder itself waits for to the next holder; a thread that
  gives a lock back falls to the highest priority it is still entitled to.
\<close>

section \<open>The code\<close>

text \<open>The recursion follows the chain of holders, which nothing in the data keeps from being endless.\<close>

partial_function (option) donate_chain ::
    "thread_ptr \<Rightarrow> thread_ptr \<Rightarrow> ('l, 'i, 'p) kstate \<Rightarrow> ('l, 'i, 'p) kstate option" where
  "donate_chain fr to s =
    (if priority (threads s fr) > priority (threads s to)
     then let s1 = upd_thread to (priority_update (\<lambda>_. priority (threads s fr))) s
          in case waiting_lock (threads s1 to) of
               None \<Rightarrow> Some s1
             | Some l \<Rightarrow> (case holder (locks s1 l) of None \<Rightarrow> Some s1 | Some h \<Rightarrow> donate_chain to h s1)
     else Some s)"

definition donate_priority ::
    "thread_ptr \<Rightarrow> thread_ptr \<Rightarrow> ('l, 'i, 'p) kstate \<Rightarrow> ('l, 'i, 'p) kstate res" where
  "donate_priority fr to s = of_option (donate_chain fr to s)"

definition refresh_lock ::
    "('l, 'i, 'p) externs \<Rightarrow> thread_ptr \<Rightarrow> lock_ptr \<Rightarrow> ('l, 'i, 'p) kstate \<Rightarrow> ('l, 'i, 'p) kstate" where
  "refresh_lock E t lock s =
    (if \<not> list_empty E (Lock_waiters lock) (lists s)
     then fold (\<lambda>w s. let waiter = list_entry w
            in if priority (threads s waiter) > priority (threads s t)
               then upd_thread t (priority_update (\<lambda>_. priority (threads s waiter))) s else s)
          (elems E s (Lock_waiters lock)) s
     else s)"

definition refresh_priority ::
    "('l, 'i, 'p) externs \<Rightarrow> thread_ptr \<Rightarrow> ('l, 'i, 'p) kstate \<Rightarrow> ('l, 'i, 'p) kstate" where
  "refresh_priority E t s =
    (let s1 = upd_thread t (priority_update (\<lambda>_. base_priority (threads s t))) s
     in fold (\<lambda>e. refresh_lock E t (list_entry e)) (elems E s1 (Locks_held t)) s1)"

section \<open>Donation\<close>

text \<open>The holder of the lock a thread waits for.\<close>

definition waits_for :: "('l, 'i, 'p) kstate \<Rightarrow> thread_ptr \<Rightarrow> thread_ptr option" where
  "waits_for s t = Option.bind (waiting_lock (threads s t)) (\<lambda>l. holder (locks s l))"

text \<open>
  The threads that a donation of priority \<open>p\<close> to \<open>to\<close> raises: \<open>to\<close> and the holders behind it, as far as
  their priorities are below \<open>p\<close>.
\<close>

inductive donee :: "('l, 'i, 'p) kstate \<Rightarrow> int \<Rightarrow> thread_ptr \<Rightarrow> thread_ptr \<Rightarrow> bool" for s p where
  donee_to: "priority (threads s to) < p \<Longrightarrow> donee s p to to"
| donee_next: "priority (threads s to) < p \<Longrightarrow> waits_for s to = Some h \<Longrightarrow> donee s p h t \<Longrightarrow> donee s p to t"

inductive_cases donee_elim: "donee s p to t"

text \<open>No thread waits for a holder of lower priority: the absence of priority inversion.\<close>

definition no_inversion :: "('l, 'i, 'p) kstate \<Rightarrow> bool" where
  "no_inversion s \<longleftrightarrow> (\<forall>t u. waits_for s t = Some u \<longrightarrow> priority (threads s t) \<le> priority (threads s u))"

lemma donee_low: "donee s p to t \<Longrightarrow> priority (threads s t) < p"
  by (induction rule: donee.induct)

lemma donee_extend:
  "donee s p to t \<Longrightarrow> waits_for s t = Some h \<Longrightarrow> priority (threads s h) < p \<Longrightarrow> donee s p to h"
  by (induction rule: donee.induct) (blast intro: donee_to donee_next)+

definition raise :: "int \<Rightarrow> thread_ptr set \<Rightarrow> ('l, 'i, 'p) kstate \<Rightarrow> ('l, 'i, 'p) kstate" where
  "raise p D s = s\<lparr>threads := (\<lambda>t. if t \<in> D then (threads s t)\<lparr>priority := p\<rparr> else threads s t)\<rparr>"

lemma raise_simps [simp]:
  "waits_for (raise p D s) = waits_for s"
  "lists (raise p D s) = lists s" "locks (raise p D s) = locks s" "running (raise p D s) = running s"
  "cpu (raise p D s) = cpu s"
  "priority (threads (raise p D s) t) = (if t \<in> D then p else priority (threads s t))"
  by (simp_all add: raise_def waits_for_def fun_eq_iff)

lemma raise_empty: "raise p {} s = s"
  by (simp add: raise_def)

lemma upd_priority_raise: "upd_thread t (priority_update (\<lambda>_. p)) s = raise p {t} s"
  by (simp add: upd_thread_def raise_def fun_eq_iff)

lemma raise_raise: "raise p A (raise p B s) = raise p (A \<union> B) s"
  by (simp add: raise_def fun_eq_iff)

lemma donate_chain_step:
  "donate_chain fr to s =
    (if priority (threads s to) < priority (threads s fr)
     then (case waits_for s to of None \<Rightarrow> Some (raise (priority (threads s fr)) {to} s)
           | Some h \<Rightarrow> donate_chain to h (raise (priority (threads s fr)) {to} s))
     else Some s)"
  by (subst donate_chain.simps)
    (simp add: Let_def waits_for_def upd_priority_raise[symmetric] split: option.split)

text \<open>
  The threads below \<open>p\<close> that the chain can reach get fewer with every turn, also on a cycle of waiting threads.
\<close>

lemma donee_after_raise:
  assumes low: "priority (threads s to) < p" and w: "waits_for s to = Some h"
  shows "{t. donee s p to t} = insert to {t. donee (raise p {to} s) p h t}"
proof (intro set_eqI iffI)
  fix t assume "t \<in> insert to {t. donee (raise p {to} s) p h t}"
  moreover have "donee (raise p {to} s) p x t \<Longrightarrow> donee s p x t" for x
    by (induction rule: donee.induct) (auto intro: donee_to donee_next split: if_splits)
  ultimately show "t \<in> {t. donee s p to t}" using low w by (auto intro: donee_to donee_next)
next
  fix t assume "t \<in> {t. donee s p to t}"
  then have "donee s p to t" by simp
  moreover have "donee s p x t \<Longrightarrow> t \<noteq> to \<Longrightarrow>
      donee (raise p {to} s) p h t \<or> (x \<noteq> to \<and> donee (raise p {to} s) p x t)" for x
  proof (induction rule: donee.induct)
    case (donee_to x)
    then show ?case by (auto intro: donee.donee_to)
  next
    case (donee_next x y t)
    then show ?case using w by (cases "x = to") (auto intro: donee.donee_next)
  qed
  ultimately show "t \<in> insert to {t. donee (raise p {to} s) p h t}" by auto
qed

lemma donate_chain_correct:
  assumes "finite T" and "to \<in> T" and closed: "\<And>t u. t \<in> T \<Longrightarrow> waits_for s t = Some u \<Longrightarrow> u \<in> T"
    and p: "priority (threads s fr) = p"
  shows "donate_chain fr to s = Some (raise p {t. donee s p to t} s)"
  using assms
proof (induction "card {t \<in> T. priority (threads s t) < p}" arbitrary: fr to s rule: less_induct)
  case less
  note fin = less.prems(1) and to = less.prems(2) and p = less.prems(4)
  show ?case
  proof (cases "priority (threads s to) < p")
    case False
    then have none: "{t. donee s p to t} = {}" by (auto elim: donee_elim)
    show ?thesis unfolding none raise_empty using False p by (subst donate_chain_step) simp
  next
    case True
    show ?thesis
    proof (cases "waits_for s to")
      case None
      with True have "{t. donee s p to t} = {to}" by (auto elim: donee_elim intro: donee_to)
      with True None p show ?thesis by (subst donate_chain_step) simp
    next
      case (Some h)
      let ?s = "raise p {to} s"
      have "{t \<in> T. priority (threads ?s t) < p} \<subset> {t \<in> T. priority (threads s t) < p}"
        using True to by auto
      then have "card {t \<in> T. priority (threads ?s t) < p} < card {t \<in> T. priority (threads s t) < p}"
        using fin by (intro psubset_card_mono) auto
      moreover have "h \<in> T" using less.prems(3) to Some by blast
      ultimately have "donate_chain to h ?s = Some (raise p {t. donee ?s p h t} ?s)"
        using less.prems by (intro less.hyps) auto
      then show ?thesis using True Some p
        by (subst donate_chain_step) (simp add: raise_raise donee_after_raise [OF True Some])
    qed
  qed
qed


lemma donate_priority_raises:
  assumes "finite T" and "to \<in> T" and "\<And>t u. t \<in> T \<Longrightarrow> waits_for s t = Some u \<Longrightarrow> u \<in> T"
    and wait: "waits_for s fr = Some to"
    and others: "\<And>t u. t \<noteq> fr \<Longrightarrow> waits_for s t = Some u \<Longrightarrow> priority (threads s t) \<le> priority (threads s u)"
  shows "\<exists>s'. donate_priority fr to s = Inr s' \<and> no_inversion s' \<and>
    s' = s\<lparr>threads := (\<lambda>t. if donee s (priority (threads s fr)) to t
      then (threads s t)\<lparr>priority := priority (threads s fr)\<rparr> else threads s t)\<rparr> \<and>
    (\<forall>t. priority (threads s t) \<le> priority (threads s' t))"
proof -
  let ?p = "priority (threads s fr)" and ?D = "{t. donee s (priority (threads s fr)) to t}"
  have "donate_priority fr to s = Inr (raise ?p ?D s)"
  proof -
    have "donate_chain fr to s = Some (raise ?p ?D s)"
      by (rule donate_chain_correct [OF assms(1,2) _ refl]) (rule assms(3))
    then show ?thesis by (simp add: donate_priority_def)
  qed
  moreover have "no_inversion (raise ?p ?D s)"
    unfolding no_inversion_def
  proof (intro allI impI)
    fix t u assume "waits_for (raise ?p ?D s) t = Some u"
    then have w: "waits_for s t = Some u" by simp
    have u: "?p \<le> priority (threads s u) \<or> u \<in> ?D" if "t = fr \<or> t \<in> ?D"
    proof (cases "?p \<le> priority (threads s u)")
      case False
      then have "priority (threads s u) < ?p" by simp
      with that w wait show ?thesis by (auto intro: donee_to donee_extend)
    qed simp
    have up: "priority (threads s u) \<le> priority (threads (raise ?p ?D s) u)"
      by (auto dest: donee_low)
    show "priority (threads (raise ?p ?D s) t) \<le> priority (threads (raise ?p ?D s) u)"
    proof (cases "t \<in> ?D")
      case True
      with u up show ?thesis by (auto simp: raise_def)
    next
      case False
      then have "priority (threads (raise ?p ?D s) t) = priority (threads s t)" by simp
      also have "\<dots> \<le> priority (threads (raise ?p ?D s) u)"
      proof (cases "t = fr")
        case True
        with u up show ?thesis by auto
      next
        case False
        from others [OF this w] up show ?thesis by (rule order_trans)
      qed
      finally show ?thesis .
    qed
  qed
  moreover have "priority (threads s t) \<le> priority (threads (raise ?p ?D s) t)" for t
    by (auto dest: donee_low)
  ultimately show ?thesis by (intro exI [of _ "raise ?p ?D s"]) (simp add: raise_def)
qed

text \<open>C6. Donating the priority of \<open>fr\<close> to the holder \<open>to\<close> of the lock it waits for always ends, even when threads
  wait for each other in a circle, as long as the threads behind \<open>to\<close> are finitely many.  It raises exactly \<open>to\<close>
  and the holders behind it that have a lower priority, up to the first that has not, all to the donated
  priority; it lowers no priority and changes nothing else.  If no other thread waited for a holder of lower
  priority before, then afterwards no thread does, \<open>fr\<close> included.\<close>

theorem donate_priority_correct:
  assumes "finite T" and "to \<in> T" and "\<And>t u. t \<in> T \<Longrightarrow> waits_for s t = Some u \<Longrightarrow> u \<in> T"
    and wait: "waits_for s fr = Some to"
    and others: "\<And>t u. t \<noteq> fr \<Longrightarrow> waits_for s t = Some u \<Longrightarrow> priority (threads s t) \<le> priority (threads s u)"
  shows "\<exists>s'. donate_priority fr to s = Inr s' \<and> no_inversion s' \<and>
    s' = s\<lparr>threads := (\<lambda>t. if donee s (priority (threads s fr)) to t
      then (threads s t)\<lparr>priority := priority (threads s fr)\<rparr> else threads s t)\<rparr> \<and>
    (\<forall>t. priority (threads s t) \<le> priority (threads s' t))"
  using assms by (rule donate_priority_raises)

section \<open>Giving back\<close>

text \<open>The highest of a base priority and of the priorities of a list of threads.\<close>

definition entitled :: "('l, 'i, 'p) externs \<Rightarrow> ('l, 'i, 'p) kstate \<Rightarrow> thread_ptr \<Rightarrow> thread_ptr list" where
  "entitled E s t = map list_entry (concat (map (\<lambda>e. elems E s (Lock_waiters (list_entry e))) (elems E s (Locks_held t))))"

lemma fold_raise_max:
  "fold (\<lambda>w s. if priority (threads s w) > priority (threads s t)
      then upd_thread t (priority_update (\<lambda>_. priority (threads s w))) s else s) ws s =
    upd_thread t (priority_update (\<lambda>_.
      fold max (map (\<lambda>w. priority (threads s w)) (filter (\<lambda>w. w \<noteq> t) ws)) (priority (threads s t)))) s"
proof (induction ws arbitrary: s)
  case Nil
  show ?case by (simp add: upd_thread_def)
next
  case (Cons w ws)
  show ?case
  proof (cases "priority (threads s w) > priority (threads s t)")
    case True
    let ?s = "upd_thread t (priority_update (\<lambda>_. priority (threads s w))) s"
    have "map (\<lambda>w. priority (threads ?s w)) (filter (\<lambda>w. w \<noteq> t) ws) =
        map (\<lambda>w. priority (threads s w)) (filter (\<lambda>w. w \<noteq> t) ws)" by simp
    note IH = Cons.IH [of ?s, unfolded this]
    have "w \<noteq> t" "max (priority (threads s w)) (priority (threads s t)) = priority (threads s w)"
      using True by auto
    then show ?thesis using True IH by (simp del: upd_thread_simps) (simp add: upd_thread_def)
  next
    case False
    with Cons.IH [of s] show ?thesis by (auto simp: max_def)
  qed
qed

context list_lib
begin

lemma refresh_lock_fold:
  "refresh_lock E t lock s = fold (\<lambda>w s. if priority (threads s w) > priority (threads s t)
      then upd_thread t (priority_update (\<lambda>_. priority (threads s w))) s else s)
    (map list_entry (elems E s (Lock_waiters lock))) s"
  by (simp add: refresh_lock_def list_empty_iff Let_def fold_map comp_def)

lemma refresh_locks_fold:
  "fold (\<lambda>e. refresh_lock E t (list_entry e)) es s =
    fold (\<lambda>w s. if priority (threads s w) > priority (threads s t)
        then upd_thread t (priority_update (\<lambda>_. priority (threads s w))) s else s)
      (map list_entry (concat (map (\<lambda>e. elems E s (Lock_waiters (list_entry e))) es))) s"
proof (induction es arbitrary: s)
  case (Cons e es)
  have "lists (refresh_lock E t l s) = lists s" for l s by (simp add: refresh_lock_fold fold_raise_max)
  with Cons show ?case by (simp add: refresh_lock_fold)
qed simp

end

context list_lib
begin

lemma refresh_priority_max:
  "refresh_priority E t s = upd_thread t (priority_update (\<lambda>_.
    Max (insert (base_priority (threads s t)) ((\<lambda>w. priority (threads s w)) ` (set (entitled E s t) - {t}))))) s"
proof -
  let ?s = "upd_thread t (priority_update (\<lambda>_. base_priority (threads s t))) s"
  let ?ws = "filter (\<lambda>w. w \<noteq> t) (entitled E s t)"
  have "refresh_priority E t s = upd_thread t (priority_update (\<lambda>_.
      fold max (map (\<lambda>w. priority (threads ?s w)) ?ws) (base_priority (threads s t)))) ?s"
    by (simp add: refresh_priority_def refresh_locks_fold fold_raise_max entitled_def)
  also have "map (\<lambda>w. priority (threads ?s w)) ?ws = map (\<lambda>w. priority (threads s w)) ?ws" by simp
  also have "fold max \<dots> (base_priority (threads s t)) =
      Max (set (base_priority (threads s t) # map (\<lambda>w. priority (threads s w)) ?ws))"
    by (rule Max.set_eq_fold [symmetric])
  also have "set (base_priority (threads s t) # map (\<lambda>w. priority (threads s w)) ?ws) =
      insert (base_priority (threads s t)) ((\<lambda>w. priority (threads s w)) ` (set (entitled E s t) - {t}))" by auto
  finally show ?thesis by (simp add: upd_thread_def)
qed

end

text \<open>C23. After a release the thread's priority is the highest of its base priority and of the priorities of
  all threads on the waiting lists of the locks it still holds (itself aside, should it be on one), nothing
  lower and nothing higher; no other field, thread or list changes.\<close>

theorem refresh_priority_correct:
  assumes "list_lib E"
  shows "refresh_priority E t s = upd_thread t (priority_update (\<lambda>_.
    Max (insert (base_priority (threads s t)) ((\<lambda>w. priority (threads s w)) ` (set (entitled E s t) - {t}))))) s"
  by (rule list_lib.refresh_priority_max [OF assms])

section \<open>Examples\<close>

text \<open>
  Thread 1 (priority 31) starts to wait for lock 7, held by thread 2 (priority 20), which waits for lock 8,
  held by thread 3 (priority 10), which holds lock 8 only.
\<close>

definition donation_example :: ref_kstate where
  "donation_example = (ref_state False INTR_OFF
      ((ref_threads ((\<lambda>_. (THREAD_BLOCKED, 5))(1 := (THREAD_RUNNING, 31), 2 := (THREAD_BLOCKED, 20), 3 := (THREAD_READY, 20))))
        (1 := (ref_thread THREAD_RUNNING 31)\<lparr>waiting_lock := Some 7\<rparr>,
         2 := (ref_thread THREAD_BLOCKED 20)\<lparr>waiting_lock := Some 8\<rparr>,
         3 := (ref_thread THREAD_READY 20)\<lparr>base_priority := 10\<rparr>))
      ((\<lambda>_. [])(Locks_held 3 := [lock_elem_of 8], Lock_waiters 8 := [elem_of 2])))
    \<lparr>locks := (\<lambda>_. \<lparr>holder = None\<rparr>)(7 := \<lparr>holder = Some 2\<rparr>, 8 := \<lparr>holder = Some 3\<rparr>)\<rparr>"

lemma donation_example_waits:
  "waits_for donation_example t = (if t = 1 then Some 2 else if t = 2 then Some 3 else None)"
  by (auto simp: waits_for_def donation_example_def ref_threads_def)

theorem donate_priority_correct_witness:
  "\<exists>s'. donate_priority 1 2 donation_example = Inr s' \<and> no_inversion s' \<and> priority (threads s' 3) = 31"
proof -
  have p: "priority (threads donation_example 1) = 31" "priority (threads donation_example 2) = 20"
    "priority (threads donation_example 3) = 20" by (simp_all add: donation_example_def ref_threads_def)
  have d: "donee donation_example 31 2 3"
    by (rule donee_next [of _ _ _ 3]) (auto simp: p donation_example_waits intro: donee_to)
  have closed: "u \<in> {1, 2, 3}" if "t \<in> {1, 2, 3}" "waits_for donation_example t = Some u" for t u
    using that by (auto simp: donation_example_waits split: if_splits)
  have others: "priority (threads donation_example t) \<le> priority (threads donation_example u)"
    if "t \<noteq> 1" "waits_for donation_example t = Some u" for t u
    using that p by (auto simp: donation_example_waits split: if_splits)
  have "\<exists>s'. donate_priority 1 2 donation_example = Inr s' \<and> no_inversion s' \<and>
      s' = donation_example\<lparr>threads := (\<lambda>t. if donee donation_example (priority (threads donation_example 1)) 2 t
        then (threads donation_example t)\<lparr>priority := priority (threads donation_example 1)\<rparr>
        else threads donation_example t)\<rparr> \<and>
      (\<forall>t. priority (threads donation_example t) \<le> priority (threads s' t))"
    by (rule donate_priority_correct [OF _ _ closed _ others]) (simp_all add: donation_example_waits)
  then obtain s' where s': "donate_priority 1 2 donation_example = Inr s'" "no_inversion s'"
    "threads s' = (\<lambda>t. if donee donation_example (priority (threads donation_example 1)) 2 t
        then (threads donation_example t)\<lparr>priority := priority (threads donation_example 1)\<rparr>
        else threads donation_example t)"
    by auto
  have "priority (threads s' 3) = 31" unfolding s'(3) p using d p by simp
  with s'(1,2) show ?thesis by blast
qed

theorem refresh_priority_correct_witness:
  "refresh_priority ref_externs 3 donation_example = upd_thread 3 (priority_update (\<lambda>_. 20)) donation_example"
  using refresh_priority_correct [OF ref.list_lib_axioms, of 3 donation_example]
  by (simp add: entitled_def donation_example_def ref_threads_def)

end
