(* ===== verification/Synch.thy ===== *)
theory Synch
  imports Scheduling Donation
begin

text \<open>
  The synchronization primitives of \<^verbatim>\<open>threads/synch.c\<close>: semaphores, locks with priority donation
  and condition variables.  A semaphore is named by where it stands (\<open>sema_ptr\<close>), the
  \<open>struct semaphore_elem\<close> that \<open>cond_wait\<close> keeps on its stack by an address of its own, an argument here.
\<close>

definition upd_sema :: "sema_ptr \<Rightarrow> (semaphore \<Rightarrow> semaphore) \<Rightarrow> ('l, 'i, 'p) kstate \<Rightarrow> ('l, 'i, 'p) kstate" where
  "upd_sema x f s = s\<lparr>semas := (semas s)(x := f (semas s x))\<rparr>"

definition upd_lock :: "lock_ptr \<Rightarrow> (lock \<Rightarrow> lock) \<Rightarrow> ('l, 'i, 'p) kstate \<Rightarrow> ('l, 'i, 'p) kstate" where
  "upd_lock l f s = s\<lparr>locks := (locks s)(l := f (locks s l))\<rparr>"

section \<open>Semaphores\<close>

definition sema_init ::
    "('l, 'i, 'p) externs \<Rightarrow> sema_ptr \<Rightarrow> 32 word \<Rightarrow> ('l, 'i, 'p) kstate \<Rightarrow> ('l, 'i, 'p) kstate" where
  "sema_init E sema v s =
    upd_lists (list_init E (Sema_waiters sema)) (upd_sema sema (sema_value_update (\<lambda>_. v)) s)"

text \<open>The statement that puts the running thread on the waiting list.\<close>

definition sema_enlist ::
    "('l, 'i, 'p) externs \<Rightarrow> sema_ptr \<Rightarrow> thread_ptr \<Rightarrow> ('l, 'i, 'p) kstate \<Rightarrow> ('l, 'i, 'p) kstate" where
  "sema_enlist E sema cur s =
    upd_lists (list_insert_ordered E (Sema_waiters sema) (elem_of cur) (less_priority s)) s"

definition sema_down :: "('l, 'i, 'p) externs \<Rightarrow> sema_ptr \<Rightarrow> (('l, 'i, 'p) kstate, unit) kernel" where
  "sema_down E sema =
    kseq [kassert (\<lambda>s. \<not> intr_context E (cpu s)) Assert_not_intr_context,
          kdisable E (\<lambda>old_level.
            kseq [kwhile (\<lambda>s. sema_value (semas s sema) = 0)
                    (kseq [kcall thread_current (\<lambda>cur. kmodify (sema_enlist E sema cur)),
                           thread_block E]),
                  kmodify (upd_sema sema (sema_value_update (\<lambda>v. v - 1))),
                  kset_level E old_level])]"

definition sema_try_down ::
    "('l, 'i, 'p) externs \<Rightarrow> sema_ptr \<Rightarrow> ('l, 'i, 'p) kstate \<Rightarrow> bool \<times> ('l, 'i, 'p) kstate" where
  "sema_try_down E sema s =
    (let old_level = fst (intr_disable E (cpu s));
         s1 = upd_cpu (\<lambda>i. snd (intr_disable E i)) s;
         (success, s2) = (if sema_value (semas s1 sema) > 0
           then (True, upd_sema sema (sema_value_update (\<lambda>v. v - 1)) s1) else (False, s1))
     in (success, upd_cpu (intr_set_level E old_level) s2))"

text \<open>The part of \<open>sema_up\<close> with interrupts off.\<close>

definition sema_wake ::
    "('l, 'i, 'p) externs \<Rightarrow> sema_ptr \<Rightarrow> ('l, 'i, 'p) kstate \<Rightarrow> ('l, 'i, 'p) kstate res" where
  "sema_wake E sema s =
    (let old_level = fst (intr_disable E (cpu s));
         s1 = upd_cpu (\<lambda>i. snd (intr_disable E i)) s
     in res_bind
          (if \<not> list_empty E (Sema_waiters sema) (lists s1)
           then case list_pop_front E (Sema_waiters sema) (lists s1) of
                  (e, h) \<Rightarrow> thread_unblock E (list_entry e) (s1\<lparr>lists := h\<rparr>)
           else Inr s1)
          (\<lambda>s2. Inr (upd_cpu (intr_set_level E old_level) (upd_sema sema (sema_value_update (\<lambda>v. v + 1)) s2))))"

definition sema_up :: "('l, 'i, 'p) externs \<Rightarrow> sema_ptr \<Rightarrow> (('l, 'i, 'p) kstate, unit) kernel" where
  "sema_up E sema = kseq [katomic (sema_wake E sema), preemption_check E]"

section \<open>Locks\<close>

definition lock_init :: "('l, 'i, 'p) externs \<Rightarrow> lock_ptr \<Rightarrow> ('l, 'i, 'p) kstate \<Rightarrow> ('l, 'i, 'p) kstate" where
  "lock_init E lock s =
    upd_lists (list_init E (Lock_waiters lock))
      (sema_init E (Lock_sema lock) 1 (upd_lock lock (holder_update (\<lambda>_. None)) s))"

definition lock_held_by_current_thread :: "lock_ptr \<Rightarrow> ('l, 'i, 'p) kstate \<Rightarrow> bool res" where
  "lock_held_by_current_thread lock s =
    res_bind (thread_current s) (\<lambda>cur. Inr (holder (locks s lock) = Some cur))"

definition lock_take ::
    "('l, 'i, 'p) externs \<Rightarrow> lock_ptr \<Rightarrow> thread_ptr \<Rightarrow> (('l, 'i, 'p) kstate, unit) kernel" where
  "lock_take E lock cur =
    kseq [kmodify (upd_lock lock (holder_update (\<lambda>_. Some cur))),
          kmodify (upd_lists (list_push_back E (Locks_held cur) (lock_elem_of lock)))]"

text \<open>The first statements of the branch of \<open>lock_acquire\<close> for a lock that is held.\<close>

definition lock_contend ::
    "('l, 'i, 'p) externs \<Rightarrow> lock_ptr \<Rightarrow> thread_ptr \<Rightarrow> (('l, 'i, 'p) kstate, unit) kernel" where
  "lock_contend E lock cur =
    kseq [kmodify (upd_thread cur (waiting_lock_update (\<lambda>_. Some lock))),
          kmodify (\<lambda>s. upd_lists (list_insert_ordered E (Lock_waiters lock) (elem_of cur) (less_priority s)) s),
          kget (\<lambda>s. holder (locks s lock)) (\<lambda>h. case h of
            None \<Rightarrow> (\<lambda>s. Panic Null_pointer)
          | Some h \<Rightarrow> katomic (donate_priority cur h))]"

definition lock_acquire :: "('l, 'i, 'p) externs \<Rightarrow> lock_ptr \<Rightarrow> (('l, 'i, 'p) kstate, unit) kernel" where
  "lock_acquire E lock =
    kseq [kassert (\<lambda>s. \<not> intr_context E (cpu s)) Assert_not_intr_context,
          kcall (lock_held_by_current_thread lock) (\<lambda>held. kassert (\<lambda>s. \<not> held) Assert_lock_not_held),
          kdisable E (\<lambda>old_level. kpause (kcall thread_current (\<lambda>cur.
            kif (\<lambda>s. holder (locks s lock) = None)
              (kseq [sema_down E (Lock_sema lock),
                     lock_take E lock cur,
                     kset_level E old_level])
              (kseq [lock_contend E lock cur,
                     kset_level E old_level,
                     sema_down E (Lock_sema lock),
                     kdisable E (\<lambda>old_level.
                       kseq [lock_take E lock cur,
                             kmodify (upd_thread cur (waiting_lock_update (\<lambda>_. None))),
                             kset_level E old_level])]))))]"

definition lock_try_acquire :: "('l, 'i, 'p) externs \<Rightarrow> lock_ptr \<Rightarrow> (('l, 'i, 'p) kstate, bool) kernel" where
  "lock_try_acquire E lock =
    kthen (kcall (lock_held_by_current_thread lock) (\<lambda>held. kassert (\<lambda>s. \<not> held) Assert_lock_not_held))
      (\<lambda>s. case sema_try_down E (Lock_sema lock) s of (success, s1) \<Rightarrow>
        kpause (if success
          then kcall thread_current (\<lambda>cur s. Done True (upd_lock lock (holder_update (\<lambda>_. Some cur)) s))
          else (\<lambda>s. Done False s)) s1)"

text \<open>The loop of \<open>lock_release\<close> over the waiting list.\<close>

definition lock_drop_waiter ::
    "('l, 'i, 'p) externs \<Rightarrow> lock_ptr \<Rightarrow> thread_ptr \<Rightarrow> ('l, 'i, 'p) kstate \<Rightarrow> ('l, 'i, 'p) kstate" where
  "lock_drop_waiter E lock cur s =
    fold (\<lambda>e s. let t = list_entry e in if t = cur then upd_lists (list_remove E (elem_of t)) s else s)
      (elems E s (Lock_waiters lock)) s"

definition lock_release :: "('l, 'i, 'p) externs \<Rightarrow> lock_ptr \<Rightarrow> (('l, 'i, 'p) kstate, unit) kernel" where
  "lock_release E lock =
    kseq [kcall (lock_held_by_current_thread lock) (\<lambda>held. kassert (\<lambda>s. held) Assert_lock_held),
          kdisable E (\<lambda>old_level. kpause (kcall thread_current (\<lambda>cur.
            kseq [kmodify (upd_lists (list_remove E (lock_elem_of lock))),
                  kmodify (lock_drop_waiter E lock cur),
                  kmodify (upd_lock lock (holder_update (\<lambda>_. None))),
                  sema_up E (Lock_sema lock),
                  kmodify (refresh_priority E cur),
                  thread_yield_if_necessary E,
                  kset_level E old_level])))]"

section \<open>Condition variables\<close>

definition cond_init :: "('l, 'i, 'p) externs \<Rightarrow> cond_ptr \<Rightarrow> ('l, 'i, 'p) kstate \<Rightarrow> ('l, 'i, 'p) kstate" where
  "cond_init E c = upd_lists (list_init E (Cond_waiters c))"

definition cond_sema_priority_cmp ::
    "('l, 'i, 'p) externs \<Rightarrow> ('l, 'i, 'p) kstate \<Rightarrow> list_elem \<Rightarrow> list_elem \<Rightarrow> bool" where
  "cond_sema_priority_cmp E s a b =
    (let sa = list_entry a; sb = list_entry b;
         ta = list_entry (list_front E (Sema_waiters (Waiter_sema sa)) (lists s));
         tb = list_entry (list_front E (Sema_waiters (Waiter_sema sb)) (lists s))
     in priority (threads s ta) < priority (threads s tb))"

definition cond_wait ::
    "('l, 'i, 'p) externs \<Rightarrow> cond_ptr \<Rightarrow> lock_ptr \<Rightarrow> waiter_ptr \<Rightarrow> (('l, 'i, 'p) kstate, unit) kernel" where
  "cond_wait E c lock waiter =
    kseq [kassert (\<lambda>s. \<not> intr_context E (cpu s)) Assert_not_intr_context,
          kcall (lock_held_by_current_thread lock) (\<lambda>held. kassert (\<lambda>s. held) Assert_lock_held),
          kmodify (sema_init E (Waiter_sema waiter) 0),
          kmodify (upd_lists (list_push_back E (Cond_waiters c) (waiter_elem_of waiter))),
          lock_release E lock,
          sema_down E (Waiter_sema waiter),
          lock_acquire E lock,
          check_preemption E]"

definition cond_signal ::
    "('l, 'i, 'p) externs \<Rightarrow> cond_ptr \<Rightarrow> lock_ptr \<Rightarrow> (('l, 'i, 'p) kstate, unit) kernel" where
  "cond_signal E c lock =
    kseq [kassert (\<lambda>s. \<not> intr_context E (cpu s)) Assert_not_intr_context,
          kcall (lock_held_by_current_thread lock) (\<lambda>held. kassert (\<lambda>s. held) Assert_lock_held),
          kif (\<lambda>s. \<not> list_empty E (Cond_waiters c) (lists s))
            (kget (\<lambda>s. list_max E (Cond_waiters c) (cond_sema_priority_cmp E s) (lists s)) (\<lambda>max_e.
              kpause (kseq [kmodify (upd_lists (list_remove E max_e)),
                            sema_up E (Waiter_sema (list_entry max_e))])))
            kskip]"

definition cond_broadcast ::
    "('l, 'i, 'p) externs \<Rightarrow> cond_ptr \<Rightarrow> lock_ptr \<Rightarrow> (('l, 'i, 'p) kstate, unit) kernel" where
  "cond_broadcast E c lock = kwhile (\<lambda>s. \<not> list_empty E (Cond_waiters c) (lists s)) (cond_signal E c lock)"

text \<open>The thread that \<open>sema_self_test\<close> starts: ten times down on the one semaphore, up on the other.\<close>

definition sema_test_helper ::
    "('l, 'i, 'p) externs \<Rightarrow> sema_ptr \<Rightarrow> sema_ptr \<Rightarrow> (('l, 'i, 'p) kstate, unit) kernel" where
  "sema_test_helper E sema0 sema1 = kseq (concat (replicate 10 [sema_down E sema0, sema_up E sema1]))"

section \<open>Frame rules\<close>

lemma upd_sema_simps [simp]:
  "semas (upd_sema x f s) = (semas s)(x := f (semas s x))" "lists (upd_sema x f s) = lists s"
  "threads (upd_sema x f s) = threads s" "cpu (upd_sema x f s) = cpu s" "locks (upd_sema x f s) = locks s"
  "running (upd_sema x f s) = running s" "thread_mlfqs (upd_sema x f s) = thread_mlfqs s"
  "idle_thread (upd_sema x f s) = idle_thread s" "pages (upd_sema x f s) = pages s"
  by (simp_all add: upd_sema_def)

lemma upd_lock_simps [simp]:
  "locks (upd_lock l g s) = (locks s)(l := g (locks s l))" "lists (upd_lock l g s) = lists s"
  "threads (upd_lock l g s) = threads s" "cpu (upd_lock l g s) = cpu s" "semas (upd_lock l g s) = semas s"
  "running (upd_lock l g s) = running s" "thread_mlfqs (upd_lock l g s) = thread_mlfqs s"
  "idle_thread (upd_lock l g s) = idle_thread s" "pages (upd_lock l g s) = pages s"
  by (simp_all add: upd_lock_def)

lemma synch_set_lists:
  "(upd_sema x f s)\<lparr>lists := h\<rparr> = upd_sema x f (s\<lparr>lists := h\<rparr>)"
  "(upd_lock l g s)\<lparr>lists := h\<rparr> = upd_lock l g (s\<lparr>lists := h\<rparr>)"
  by (simp_all add: upd_sema_def upd_lock_def)

lemma run_synch_simps [simp]:
  "run_order E (upd_sema x f s) = run_order E s" "run_order E (upd_lock l g s) = run_order E s"
  "run_ok E (upd_sema x f s) = run_ok E s" "run_ok E (upd_lock l g s) = run_ok E s"
  "run_fits E t (upd_sema x f s) = run_fits E t s" "run_fits E t (upd_lock l g s) = run_fits E t s"
  "higher (upd_sema x f s) = higher s" "higher (upd_lock l g s) = higher s"
  "run_next E (upd_sema x f s) = run_next E s" "run_next E (upd_lock l g s) = run_next E s"
  by (rule run_order_cong run_ok_cong run_fits_cong higher_cong; simp)+
    (simp_all add: run_next_def run_order_cong [of "upd_sema x f s" s] run_order_cong [of "upd_lock l g s" s] split: list.split)

lemma on_cpu_synch_simps [simp]:
  "on_cpu (upd_sema x f s) = on_cpu s" "on_cpu (upd_lock l g s) = on_cpu s"
  "on_cpu (upd_lists k s) = on_cpu s" "on_cpu (upd_cpu j s) = on_cpu s"
  by (simp_all add: on_cpu_def)

section \<open>What semaphores guarantee\<close>

context kernel_env
begin

lemma sema_down_free:
  assumes nint: "\<not> intr_context E (cpu s)" and v: "sema_value (semas s x) \<noteq> 0"
  shows "returns (sema_down E x s) () (upd_cpu (\<lambda>i. intr_set_level E (level E s) (snd (intr_disable E i)))
    (upd_sema x (sema_value_update (\<lambda>v. v - 1)) s))"
  using nint v
  by (simp add: sema_down_def kernel_defs kdisable_def kset_level_def kwhile_def intr_laws)
    (simp add: upd_sema_def upd_cpu_def)

text \<open>The loop of \<open>sema_down\<close>, when it is resumed after the thread has been woken.\<close>

lemma sema_down_resumed:
  assumes r: "running s2 = c" "level E s2 = INTR_OFF" "prev \<noteq> c" and v: "sema_value (semas s2 x) \<noteq> 0"
  shows "returns (kbind (kwhile_from (\<lambda>s. sema_value (semas s x) = 0) b (katomic (thread_schedule_tail E (Some prev)) s2))
      (\<lambda>_. kthen (kmodify (upd_sema x (sema_value_update (\<lambda>v. v - 1)))) (kset_level E lv))) ()
    (upd_cpu (intr_set_level E lv) (upd_sema x (sema_value_update (\<lambda>v. v - 1)) (switched_in E prev s2)))"
proof -
  have "semas (switched_in E prev s2) = semas s2" by (simp add: switched_in_def Let_def)
  with r v show ?thesis
    by (simp add: thread_schedule_tail_switched kernel_defs kset_level_def)
qed

lemma sema_down_waits:
  assumes cpu: "on_cpu s" and nint: "\<not> intr_context E (cpu s)" and v: "sema_value (semas s x) = 0"
    and ok: "run_ok E s" and free: "unlinked E (elem_of (running s)) (lists s)"
    and sorted: "sorted_wrt (\<lambda>a b. \<not> less_priority s b a) (elems E s (Sema_waiters x))"
    and nxt: "run_next E s = Some n" and m: "magic (threads s n) = THREAD_MAGIC" and n: "n \<noteq> running s"
  shows "\<exists>s' r. switches (sema_down E x s) (running s) n s' r \<and>
    elems E s' (Sema_waiters x) = ins_before (less_priority s) (elem_of (running s)) (elems E s (Sema_waiters x)) \<and>
    (\<forall>l. \<not> run_list l \<and> l \<noteq> Sema_waiters x \<longrightarrow> elems E s' l = elems E s l) \<and>
    threads s' = (threads s)(running s := (threads s (running s))\<lparr>status := THREAD_BLOCKED\<rparr>) \<and>
    semas s' = semas s \<and> run_order E s' = tl (run_order E s) \<and> run_ok E s' \<and>
    (\<forall>prev s2. running s2 = running s \<and> level E s2 = INTR_OFF \<and> prev \<noteq> running s \<and>
      sema_value (semas s2 x) \<noteq> 0 \<longrightarrow>
      returns (r prev s2) () (upd_cpu (intr_set_level E (level E s))
        (upd_sema x (sema_value_update (\<lambda>v. v - 1)) (switched_in E prev s2))))"
proof -
  let ?c = "running s"
  let ?off = "upd_cpu (\<lambda>i. snd (intr_disable E i))"
  let ?h1 = "list_insert_ordered E (Sema_waiters x) (elem_of ?c) (less_priority s) (lists s)"
  let ?s1 = "?off (s\<lparr>lists := ?h1\<rparr>)"
  note ins = elems_insert_ordered [OF free sorted]
  note frame = run_queue_insert_other [OF _ ok free sorted, simplified]
  have next1: "run_next E ?s1 = Some n" using nxt frame(1) by (simp add: run_next_def split: list.splits)
  have "on_cpu ?s1" using cpu by (simp add: on_cpu_def)
  from block_switches [OF this _ _ _ next1] nint frame m n obtain h where h: "switches (thread_block E ?s1) ?c n
      ((upd_thread ?c (status_update (\<lambda>_. THREAD_BLOCKED)) ?s1)\<lparr>lists := h\<rparr>)
      (\<lambda>prev. katomic (thread_schedule_tail E (Some prev)))"
    "run_order E (?s1\<lparr>lists := h\<rparr>) = tl (run_order E s)" "run_ok E (?s1\<lparr>lists := h\<rparr>)" "run_frame E n ?h1 h"
    by (auto simp: intr_laws)
  let ?s2 = "(upd_thread ?c (status_update (\<lambda>_. THREAD_BLOCKED)) ?s1)\<lparr>lists := h\<rparr>"
  let ?body = "kseq [kcall thread_current (\<lambda>cur. kmodify (sema_enlist E x cur)), thread_block E]"
  let ?w = "\<lambda>s. sema_value (semas s x) = 0"
  let ?r = "\<lambda>prev s2. kbind (kwhile_from ?w ?body (katomic (thread_schedule_tail E (Some prev)) s2))
      (\<lambda>_. kthen (kmodify (upd_sema x (sema_value_update (\<lambda>v. v - 1)))) (kset_level E (level E s)))"
  have body: "?body (?off s) = Pause ?s1 (thread_block E)"
    using cpu by (simp add: kernel_defs sema_enlist_def upd_lists_def) (simp add: upd_cpu_def)
  have "switches (kwhile_from ?w ?body (?body (?off s))) ?c n ?s2
      (\<lambda>prev s2. kwhile_from ?w ?body (katomic (thread_schedule_tail E (Some prev)) s2))"
    unfolding body using h(1) by (intro switches_kwhileI) simp
  then have "switches (kbind (kwhile_from ?w ?body (?body (?off s)))
      (\<lambda>_. kthen (kmodify (upd_sema x (sema_value_update (\<lambda>v. v - 1)))) (kset_level E (level E s)))) ?c n ?s2 ?r"
    by (rule switches_kbindI1)
  then have "switches (sema_down E x s) ?c n ?s2 ?r"
    using nint v by (simp add: sema_down_def kernel_defs kdisable_def kwhile_def intr_laws)
  moreover have "\<forall>l. \<not> run_list l \<longrightarrow> elems E ?s2 l = list_elems E l ?h1" using h(4) by (simp add: run_frame_def)
  moreover have "semas ?s2 = semas s" by (simp add: upd_thread_def upd_cpu_def)
  moreover have "run_order E ?s2 = tl (run_order E s)" "run_ok E ?s2"
    using h(2,3) by (simp_all add: upd_set_lists)
  ultimately show ?thesis
    using sema_down_resumed by (intro exI [of _ ?s2] exI [of _ ?r]) (simp add: ins)
qed

end


context kernel_env
begin

lemma sema_wake_empty:
  "elems E s (Sema_waiters x) = [] \<Longrightarrow> sema_wake E x s =
    Inr (upd_cpu (\<lambda>i. intr_set_level E (level E s) (snd (intr_disable E i))) (upd_sema x (sema_value_update (\<lambda>v. v + 1)) s))"
  by (simp add: sema_wake_def list_empty_iff intr_laws Let_def) (simp add: upd_cpu_def upd_sema_def)

lemma sema_wake_front:
  assumes ok: "run_ok E s" and w: "elems E s (Sema_waiters x) = elem_of t # es" and t: "wakeable s t"
  shows "\<exists>s1. sema_wake E x s = Inr s1 \<and> threads s1 = (threads s)(t := readied s t) \<and>
    semas s1 = (semas s)(x := \<lparr>sema_value = sema_value (semas s x) + 1\<rparr>) \<and>
    elems E s1 (Sema_waiters x) = es \<and>
    (\<forall>l. \<not> run_list l \<and> l \<noteq> Sema_waiters x \<longrightarrow> elems E s1 l = elems E s l) \<and>
    run_order E s1 = ins_before (higher s1) t (run_order E s) \<and> run_ok E s1 \<and> level E s1 = level E s \<and>
    (\<exists>h c. s1 = s\<lparr>lists := h, cpu := c, threads := threads s1, semas := semas s1\<rparr> \<and>
      (\<forall>e. e \<noteq> elem_of t \<longrightarrow> unlinked E e h = unlinked E e (lists s)) \<and>
      intr_context E c = intr_context E (cpu s))"
proof -
  let ?h0 = "snd (list_pop_front E (Sema_waiters x) (lists s))"
  let ?s0 = "upd_cpu (\<lambda>i. snd (intr_disable E i)) (s\<lparr>lists := ?h0\<rparr>)"
  note pop = run_queue_pop_other [OF _ ok w, simplified]
  have "unblock_ok E t ?s0"
    using t unlinked_pop_front [OF run_ok_linked [OF ok] w] by (simp add: unblock_ok_def wakeable_def)
  from thread_unblock_enqueues [OF this] pop obtain s' h c where s':
    "thread_unblock E t ?s0 = Inr s'" "run_order E s' = ins_before (higher s') t (run_order E s)" "run_ok E s'"
    "threads s' = (threads s)(t := readied ?s0 t)"
    "s' = ?s0\<lparr>lists := h, cpu := c, threads := (threads ?s0)(t := readied ?s0 t)\<rparr>" "run_frame E t ?h0 h"
    "intr_context E c = intr_context E (cpu ?s0)"
    by auto
  have r: "readied ?s0 t = readied s t" by (simp add: readied_def)
  have eq: "s' = s\<lparr>lists := h, cpu := c, threads := (threads s)(t := readied s t)\<rparr>"
    using s'(5) r by (simp add: upd_cpu_def)
  have fields: "lists s' = h" "cpu s' = c" "semas s' = semas s" unfolding eq by simp_all
  define s1 where "s1 = upd_cpu (intr_set_level E (level E s)) (upd_sema x (sema_value_update (\<lambda>v. v + 1)) s')"
  have "sema_wake E x s = Inr s1"
    using s'(1) w by (simp add: s1_def sema_wake_def list_empty_iff intr_laws Let_def pop_front case_prod_beta upd_set_lists)
  moreover have "s1 = s\<lparr>lists := h, cpu := cpu s1, threads := threads s1, semas := semas s1\<rparr>"
    unfolding s1_def eq by (simp add: upd_cpu_def upd_sema_def)
  moreover have "\<forall>e. e \<noteq> elem_of t \<longrightarrow> unlinked E e h = unlinked E e (lists s)"
    using s'(6) unlinked_pop_front_other [OF w] by (simp add: run_frame_def)
  moreover have "semas s1 = (semas s)(x := \<lparr>sema_value = sema_value (semas s x) + 1\<rparr>)"
    by (cases "semas s x") (simp add: s1_def fields)
  moreover have "elems E s1 l = list_elems E l ?h0" if "\<not> run_list l" for l
    using s'(6) that by (simp add: s1_def fields run_frame_def)
  moreover have "threads s1 = (threads s)(t := readied s t)" "run_order E s1 = ins_before (higher s1) t (run_order E s)"
    "run_ok E s1" "level E s1 = level E s" "intr_context E (cpu s1) = intr_context E (cpu s)"
    using s'(2,3,4,7) r by (simp_all add: s1_def intr_laws fields)
  ultimately show ?thesis
    by (intro exI [of _ s1] conjI exI [of _ h] exI [of _ "cpu s1"]) (simp_all add: elems_pop_front [OF w])
qed

end

text \<open>A thread that downs a semaphore with a positive value takes one unit and goes on at once, with the
  interrupt level restored; the value never wraps below zero.\<close>

theorem sema_down_takes_unit:
  assumes E: "kernel_env E" and nint: "\<not> intr_context E (cpu s)" and v: "sema_value (semas s x) \<noteq> 0"
  shows "\<exists>c. returns (sema_down E x s) ()
      (s\<lparr>semas := (semas s)(x := \<lparr>sema_value = sema_value (semas s x) - 1\<rparr>), cpu := c\<rparr>) \<and>
    intr_get_level E c = level E s \<and> unat (sema_value (semas s x) - 1) = unat (sema_value (semas s x)) - 1"
proof -
  let ?c = "intr_set_level E (level E s) (snd (intr_disable E (cpu s)))"
  have "upd_cpu (\<lambda>i. intr_set_level E (level E s) (snd (intr_disable E i))) (upd_sema x (sema_value_update (\<lambda>v. v - 1)) s) =
      s\<lparr>semas := (semas s)(x := \<lparr>sema_value = sema_value (semas s x) - 1\<rparr>), cpu := ?c\<rparr>"
    by (cases "semas s x") (simp add: upd_cpu_def upd_sema_def)
  with kernel_env.sema_down_free [OF E nint v] have "returns (sema_down E x s) ()
      (s\<lparr>semas := (semas s)(x := \<lparr>sema_value = sema_value (semas s x) - 1\<rparr>), cpu := ?c\<rparr>)" by simp
  moreover have "unat (sema_value (semas s x) - 1) = unat (sema_value (semas s x)) - 1"
    using v by (rule unat_minus_one)
  ultimately show ?thesis
    using intr_lib.get_set [OF kernel_env.axioms(2) [OF E]] by (intro exI [of _ ?c]) simp
qed

text \<open>C19. A thread that downs a semaphore of value zero does not go on: it enters the waiting list behind every
  waiter of its own or a higher priority, is marked as blocked and the next thread runs; no other waiting list
  changes.  Whenever it is switched to again and finds a positive value, it takes one unit and returns
  with the interrupt level it was called with.\<close>

theorem sema_down_blocks:
  assumes E: "kernel_env E" and "on_cpu s" and "\<not> intr_context E (cpu s)" and "sema_value (semas s x) = 0"
    and "run_ok E s" and "unlinked E (elem_of (running s)) (lists s)"
    and "sorted_wrt (\<lambda>a b. \<not> less_priority s b a) (elems E s (Sema_waiters x))"
    and "run_next E s = Some n" and "magic (threads s n) = THREAD_MAGIC" and "n \<noteq> running s"
  shows "\<exists>s' r. switches (sema_down E x s) (running s) n s' r \<and>
    elems E s' (Sema_waiters x) = ins_before (less_priority s) (elem_of (running s)) (elems E s (Sema_waiters x)) \<and>
    (\<forall>l. \<not> run_list l \<and> l \<noteq> Sema_waiters x \<longrightarrow> elems E s' l = elems E s l) \<and>
    threads s' = (threads s)(running s := (threads s (running s))\<lparr>status := THREAD_BLOCKED\<rparr>) \<and>
    semas s' = semas s \<and> run_order E s' = tl (run_order E s) \<and> run_ok E s' \<and>
    (\<forall>prev s2. running s2 = running s \<and> level E s2 = INTR_OFF \<and> prev \<noteq> running s \<and>
      sema_value (semas s2 x) \<noteq> 0 \<longrightarrow>
      returns (r prev s2) () (upd_cpu (intr_set_level E (level E s))
        (upd_sema x (sema_value_update (\<lambda>v. v - 1)) (switched_in E prev s2))))"
  by (rule kernel_env.sema_down_waits [OF assms])

text \<open>\<open>sema_try_down\<close> never waits: it takes a unit and reports success exactly when there is one, and otherwise
  leaves the semaphore alone; in both cases only the value and the interrupt state, whose level is restored, are touched.\<close>

theorem sema_try_down_correct:
  assumes E: "kernel_env E"
  shows "case sema_try_down E x s of (success, s') \<Rightarrow>
    success = (0 < sema_value (semas s x)) \<and> level E s' = level E s \<and>
    s' = s\<lparr>cpu := cpu s', semas := (semas s)(x := \<lparr>sema_value =
      (if success then sema_value (semas s x) - 1 else sema_value (semas s x))\<rparr>)\<rparr>"
  using intr_lib.get_set [OF kernel_env.axioms(2) [OF E]] intr_lib.disable_old [OF kernel_env.axioms(2) [OF E]]
  by (cases "semas s x") (auto simp: sema_try_down_def Let_def upd_cpu_def upd_sema_def fun_upd_idem)

context kernel_env
begin

lemma sema_up_runs:
  assumes cpu: "on_cpu s" and nint: "\<not> intr_context E (cpu s)" and ok: "run_ok E s"
    and w: "elems E s (Sema_waiters x) = elem_of t # es" and t: "wakeable s t"
    and idle: "Some (running s) \<noteq> idle_thread s" and fits: "run_fits E (running s) s"
    and pos: "PRI_MIN \<le> priority (threads s (running s))"
    and m: "\<forall>u \<in> set (run_order E s). magic (threads s u) = THREAD_MAGIC"
  shows "\<exists>s1. threads s1 = (threads s)(t := readied s t) \<and>
    semas s1 = (semas s)(x := \<lparr>sema_value = sema_value (semas s x) + 1\<rparr>) \<and> elems E s1 (Sema_waiters x) = es \<and>
    run_order E s1 = ins_before (higher s1) t (run_order E s) \<and> level E s1 = level E s \<and>
    run_ok E s1 \<and> (\<forall>l. \<not> run_list l \<and> l \<noteq> Sema_waiters x \<longrightarrow> elems E s1 l = elems E s l) \<and>
    (\<exists>h c. s1 = s\<lparr>lists := h, cpu := c, threads := threads s1, semas := semas s1\<rparr> \<and>
      (\<forall>e. e \<noteq> elem_of t \<longrightarrow> unlinked E e h = unlinked E e (lists s)) \<and>
      intr_context E c = intr_context E (cpu s)) \<and>
    (sorted_wrt (\<lambda>a b. \<not> less_priority s b a) (elems E s (Sema_waiters x)) \<longrightarrow>
      (\<forall>e \<in> set es. priority (threads s (list_entry e)) \<le> priority (threads s t))) \<and>
    (if \<exists>u \<in> set (run_order E s1). priority (threads s1 u) > priority (threads s1 (running s)) then
      \<exists>n ts s2 r. run_order E s1 = n # ts \<and> switches (sema_up E x s) (running s) n s2 r \<and>
        run_order E s2 = ins_before (higher s1) (running s) ts
    else returns (sema_up E x s) () s1)"
proof -
  obtain s1 h c where wake: "sema_wake E x s = Inr s1"
    and s1: "threads s1 = (threads s)(t := readied s t)"
      "semas s1 = (semas s)(x := \<lparr>sema_value = sema_value (semas s x) + 1\<rparr>)"
      "elems E s1 (Sema_waiters x) = es" "run_order E s1 = ins_before (higher s1) t (run_order E s)"
      "run_ok E s1" "level E s1 = level E s"
    and eq: "s1 = s\<lparr>lists := h, cpu := c, threads := threads s1, semas := semas s1\<rparr>"
    and other: "\<forall>e. e \<noteq> elem_of t \<longrightarrow> unlinked E e h = unlinked E e (lists s)"
    and ctx: "intr_context E c = intr_context E (cpu s)"
    and rest: "\<forall>l. \<not> run_list l \<and> l \<noteq> Sema_waiters x \<longrightarrow> elems E s1 l = elems E s l"
    using sema_wake_front [OF ok w t] by blast
  have f: "lists s1 = h" "cpu s1 = c" "running s1 = running s" "idle_thread s1 = idle_thread s"
    "thread_mlfqs s1 = thread_mlfqs s" by (subst eq, simp)+
  have tc: "t \<noteq> running s" using cpu t by (auto simp: on_cpu_def wakeable_def)
  have cpu1: "on_cpu s1" using cpu tc by (simp add: on_cpu_def f s1(1))
  have fits1: "run_fits E (running s1) s1"
    using fits tc other by (simp add: run_fits_def mlfqs_fits_def ready_fits_def f s1(1) split: if_splits)
  have pos1: "PRI_MIN \<le> priority (threads s1 (running s1))" using pos tc by (simp add: f s1(1))
  have m1: "\<forall>u \<in> set (run_order E s1). magic (threads s1 u) = THREAD_MAGIC"
    using m t by (auto simp: s1(1,4) wakeable_def readied_def)
  have up: "returns (sema_up E x s) () s' \<longleftrightarrow> returns (preemption_check E s1) () s'"
    "switches (sema_up E x s) p n s' r \<longleftrightarrow> switches (preemption_check E s1) p n s' r" for p n s' r
    by (simp_all add: sema_up_def kernel_defs wake)
  have idle1: "Some (running s1) \<noteq> idle_thread s1" and nint1: "\<not> intr_context E (cpu s1)"
    using idle nint ctx by (simp_all add: f)
  have pre: "if \<exists>u \<in> set (run_order E s1). priority (threads s1 u) > priority (threads s1 (running s)) then
      \<exists>n ts s2 r. run_order E s1 = n # ts \<and> switches (sema_up E x s) (running s) n s2 r \<and>
        run_order E s2 = ins_before (higher s1) (running s) ts
    else returns (sema_up E x s) () s1"
    using preemption_runs [OF cpu1 s1(5) idle1 fits1 pos1 m1] nint1 unfolding up f(3) by (auto split: if_splits)
  have front: "\<forall>e \<in> set es. priority (threads s (list_entry e)) \<le> priority (threads s t)"
    if "sorted_wrt (\<lambda>a b. \<not> less_priority s b a) (elems E s (Sema_waiters x))"
    using that by (simp add: w less_priority_def not_less)
  have frame: "\<exists>h c. s1 = s\<lparr>lists := h, cpu := c, threads := threads s1, semas := semas s1\<rparr> \<and>
      (\<forall>e. e \<noteq> elem_of t \<longrightarrow> unlinked E e h = unlinked E e (lists s)) \<and> intr_context E c = intr_context E (cpu s)"
    using eq other ctx by blast
  from s1 pre front rest frame show ?thesis by (intro exI [of _ s1]) simp
qed

end

text \<open>C14. An up on a semaphore with waiters wakes exactly the thread at the front of the waiting list, which on a
  sorted list is one of the highest priority, makes it ready and adds one to the value.  Then the caller
  gives way if and only if some ready thread now has a higher priority than its own.\<close>

theorem sema_up_correct:
  assumes E: "kernel_env E" and cpu: "on_cpu s" and nint: "\<not> intr_context E (cpu s)" and ok: "run_ok E s"
    and w: "elems E s (Sema_waiters x) = elem_of t # es" and t: "wakeable s t"
    and idle: "Some (running s) \<noteq> idle_thread s" and fits: "run_fits E (running s) s"
    and pos: "PRI_MIN \<le> priority (threads s (running s))"
    and m: "\<forall>u \<in> set (run_order E s). magic (threads s u) = THREAD_MAGIC"
  shows "\<exists>s1. threads s1 = (threads s)(t := readied s t) \<and>
    semas s1 = (semas s)(x := \<lparr>sema_value = sema_value (semas s x) + 1\<rparr>) \<and> elems E s1 (Sema_waiters x) = es \<and>
    run_order E s1 = ins_before (higher s1) t (run_order E s) \<and> level E s1 = level E s \<and>
    (sorted_wrt (\<lambda>a b. \<not> less_priority s b a) (elems E s (Sema_waiters x)) \<longrightarrow>
      (\<forall>e \<in> set es. priority (threads s (list_entry e)) \<le> priority (threads s t))) \<and>
    (if \<exists>u \<in> set (run_order E s1). priority (threads s1 u) > priority (threads s1 (running s)) then
      \<exists>n ts s2 r. run_order E s1 = n # ts \<and> switches (sema_up E x s) (running s) n s2 r \<and>
        run_order E s2 = ins_before (higher s1) (running s) ts
    else returns (sema_up E x s) () s1)"
  using kernel_env.sema_up_runs [OF assms] by blast

end
