(* ===== verification/Locking.thy ===== *)
theory Locking
  imports Synch
begin

text \<open>
  What locks guarantee: taking a free lock, waiting for a held one with the donation that goes with it,
  and giving a lock back.
\<close>

section \<open>Steps\<close>

lemma lock_held_eq: "on_cpu s \<Longrightarrow> lock_held_by_current_thread l s = Inr (holder (locks s l) = Some (running s))"
  by (simp add: lock_held_by_current_thread_def)

lemma lock_take_eq:
  "returns (lock_take E l c s) () (upd_lists (list_push_back E (Locks_held c) (lock_elem_of l))
    (upd_lock l (holder_update (\<lambda>_. Some c)) s))"
  by (simp add: lock_take_def kernel_defs)

lemma lock_drop_waiter_none:
  assumes "c \<notin> list_entry ` set (elems E s (Lock_waiters l))"
  shows "lock_drop_waiter E l c s = s"
proof -
  have "fold (\<lambda>e s. let t = list_entry e in if t = c then upd_lists (list_remove E (elem_of t)) s else s) es s = s"
    if "c \<notin> list_entry ` set es" for es
    using that by (induction es) (auto simp: Let_def)
  with assms show ?thesis by (simp add: lock_drop_waiter_def)
qed

context kernel_env
begin

text \<open>The state after a free lock has been taken.\<close>

lemma lock_acquire_free:
  assumes cpu: "on_cpu s" and nint: "\<not> intr_context E (cpu s)" and free: "holder (locks s l) = None"
    and v: "sema_value (semas s (Lock_sema l)) \<noteq> 0"
  shows "\<exists>g. returns (lock_acquire E l s) () (upd_cpu g
      (upd_lists (list_push_back E (Locks_held (running s)) (lock_elem_of l))
        (upd_lock l (holder_update (\<lambda>_. Some (running s)))
          (upd_sema (Lock_sema l) (sema_value_update (\<lambda>v. v - 1)) s)))) \<and>
    intr_get_level E (g (cpu s)) = level E s \<and> intr_context E (g (cpu s)) = intr_context E (cpu s)"
proof -
  let ?off = "upd_cpu (\<lambda>i. snd (intr_disable E i))"
  let ?g1 = "\<lambda>i. intr_set_level E (level E (?off s)) (snd (intr_disable E i))"
  let ?s1 = "upd_cpu ?g1 (upd_sema (Lock_sema l) (sema_value_update (\<lambda>v. v - 1)) (?off s))"
  let ?s2 = "upd_lists (list_push_back E (Locks_held (running s)) (lock_elem_of l))
    (upd_lock l (holder_update (\<lambda>_. Some (running s))) ?s1)"
  have semas_off: "semas (?off s) = semas s" by simp
  have down: "returns (sema_down E (Lock_sema l) (?off s)) () ?s1"
    using sema_down_free [of "?off s" "Lock_sema l"] nint v by (simp add: intr_laws)
  have take: "returns (lock_take E l (running s) ?s1) () ?s2" by (rule lock_take_eq)
  have "returns (lock_acquire E l s) () (upd_cpu (intr_set_level E (level E s)) ?s2)"
    using cpu nint free down take
    by (auto simp: lock_acquire_def kernel_defs kdisable_def kset_level_def lock_held_eq intr_laws
        intro!: returns_kbindI)
  then show ?thesis
    by (intro exI [of _ "\<lambda>i. intr_set_level E (level E s) (?g1 (snd (intr_disable E i)))"])
      (simp add: intr_laws upd_cpu_def upd_lists_def upd_lock_def upd_sema_def)
qed

end

section \<open>Waiting for a held lock\<close>

lemma waits_for_contend:
  assumes "holder (locks s l) = Some h"
  shows "waits_for (upd_lists f (upd_thread c (waiting_lock_update (\<lambda>_. Some l)) s)) t =
    (if t = c then Some h else waits_for s t)"
  using assms by (simp add: waits_for_def)

context list_lib
begin

lemma lock_contend_donates:
  assumes hold: "holder (locks s l) = Some h" and free: "unlinked E (elem_of c) (lists s)"
    and sorted: "sorted_wrt (\<lambda>a b. \<not> less_priority s b a) (elems E s (Lock_waiters l))"
    and inv: "no_inversion s"
    and T: "finite T" "h \<in> T" "\<And>t u. t \<in> insert c T \<Longrightarrow> waits_for s t = Some u \<Longrightarrow> u \<in> T"
  shows "\<exists>s'. returns (lock_contend E l c s) () s' \<and> no_inversion s' \<and> waits_for s' c = Some h \<and>
    elems E s' (Lock_waiters l) = ins_before (less_priority s) (elem_of c) (elems E s (Lock_waiters l)) \<and>
    (\<forall>k. k \<noteq> Lock_waiters l \<longrightarrow> elems E s' k = elems E s k) \<and>
    (\<forall>t. priority (threads s t) \<le> priority (threads s' t))"
proof -
  let ?s1 = "upd_thread c (waiting_lock_update (\<lambda>_. Some l)) s"
  let ?h = "list_insert_ordered E (Lock_waiters l) (elem_of c) (less_priority s) (lists s)"
  define s2 where "s2 = upd_lists (list_insert_ordered E (Lock_waiters l) (elem_of c) (less_priority s)) ?s1"
  have lp: "less_priority ?s1 = less_priority s" by (simp add: less_priority_def Let_def fun_eq_iff)
  have w: "waits_for s2 t = (if t = c then Some h else waits_for s t)" for t
    using waits_for_contend [OF hold] by (simp add: s2_def)
  have p: "priority (threads s2 t) = priority (threads s t)" for t by (simp add: s2_def)
  have closed: "u \<in> T" if "t \<in> T" "waits_for s2 t = Some u" for t u
    using that T by (auto simp: w split: if_splits)
  have others: "priority (threads s2 t) \<le> priority (threads s2 u)" if "t \<noteq> c" "waits_for s2 t = Some u" for t u
    using that inv by (auto simp: w p no_inversion_def)
  have wc: "waits_for s2 c = Some h" by (simp add: w)
  obtain s' where s': "donate_priority c h s2 = Inr s'" "no_inversion s'"
    and eq: "s' = s2\<lparr>threads := (\<lambda>t. if donee s2 (priority (threads s2 c)) h t
      then (threads s2 t)\<lparr>priority := priority (threads s2 c)\<rparr> else threads s2 t)\<rparr>"
    and up: "\<forall>t. priority (threads s2 t) \<le> priority (threads s' t)"
    using donate_priority_raises [OF T(1,2) _ wc] closed others by blast
  have run: "returns (lock_contend E l c s) () s'"
    using s'(1) hold by (simp add: lock_contend_def kernel_defs lp s2_def)
  have "waits_for s' c = waits_for s2 c" by (simp add: eq waits_for_def)
  moreover have "lists s' = ?h" by (simp add: eq s2_def)
  moreover have "priority (threads s t) \<le> priority (threads s' t)" for t using up by (simp add: p)
  ultimately show ?thesis using run s'(2)
    by (intro exI [of _ s']) (simp add: w elems_insert_ordered [OF free sorted])
qed

end

section \<open>Giving a lock back\<close>

context kernel_env
begin

lemma yield_if_necessary_runs:
  assumes cpu: "on_cpu s" and mode: "\<not> thread_mlfqs s"
  shows "(\<not> preempted E s \<longrightarrow> returns (thread_yield_if_necessary E s) () s) \<and>
    (preempted E s \<longrightarrow>
      (\<forall>p n s' r. switches (thread_yield E s) p n s' r \<longrightarrow> switches (thread_yield_if_necessary E s) p n s' r))"
proof -
  have "run_order E s = map list_entry (elems E s Ready_list)" using mode by (simp add: run_order_def ready_queue_def)
  then show ?thesis
    using cpu front_eq [of Ready_list "lists s"]
    by (cases "elems E s Ready_list")
      (auto simp: thread_yield_if_necessary_def front_thread_def kernel_defs preempted_def higher_def list_empty_iff)
qed

lemma yield_if_necessary_quiet:
  assumes "on_cpu s" and "\<not> preempted E s" and "thread_mlfqs s \<longrightarrow> elems E s Ready_list = []"
  shows "returns (thread_yield_if_necessary E s) () s"
  using assms yield_if_necessary_runs [of s]
  by (cases "thread_mlfqs s") (simp_all add: thread_yield_if_necessary_def kernel_defs list_empty_iff)

text \<open>The priority a thread is left with when it gives up a lock.\<close>

lemma refresh_after:
  "refresh_priority E c (upd_cpu g (upd_sema x f (upd_lock l k s))) =
    upd_cpu g (upd_sema x f (upd_lock l k (refresh_priority E c s)))"
proof -
  have "entitled E (upd_cpu g (upd_sema x f (upd_lock l k s))) c = entitled E s c" by (simp add: entitled_def)
  then show ?thesis
    by (simp add: refresh_priority_max) (simp add: upd_thread_def upd_cpu_def upd_sema_def upd_lock_def)
qed

lemma lock_release_quiet:
  assumes cpu: "on_cpu s" and nint: "\<not> intr_context E (cpu s)" and ok: "run_ok E s"
    and mode: "thread_mlfqs s \<longrightarrow> elems E s Ready_list = []"
    and hold: "holder (locks s l) = Some (running s)"
    and held: "lock_elem_of l \<in> set (elems E s (Locks_held (running s)))"
    and nowait: "elems E s (Sema_waiters (Lock_sema l)) = []"
    and notme: "running s \<notin> list_entry ` set (elems E s (Lock_waiters l))"
    and pos: "PRI_MIN \<le> priority (threads s (running s))" and quiet: "\<not> preempted E s"
    and s1: "s1 = refresh_priority E (running s) (s\<lparr>lists := list_remove E (lock_elem_of l) (lists s)\<rparr>)"
    and quiet1: "\<forall>t \<in> set (run_order E s). \<not> higher s1 t (running s)"
  shows "\<exists>g. returns (lock_release E l s) () (upd_cpu g (upd_sema (Lock_sema l) (sema_value_update (\<lambda>v. v + 1))
      (upd_lock l (holder_update (\<lambda>_. None)) s1))) \<and> intr_get_level E (g (cpu s)) = level E s \<and>
    intr_context E (g (cpu s)) = intr_context E (cpu s)"
proof -
  let ?c = "running s"
  let ?off = "upd_cpu (\<lambda>i. snd (intr_disable E i))"
  let ?sr = "s\<lparr>lists := list_remove E (lock_elem_of l) (lists s)\<rparr>"
  let ?g1 = "\<lambda>i. intr_set_level E INTR_OFF (snd (intr_disable E i))"
  let ?up = "\<lambda>g s. upd_cpu g (upd_sema (Lock_sema l) (sema_value_update (\<lambda>v. v + 1)) (upd_lock l (holder_update (\<lambda>_. None)) s))"
  let ?s3 = "?up (\<lambda>i. ?g1 (snd (intr_disable E i))) ?sr"
  let ?s4 = "?up (\<lambda>i. ?g1 (snd (intr_disable E i))) s1"
  note rem = elems_remove_once [OF run_ok_linked [OF ok] held]
  note frame = run_queue_remove_other [OF _ ok held, simplified]
  have sr: "on_cpu ?sr" using cpu by (simp add: on_cpu_def)
  have drop: "lock_drop_waiter E l ?c (?off ?sr) = ?off ?sr"
    using notme by (intro lock_drop_waiter_none) (simp add: rem)
  have "sema_wake E (Lock_sema l) (upd_lock l (holder_update (\<lambda>_. None)) (?off ?sr)) = Inr ?s3"
    using nowait by (subst sema_wake_empty) (simp_all add: rem intr_laws upd_cpu_def upd_sema_def upd_lock_def)
  moreover have "\<not> preempted E ?s3" using quiet frame(1) by (simp add: preempted_def)
  then have "returns (preemption_check E ?s3) () ?s3"
    using preemption_check_runs [of ?s3] sr frame(2) pos by simp
  ultimately have up: "returns (sema_up E (Lock_sema l) (upd_lock l (holder_update (\<lambda>_. None)) (?off ?sr))) () ?s3"
    by (simp add: sema_up_def kernel_defs)
  have re: "refresh_priority E ?c ?s3 = ?s4" by (simp add: refresh_after s1)
  have m: "s1 = upd_thread ?c (priority_update (\<lambda>_. priority (threads s1 ?c))) ?sr"
    by (simp add: s1 refresh_priority_max)
  have o4: "on_cpu s1" "running s1 = ?c" "run_order E s1 = run_order E s" "thread_mlfqs s1 = thread_mlfqs s"
    "elems E s1 Ready_list = elems E s Ready_list"
    using sr frame(1) by (subst m, simp add: on_cpu_def rem)+
  have "\<not> preempted E ?s4"
    using quiet1 o4 by (auto simp: preempted_def)
  then have yield: "returns (thread_yield_if_necessary E ?s4) () ?s4"
    using yield_if_necessary_quiet [of ?s4] o4 mode by simp
  have rm: "upd_lists (list_remove E (lock_elem_of l)) (?off s) = ?off ?sr"
    by (simp add: upd_lists_def upd_cpu_def)
  have "returns (lock_release E l s) () (upd_cpu (intr_set_level E (level E s)) ?s4)"
    using cpu sr hold drop re up yield
    by (auto simp: lock_release_def kernel_defs kdisable_def kset_level_def lock_held_eq intr_laws rm
        intro!: returns_kbindI [of "sema_up E (Lock_sema l) _"] returns_kbindI [of "thread_yield_if_necessary E _"])
  then show ?thesis
    by (intro exI [of _ "\<lambda>i. intr_set_level E (level E s) (?g1 (snd (intr_disable E i)))"])
      (simp add: intr_laws upd_cpu_def)
qed

text \<open>A lock taken and given back around an update of the thread counter.\<close>

lemma lock_section:
  assumes cpu: "on_cpu s" and nint: "\<not> intr_context E (cpu s)" and ok: "run_ok E s"
    and mode: "thread_mlfqs s \<longrightarrow> elems E s Ready_list = []"
    and free: "holder (locks s l) = None" and v: "sema_value (semas s (Lock_sema l)) = 1"
    and unl: "unlinked E (lock_elem_of l) (lists s)"
    and nowait: "elems E s (Sema_waiters (Lock_sema l)) = []"
    and notme: "running s \<notin> list_entry ` set (elems E s (Lock_waiters l))"
    and pos: "PRI_MIN \<le> priority (threads s (running s))"
    and p: "p = Max (insert (base_priority (threads s (running s)))
      ((\<lambda>w. priority (threads s w)) ` (set (entitled E s (running s)) - {running s})))"
    and quiet: "\<forall>t \<in> set (run_order E s). priority (threads s t) \<le> priority (threads s (running s)) \<and> priority (threads s t) \<le> p"
  shows "\<exists>sa h. returns (lock_acquire E l s) () sa \<and> next_tid sa = next_tid s \<and>
    (\<forall>k. list_elems E k h = elems E s k) \<and>
    (\<forall>n. \<exists>c. returns (lock_release E l (sa\<lparr>next_tid := n\<rparr>)) () (s\<lparr>lists := h, cpu := c, next_tid := n,
        threads := (threads s)(running s := (threads s (running s))\<lparr>priority := p\<rparr>)\<rparr>) \<and>
      intr_get_level E c = level E s \<and> intr_context E c = intr_context E (cpu s))"
proof -
  let ?c = "running s" and ?h = "list_push_back E (Locks_held (running s)) (lock_elem_of l) (lists s)"
  let ?le = "lock_elem_of l"
  have v': "sema_value (semas s (Lock_sema l)) \<noteq> 0" using v by simp
  obtain g where acq: "returns (lock_acquire E l s) () (upd_cpu g (upd_lists (list_push_back E (Locks_held ?c) ?le)
        (upd_lock l (holder_update (\<lambda>_. Some ?c)) (upd_sema (Lock_sema l) (sema_value_update (\<lambda>v. v - 1)) s))))"
      (is "returns _ _ ?sa")
    and g: "intr_get_level E (g (cpu s)) = level E s" "intr_context E (g (cpu s)) = intr_context E (cpu s)"
    using lock_acquire_free [OF cpu nint free v'] by blast
  define hr where "hr = list_remove E ?le ?h"
  note push = elems_push_back [OF unl, of _ "Locks_held ?c"]
  have "linked_once E ?h" using linked_once_push_back [OF run_ok_linked [OF ok] unl] .
  from elems_remove_once [OF this, of ?le "Locks_held ?c"] have el: "list_elems E k hr = elems E s k" for k
    using unl by (simp add: hr_def push remove1_append unlinked_def)
  have rel: "\<exists>c. returns (lock_release E l (?sa\<lparr>next_tid := n\<rparr>)) () (s\<lparr>lists := hr, cpu := c, next_tid := n,
        threads := (threads s)(?c := (threads s ?c)\<lparr>priority := p\<rparr>)\<rparr>) \<and>
      intr_get_level E c = level E s \<and> intr_context E c = intr_context E (cpu s)" for n
  proof -
    define sa where "sa = ?sa\<lparr>next_tid := n\<rparr>"
    have f: "lists sa = ?h" "threads sa = threads s" "running sa = ?c" "thread_mlfqs sa = thread_mlfqs s"
      "cpu sa = g (cpu s)" "locks sa l = \<lparr>holder = Some ?c\<rparr>" "on_cpu sa = on_cpu s"
      by (simp_all add: sa_def on_cpu_def)
    have frame: "run_order E sa = run_order E s" "run_ok E sa"
      using run_queue_push_other [OF _ ok unl, of "Locks_held ?c"] ok
        run_order_cong [of sa "s\<lparr>lists := ?h\<rparr>" E] run_ok_cong [of sa "s\<lparr>lists := ?h\<rparr>" E] by (simp_all add: f)
    define s1 where "s1 = refresh_priority E (running sa) (sa\<lparr>lists := hr\<rparr>)"
    have s1: "s1 = upd_thread ?c (priority_update (\<lambda>_. p)) (sa\<lparr>lists := hr\<rparr>)"
      unfolding s1_def by (subst refresh_priority_max) (simp add: p entitled_def el f)
    have "\<not> higher sa t ?c" "\<not> higher s1 t ?c" if "t \<in> set (run_order E s)" for t
      using quiet that by (auto simp: s1 higher_def not_less f)
    then have quiet': "\<not> preempted E sa" "\<forall>t \<in> set (run_order E sa). \<not> higher s1 t (running sa)"
      by (auto simp: preempted_def frame(1) f)
    have "\<exists>g'. returns (lock_release E l sa) () (upd_cpu g' (upd_sema (Lock_sema l) (sema_value_update (\<lambda>v. v + 1))
        (upd_lock l (holder_update (\<lambda>_. None)) s1))) \<and> intr_get_level E (g' (cpu sa)) = level E sa \<and>
        intr_context E (g' (cpu sa)) = intr_context E (cpu sa)"
      using cpu nint mode nowait notme pos g quiet' s1_def
      by (intro lock_release_quiet [OF _ _ frame(2)]) (simp_all add: push f hr_def)
    then obtain g' where rel: "returns (lock_release E l sa) () (upd_cpu g' (upd_sema (Lock_sema l)
        (sema_value_update (\<lambda>v. v + 1)) (upd_lock l (holder_update (\<lambda>_. None)) s1)))"
      and g': "intr_get_level E (g' (cpu sa)) = level E sa" "intr_context E (g' (cpu sa)) = intr_context E (cpu sa)" by blast
    have "upd_cpu g' (upd_sema (Lock_sema l) (sema_value_update (\<lambda>v. v + 1)) (upd_lock l (holder_update (\<lambda>_. None)) s1)) =
        s\<lparr>lists := hr, cpu := g' (g (cpu s)), next_tid := n, threads := (threads s)(?c := (threads s ?c)\<lparr>priority := p\<rparr>)\<rparr>"
      using free by (cases "locks s l"; cases "semas s (Lock_sema l)")
        (simp add: s1 sa_def upd_thread_def upd_cpu_def upd_sema_def upd_lock_def upd_lists_def fun_upd_idem)
    with rel g g' show ?thesis by (intro exI [of _ "g' (g (cpu s))"]) (simp add: f sa_def)
  qed
  have "next_tid ?sa = next_tid s" by (simp add: upd_cpu_def upd_lists_def upd_sema_def upd_lock_def)
  with acq rel el show ?thesis by (intro exI [of _ ?sa] exI [of _ hr]) simp
qed

end


section \<open>The guarantees\<close>

text \<open>A free lock is taken at once: the caller becomes its holder, the semaphore of the lock goes from one to
  zero, and the lock joins the caller's list of held locks; no thread and no other list changes, and
  the interrupt level is restored.\<close>

theorem lock_acquire_correct:
  assumes E: "kernel_env E" and cpu: "on_cpu s" and nint: "\<not> intr_context E (cpu s)"
    and free: "holder (locks s l) = None" and v: "sema_value (semas s (Lock_sema l)) = 1"
    and unl: "unlinked E (lock_elem_of l) (lists s)"
  shows "\<exists>s'. returns (lock_acquire E l s) () s' \<and> holder (locks s' l) = Some (running s) \<and>
    lock_held_by_current_thread l s' = Inr True \<and>
    sema_value (semas s' (Lock_sema l)) = 0 \<and> threads s' = threads s \<and> level E s' = level E s \<and>
    (\<forall>k. elems E s' k = (if k = Locks_held (running s) then elems E s k @ [lock_elem_of l] else elems E s k))"
proof -
  have "sema_value (semas s (Lock_sema l)) \<noteq> 0" using v by simp
  from kernel_env.lock_acquire_free [OF E cpu nint free this] v show ?thesis
    using list_lib.elems_push_back [OF kernel_env.axioms(1) [OF E] unl] cpu
    by (elim exE conjE) (rule exI, erule conjI, simp add: lock_held_eq)
qed

text \<open>C11. A thread that finds a lock held records that it waits for it, enters the lock's waiting list in order
  of priority and donates: afterwards the holder, and every holder behind it, has at least the priority of the thread
  that waits for it, so no thread anywhere waits for a holder of lower priority, and no priority has
  been lowered.\<close>

theorem lock_contend_correct:
  assumes L: "list_lib E" and hold: "holder (locks s l) = Some h" and free: "unlinked E (elem_of c) (lists s)"
    and sorted: "sorted_wrt (\<lambda>a b. \<not> less_priority s b a) (elems E s (Lock_waiters l))"
    and inv: "no_inversion s"
    and T: "finite T" "h \<in> T" "\<And>t u. t \<in> insert c T \<Longrightarrow> waits_for s t = Some u \<Longrightarrow> u \<in> T"
  shows "\<exists>s'. returns (lock_contend E l c s) () s' \<and> no_inversion s' \<and> waits_for s' c = Some h \<and>
    elems E s' (Lock_waiters l) = ins_before (less_priority s) (elem_of c) (elems E s (Lock_waiters l)) \<and>
    (\<forall>k. k \<noteq> Lock_waiters l \<longrightarrow> elems E s' k = elems E s k) \<and>
    (\<forall>t. priority (threads s t) \<le> priority (threads s' t))"
  using assms by (rule list_lib.lock_contend_donates)

text \<open>C22. Acquiring a free lock and releasing it again, with no thread of higher priority ready, gives back the lock, its
  semaphore and every list as they were.  What can change is the caller's own priority, which is
  computed anew as the highest of its base priority and of the threads that wait for the locks it still holds:
  a priority set by \<open>thread_set_priority\<close>, which leaves the base priority alone, does not survive, and neither does
  one that the advanced scheduler has computed.\<close>

theorem lock_roundtrip:
  assumes E: "kernel_env E" and cpu: "on_cpu s" and nint: "\<not> intr_context E (cpu s)" and ok: "run_ok E s"
    and mode: "thread_mlfqs s \<longrightarrow> elems E s Ready_list = []"
    and free: "holder (locks s l) = None" and v: "sema_value (semas s (Lock_sema l)) = 1"
    and unl: "unlinked E (lock_elem_of l) (lists s)"
    and nowait: "elems E s (Sema_waiters (Lock_sema l)) = []"
    and notme: "running s \<notin> list_entry ` set (elems E s (Lock_waiters l))"
    and pos: "PRI_MIN \<le> priority (threads s (running s))"
    and p: "p = Max (insert (base_priority (threads s (running s)))
      ((\<lambda>w. priority (threads s w)) ` (set (entitled E s (running s)) - {running s})))"
    and quiet: "\<forall>t \<in> set (run_order E s). priority (threads s t) \<le> priority (threads s (running s)) \<and> priority (threads s t) \<le> p"
  shows "\<exists>s'. returns (kthen (lock_acquire E l) (lock_release E l) s) () s' \<and>
    locks s' = locks s \<and> semas s' = semas s \<and> (\<forall>k. elems E s' k = elems E s k) \<and> level E s' = level E s \<and>
    threads s' = (threads s)(running s := (threads s (running s))\<lparr>priority := p\<rparr>)"
proof -
  from kernel_env.lock_section [OF E cpu nint ok mode free v unl nowait notme pos p quiet]
  obtain sa h where acq: "returns (lock_acquire E l s) () sa" and el: "\<forall>k. list_elems E k h = elems E s k"
    and rel: "\<And>n. \<exists>c. returns (lock_release E l (sa\<lparr>next_tid := n\<rparr>)) () (s\<lparr>lists := h, cpu := c, next_tid := n,
        threads := (threads s)(running s := (threads s (running s))\<lparr>priority := p\<rparr>)\<rparr>) \<and>
      intr_get_level E c = level E s \<and> intr_context E c = intr_context E (cpu s)" by blast
  have "sa\<lparr>next_tid := next_tid sa\<rparr> = sa" by simp
  with rel [of "next_tid sa"] obtain c where c: "returns (lock_release E l sa) () (s\<lparr>lists := h, cpu := c, next_tid := next_tid sa,
        threads := (threads s)(running s := (threads s (running s))\<lparr>priority := p\<rparr>)\<rparr>)"
    "intr_get_level E c = level E s" by auto
  have "returns (kthen (lock_acquire E l) (lock_release E l) s) () (s\<lparr>lists := h, cpu := c, next_tid := next_tid sa,
        threads := (threads s)(running s := (threads s (running s))\<lparr>priority := p\<rparr>)\<rparr>)"
    unfolding kthen_def using acq c(1) by (rule returns_kbindI)
  with el c(2) show ?thesis
    by (intro exI [of _ "s\<lparr>lists := h, cpu := c, next_tid := next_tid sa,
        threads := (threads s)(running s := (threads s (running s))\<lparr>priority := p\<rparr>)\<rparr>"]) simp
qed

text \<open>\<open>lock_try_acquire\<close> takes the lock exactly when its semaphore is positive and reports which; it
  never waits.  Unlike \<open>lock_acquire\<close> it changes no list: the lock does not join the caller's list of held locks, from which
  \<open>lock_release\<close> will remove it all the same.\<close>

theorem lock_try_acquire_correct:
  assumes E: "kernel_env E" and cpu: "on_cpu s" and nheld: "holder (locks s l) \<noteq> Some (running s)"
  shows "\<exists>s'. returns (lock_try_acquire E l s) (0 < sema_value (semas s (Lock_sema l))) s' \<and>
    lists s' = lists s \<and> threads s' = threads s \<and> level E s' = level E s \<and>
    (if 0 < sema_value (semas s (Lock_sema l))
     then holder (locks s' l) = Some (running s) \<and>
       sema_value (semas s' (Lock_sema l)) = sema_value (semas s (Lock_sema l)) - 1
     else locks s' = locks s \<and> semas s' = semas s)"
proof -
  obtain ok s1 where st: "sema_try_down E (Lock_sema l) s = (ok, s1)" by (cases "sema_try_down E (Lock_sema l) s")
  have s1: "ok = (0 < sema_value (semas s (Lock_sema l)))" "lists s1 = lists s" "threads s1 = threads s"
    "running s1 = running s" "level E s1 = level E s" "locks s1 = locks s"
    "semas s1 = (if ok then (semas s)(Lock_sema l := (semas s (Lock_sema l))\<lparr>sema_value := sema_value (semas s (Lock_sema l)) - 1\<rparr>)
      else semas s)"
    using st intr_lib.get_set [OF kernel_env.axioms(2) [OF E]] intr_lib.disable_old [OF kernel_env.axioms(2) [OF E]]
    by (auto simp: sema_try_down_def Let_def split: if_splits)
  have "on_cpu s1" using cpu s1 by (simp add: on_cpu_def)
  then show ?thesis
    using cpu nheld st s1
    by (intro exI [of _ "if ok then upd_lock l (holder_update (\<lambda>_. Some (running s))) s1 else s1"])
      (auto simp: lock_try_acquire_def kernel_defs lock_held_eq)
qed

section \<open>Examples\<close>

text \<open>
  The threads of \<^const>\<open>sched_example\<close>, every semaphore with the given value, and the given waiters on the
  semaphore at address 0.
\<close>

definition sema_example :: "int \<Rightarrow> 32 word \<Rightarrow> list_elem list \<Rightarrow> ref_kstate" where
  "sema_example p v ws = (sched_example INTR_ON p)\<lparr>semas := (\<lambda>_. \<lparr>sema_value = v\<rparr>),
    lists := (lists (sched_example INTR_ON p))(Sema_waiters (Sema 0) := ws)\<rparr>"

lemma sema_example_simps [simp]:
  "semas (sema_example p v ws) x = \<lparr>sema_value = v\<rparr>" "threads (sema_example p v ws) = threads (sched_example INTR_ON p)"
  "running (sema_example p v ws) = 1" "idle_thread (sema_example p v ws) = Some 9"
  "cpu (sema_example p v ws) = \<lparr>flag_level = INTR_ON, flag_context = False, flag_pending = False\<rparr>"
  "thread_mlfqs (sema_example p v ws) = False" "locks (sema_example p v ws) l = \<lparr>holder = None\<rparr>"
  "lists (sema_example p v ws) k = (if k = Sema_waiters (Sema 0) then ws else if k = Ready_list then [elem_of 2, elem_of 3]
    else if k = All_list then [allelem_of 1, allelem_of 2, allelem_of 3, allelem_of 4] else [])"
  by (auto simp: sema_example_def sched_example_def)

lemma sema_example_facts:
  "on_cpu (sema_example p v ws)" "run_order ref_externs (sema_example p v ws) = [2, 3]"
  by (simp_all add: on_cpu_def run_order_def ready_queue_def sched_example_facts del: One_nat_def)

lemma sema_example_ok:
  assumes "ws = [] \<or> ws = [elem_of 4]"
  shows "run_ok ref_externs (sema_example p v ws)"
  using assms by (auto simp: run_ok_def ready_ok_def linked_once_def less_priority_def sched_example_facts)

theorem sema_down_takes_unit_witness:
  "\<exists>c. returns (sema_down ref_externs (Sema 0) (sema_example 31 1 [])) ()
    ((sema_example 31 1 [])\<lparr>semas := (semas (sema_example 31 1 []))(Sema 0 := \<lparr>sema_value = 0\<rparr>), cpu := c\<rparr>)"
  using sema_down_takes_unit [OF ref.kernel_env_axioms, of "sema_example 31 1 []" "Sema 0"] by auto

theorem sema_down_blocks_witness:
  "\<exists>s' r. switches (sema_down ref_externs (Sema 0) (sema_example 31 0 [elem_of 4])) 1 2 s' r \<and>
    lists s' (Sema_waiters (Sema 0)) = [elem_of 4, elem_of 1]"
proof -
  let ?s = "sema_example 31 0 [elem_of 4]"
  have "unlinked ref_externs (elem_of (running ?s)) (lists ?s)" by (simp add: unlinked_def)
  moreover have "less_priority ?s (elem_of 1) (elem_of 4) = False"
    by (simp add: less_priority_def sched_example_def ref_threads_def)
  ultimately show ?thesis
    using sema_down_blocks [OF ref.kernel_env_axioms, where s = ?s and x = "Sema 0" and n = 2]
    by (fastforce simp: sema_example_facts sema_example_ok run_next_def sched_example_facts ins_before_Cons simp del: One_nat_def)
qed

theorem sema_try_down_correct_witness:
  "fst (sema_try_down ref_externs (Sema 0) (sema_example 31 0 [])) = False"
  using sema_try_down_correct [OF ref.kernel_env_axioms, where s = "sema_example 31 0 []" and x = "Sema 0"]
  by (simp add: case_prod_beta)

theorem sema_up_correct_witness:
  "\<exists>s1. returns (sema_up ref_externs (Sema 0) (sema_example 31 0 [elem_of 4])) () s1 \<and>
    run_order ref_externs s1 = [2, 4, 3] \<and> sema_value (semas s1 (Sema 0)) = 1"
proof -
  let ?s = "sema_example 31 0 [elem_of 4]"
  have t4: "threads ?s 4 = ref_thread THREAD_BLOCKED 31" by (simp add: sched_example_def ref_threads_def)
  have h: "on_cpu ?s" "\<not> intr_context ref_externs (cpu ?s)" "run_ok ref_externs ?s"
    "elems ref_externs ?s (Sema_waiters (Sema 0)) = elem_of 4 # []" "wakeable ?s 4"
    "Some (running ?s) \<noteq> idle_thread ?s" "run_fits ref_externs (running ?s) ?s"
    "PRI_MIN \<le> priority (threads ?s (running ?s))" "\<forall>u \<in> set (run_order ref_externs ?s). magic (threads ?s u) = THREAD_MAGIC"
    unfolding wakeable_def t4
    by (simp_all add: sema_example_facts sema_example_ok sched_example_facts kernel_consts run_fits_def ready_fits_def
        unlinked_def del: One_nat_def)
  obtain s1 where th: "threads s1 = (threads ?s)(4 := readied ?s 4)"
    and se: "semas s1 = (semas ?s)(Sema 0 := \<lparr>sema_value = sema_value (semas ?s (Sema 0)) + 1\<rparr>)"
    and ord: "run_order ref_externs s1 = ins_before (higher s1) 4 (run_order ref_externs ?s)"
    and res: "if \<exists>u \<in> set (run_order ref_externs s1). priority (threads s1 u) > priority (threads s1 (running ?s)) then
      \<exists>n ts s2 r. run_order ref_externs s1 = n # ts \<and> switches (sema_up ref_externs (Sema 0) ?s) (running ?s) n s2 r \<and>
        run_order ref_externs s2 = ins_before (higher s1) (running ?s) ts
    else returns (sema_up ref_externs (Sema 0) ?s) () s1"
    using sema_up_correct [OF ref.kernel_env_axioms h] by blast
  have p: "priority (threads s1 1) = 31" "priority (threads s1 2) = 31" "priority (threads s1 3) = 20"
    "priority (threads s1 4) = 31"
    by (simp_all add: th readied_def sched_example_def ref_threads_def)
  have o: "run_order ref_externs s1 = [2, 4, 3]"
    using ord by (simp add: ins_before_Cons higher_def p sema_example_facts)
  have "returns (sema_up ref_externs (Sema 0) ?s) () s1" using res by (simp add: o p del: One_nat_def)
  then show ?thesis using o se by auto
qed

theorem lock_acquire_correct_witness:
  "\<exists>s'. returns (lock_acquire ref_externs 5 (sema_example 40 1 [])) () s' \<and> holder (locks s' 5) = Some 1 \<and>
    lists s' (Locks_held 1) = [lock_elem_of 5]"
proof -
  let ?s = "sema_example 40 1 []"
  have h: "on_cpu ?s" "\<not> intr_context ref_externs (cpu ?s)" "holder (locks ?s 5) = None"
    "sema_value (semas ?s (Lock_sema 5)) = 1" "unlinked ref_externs (lock_elem_of 5) (lists ?s)"
    by (simp_all add: sema_example_facts unlinked_def)
  obtain s' where s': "returns (lock_acquire ref_externs 5 ?s) () s'" "holder (locks s' 5) = Some (running ?s)"
    "\<forall>k. elems ref_externs s' k =
      (if k = Locks_held (running ?s) then elems ref_externs ?s k @ [lock_elem_of 5] else elems ref_externs ?s k)"
    using lock_acquire_correct [OF ref.kernel_env_axioms h] by blast
  have "lists s' (Locks_held 1) = [lock_elem_of 5]" using spec [OF s'(3), of "Locks_held 1"] by simp
  with s'(1,2) show ?thesis by auto
qed

theorem lock_contend_correct_witness:
  "\<exists>s'. returns (lock_contend ref_externs 5 1 ((sema_example 40 0 [])\<lparr>locks := (\<lambda>_. \<lparr>holder = Some 3\<rparr>)\<rparr>)) () s' \<and>
    no_inversion s' \<and> 40 \<le> priority (threads s' 3)"
proof -
  let ?s = "(sema_example 40 0 [])\<lparr>locks := (\<lambda>_. \<lparr>holder = Some 3\<rparr>)\<rparr>"
  have w: "waits_for ?s t = None" for t by (simp add: waits_for_def sched_example_def ref_threads_def ref_thread_def split: prod.split)
  have "\<exists>s'. returns (lock_contend ref_externs 5 1 ?s) () s' \<and> no_inversion s' \<and> waits_for s' 1 = Some 3 \<and>
      elems ref_externs s' (Lock_waiters 5) = ins_before (less_priority ?s) (elem_of 1) (elems ref_externs ?s (Lock_waiters 5)) \<and>
      (\<forall>k. k \<noteq> Lock_waiters 5 \<longrightarrow> elems ref_externs s' k = elems ref_externs ?s k) \<and>
      (\<forall>t. priority (threads ?s t) \<le> priority (threads s' t))"
    by (rule lock_contend_correct [OF ref.list_lib_axioms, where T = "{3}"])
      (simp_all add: w no_inversion_def unlinked_def del: One_nat_def)
  then obtain s' where s': "returns (lock_contend ref_externs 5 1 ?s) () s'" "no_inversion s'" "waits_for s' 1 = Some 3"
    "priority (threads ?s 1) \<le> priority (threads s' 1)" by blast
  moreover have "priority (threads s' 1) \<le> priority (threads s' 3)" using s'(2,3) unfolding no_inversion_def by blast
  ultimately show ?thesis by (intro exI [of _ s']) (simp add: sched_example_facts del: One_nat_def)
qed

theorem lock_roundtrip_witness:
  "\<exists>s'. returns (kthen (lock_acquire ref_externs 5) (lock_release ref_externs 5) (sema_example 40 1 [])) () s' \<and>
    locks s' = locks (sema_example 40 1 []) \<and> priority (threads s' 1) = 40"
proof -
  let ?s = "sema_example 40 1 []"
  have h: "on_cpu ?s" "\<not> intr_context ref_externs (cpu ?s)" "run_ok ref_externs ?s" "thread_mlfqs ?s \<longrightarrow> elems ref_externs ?s Ready_list = []"
    "holder (locks ?s 5) = None" "sema_value (semas ?s (Lock_sema 5)) = 1" "unlinked ref_externs (lock_elem_of 5) (lists ?s)"
    "elems ref_externs ?s (Sema_waiters (Lock_sema 5)) = []"
    "running ?s \<notin> list_entry ` set (elems ref_externs ?s (Lock_waiters 5))"
    "PRI_MIN \<le> priority (threads ?s (running ?s))"
    "40 = Max (insert (base_priority (threads ?s (running ?s)))
      ((\<lambda>w. priority (threads ?s w)) ` (set (entitled ref_externs ?s (running ?s)) - {running ?s})))"
    "\<forall>t \<in> set (run_order ref_externs ?s). priority (threads ?s t) \<le> priority (threads ?s (running ?s)) \<and> priority (threads ?s t) \<le> 40"
    by (simp_all add: sema_example_facts sema_example_ok sched_example_facts unlinked_def entitled_def kernel_consts
        del: One_nat_def)
  obtain s' where "returns (kthen (lock_acquire ref_externs 5) (lock_release ref_externs 5) ?s) () s'" "locks s' = locks ?s"
    "threads s' = (threads ?s)(running ?s := (threads ?s (running ?s))\<lparr>priority := 40\<rparr>)"
    using lock_roundtrip [OF ref.kernel_env_axioms h] by blast
  then show ?thesis by auto
qed

theorem lock_try_acquire_correct_witness:
  "\<exists>s'. returns (lock_try_acquire ref_externs 5 (sema_example 40 1 [])) True s' \<and> holder (locks s' 5) = Some 1 \<and>
    lists s' (Locks_held 1) = []"
  using lock_try_acquire_correct [OF ref.kernel_env_axioms, where s = "sema_example 40 1 []" and l = 5]
  by (auto simp: sema_example_facts simp del: One_nat_def)

end
