(* ===== verification/Conditions.thy ===== *)
theory Conditions
  imports Locking
begin

text \<open>
  What condition variables guarantee: a signal wakes a waiter of the highest priority, the one that has waited
  longest among equals, and a broadcast wakes them all.
\<close>

section \<open>Waiters\<close>

text \<open>The thread that \<open>cond_sema_priority_cmp\<close> looks at: the first one blocked on the semaphore of a waiter.\<close>

definition sleeper_of :: "('l, 'i, 'p) externs \<Rightarrow> ('l, 'i, 'p) kstate \<Rightarrow> list_elem \<Rightarrow> thread_ptr" where
  "sleeper_of E s e = list_entry (list_front E (Sema_waiters (Waiter_sema (list_entry e))) (lists s))"

text \<open>Every waiter of a condition has gone to sleep: exactly one thread is blocked on its semaphore.\<close>

definition waiters_ok :: "('l, 'i, 'p) externs \<Rightarrow> cond_ptr \<Rightarrow> ('l, 'i, 'p) kstate \<Rightarrow> bool" where
  "waiters_ok E c s \<longleftrightarrow> (\<forall>e \<in> set (elems E s (Cond_waiters c)). member_of e = Waiter_elem \<and>
    elems E s (Sema_waiters (Waiter_sema (list_entry e))) = [elem_of (sleeper_of E s e)] \<and> wakeable s (sleeper_of E s e))"

lemma cond_cmp_sleeper:
  "cond_sema_priority_cmp E s a b \<longleftrightarrow> priority (threads s (sleeper_of E s a)) < priority (threads s (sleeper_of E s b))"
  by (simp add: cond_sema_priority_cmp_def sleeper_of_def Let_def)

context kernel_env
begin

text \<open>The choice that \<open>list_max\<close> makes.\<close>

lemma signal_choice:
  assumes ne: "elems E s (Cond_waiters c) \<noteq> []" and ws: "waiters_ok E c s"
  shows "\<exists>xs w ys. elems E s (Cond_waiters c) = xs @ waiter_elem_of w # ys \<and>
    list_max E (Cond_waiters c) (cond_sema_priority_cmp E s) (lists s) = waiter_elem_of w \<and>
    (\<forall>e \<in> set xs. priority (threads s (sleeper_of E s e)) < priority (threads s (sleeper_of E s (waiter_elem_of w)))) \<and>
    (\<forall>e \<in> set ys. priority (threads s (sleeper_of E s e)) \<le> priority (threads s (sleeper_of E s (waiter_elem_of w))))"
proof -
  let ?m = "list_max E (Cond_waiters c) (cond_sema_priority_cmp E s) (lists s)"
  have "weak_order_on (cond_sema_priority_cmp E s) (set (elems E s (Cond_waiters c)))"
    by (rule weak_order_on_key) (rule cond_cmp_sleeper)
  from max_split [OF ne this] obtain xs ys where split: "elems E s (Cond_waiters c) = xs @ ?m # ys"
    and xs: "\<forall>e \<in> set xs. cond_sema_priority_cmp E s e ?m" and ys: "\<forall>e \<in> set ys. \<not> cond_sema_priority_cmp E s ?m e"
    by blast
  have "?m \<in> set (elems E s (Cond_waiters c))" by (subst split) simp
  then have "member_of ?m = Waiter_elem" using ws by (simp add: waiters_ok_def)
  then obtain w where "?m = waiter_elem_of w" by (cases ?m) auto
  with split xs ys show ?thesis by (metis cond_cmp_sleeper not_less)
qed

lemma cond_signal_runs:
  assumes cpu: "on_cpu s" and nint: "\<not> intr_context E (cpu s)" and ok: "run_ok E s"
    and hold: "holder (locks s l) = Some (running s)"
    and ne: "elems E s (Cond_waiters c) \<noteq> []" and ws: "waiters_ok E c s"
    and idle: "Some (running s) \<noteq> idle_thread s" and fits: "run_fits E (running s) s"
    and pos: "PRI_MIN \<le> priority (threads s (running s))"
    and m: "\<forall>u \<in> set (run_order E s). magic (threads s u) = THREAD_MAGIC"
  shows "\<exists>xs w ys t s1. elems E s (Cond_waiters c) = xs @ waiter_elem_of w # ys \<and>
    t = sleeper_of E s (waiter_elem_of w) \<and>
    (\<forall>e \<in> set xs. priority (threads s (sleeper_of E s e)) < priority (threads s t)) \<and>
    (\<forall>e \<in> set ys. priority (threads s (sleeper_of E s e)) \<le> priority (threads s t)) \<and>
    elems E s1 (Cond_waiters c) = xs @ ys \<and> elems E s1 (Sema_waiters (Waiter_sema w)) = [] \<and>
    (\<forall>k. \<not> run_list k \<and> k \<noteq> Cond_waiters c \<and> k \<noteq> Sema_waiters (Waiter_sema w) \<longrightarrow> elems E s1 k = elems E s k) \<and>
    threads s1 = (threads s)(t := readied s t) \<and>
    semas s1 = (semas s)(Waiter_sema w := \<lparr>sema_value = sema_value (semas s (Waiter_sema w)) + 1\<rparr>) \<and>
    run_order E s1 = ins_before (higher s1) t (run_order E s) \<and> run_ok E s1 \<and> level E s1 = level E s \<and>
    (\<exists>h g. s1 = s\<lparr>lists := h, cpu := g, threads := threads s1, semas := semas s1\<rparr> \<and>
      (\<forall>u. u \<noteq> t \<longrightarrow> unlinked E (elem_of u) h = unlinked E (elem_of u) (lists s)) \<and> intr_context E g = intr_context E (cpu s)) \<and>
    (if \<exists>u \<in> set (run_order E s1). priority (threads s1 u) > priority (threads s1 (running s)) then
      \<exists>n ts s2 r. run_order E s1 = n # ts \<and> switches (cond_signal E c l s) (running s) n s2 r \<and>
        run_order E s2 = ins_before (higher s1) (running s) ts
    else returns (cond_signal E c l s) () s1)"
proof -
  obtain xs w ys where split: "elems E s (Cond_waiters c) = xs @ waiter_elem_of w # ys"
    and max: "list_max E (Cond_waiters c) (cond_sema_priority_cmp E s) (lists s) = waiter_elem_of w"
    and best: "\<forall>e \<in> set xs. priority (threads s (sleeper_of E s e)) < priority (threads s (sleeper_of E s (waiter_elem_of w)))"
      "\<forall>e \<in> set ys. priority (threads s (sleeper_of E s e)) \<le> priority (threads s (sleeper_of E s (waiter_elem_of w)))"
    using signal_choice [OF ne ws] by blast
  define t where "t = sleeper_of E s (waiter_elem_of w)"
  define h0 where "h0 = list_remove E (waiter_elem_of w) (lists s)"
  define s0 where "s0 = s\<lparr>lists := h0\<rparr>"
  have mem: "waiter_elem_of w \<in> set (elems E s (Cond_waiters c))" by (simp add: split)
  note linked = run_ok_linked [OF ok]
  note rem = elems_remove_once [OF linked mem, folded h0_def]
  have f0: "lists s0 = h0" "cpu s0 = cpu s" "threads s0 = threads s" "semas s0 = semas s" "running s0 = running s"
    "idle_thread s0 = idle_thread s" "thread_mlfqs s0 = thread_mlfqs s" "on_cpu s0 = on_cpu s"
    by (simp_all add: s0_def on_cpu_def)
  have q0: "run_order E s0 = run_order E s" "run_ok E s0"
    using run_queue_remove_other [OF _ ok mem] by (simp_all add: s0_def h0_def)
  have wake: "elems E s0 (Sema_waiters (Waiter_sema w)) = elem_of t # []" "wakeable s0 t"
    using ws mem by (auto simp: waiters_ok_def t_def f0 rem wakeable_def)
  have un0: "unlinked E e h0 = unlinked E e (lists s)" if "e \<noteq> waiter_elem_of w" for e
    using that by (simp add: unlinked_def rem) (metis in_set_remove1)
  have fits0: "run_fits E (running s0) s0"
    using fits un0 by (simp add: run_fits_def mlfqs_fits_def ready_fits_def f0 split: if_splits)
  have distinct: "remove1 (waiter_elem_of w) (elems E s (Cond_waiters c)) = xs @ ys"
    using linked by (simp add: split linked_once_def remove1_append)
      (metis distinct_append not_distinct_conv_prefix append_Cons append_Nil split)
  have r: "readied s0 t = readied s t" by (simp add: readied_def f0)
  from sema_up_runs [OF _ _ q0(2) wake, unfolded f0 q0(1) r] cpu nint idle fits0 pos m
  obtain s1 h g where s1: "threads s1 = (threads s)(t := readied s t)"
    "semas s1 = (semas s)(Waiter_sema w := \<lparr>sema_value = sema_value (semas s (Waiter_sema w)) + 1\<rparr>)"
    "elems E s1 (Sema_waiters (Waiter_sema w)) = []" "run_order E s1 = ins_before (higher s1) t (run_order E s)"
    "level E s1 = level E s" "run_ok E s1"
    and frame: "\<forall>k. \<not> run_list k \<and> k \<noteq> Sema_waiters (Waiter_sema w) \<longrightarrow> elems E s1 k = list_elems E k h0"
    and eq: "s1 = s0\<lparr>lists := h, cpu := g, threads := threads s1, semas := semas s1\<rparr>"
    and un: "\<forall>e. e \<noteq> elem_of t \<longrightarrow> unlinked E e h = unlinked E e h0" and ctx: "intr_context E g = intr_context E (cpu s)"
    and up: "if \<exists>u \<in> set (run_order E s1). priority (threads s1 u) > priority (threads s1 (running s)) then
      \<exists>n ts s2 r. run_order E s1 = n # ts \<and> switches (sema_up E (Waiter_sema w) s0) (running s) n s2 r \<and>
        run_order E s2 = ins_before (higher s1) (running s) ts
    else returns (sema_up E (Waiter_sema w) s0) () s1"
    unfolding f0 by blast
  have step: "upd_lists (list_remove E (waiter_elem_of w)) s = s0" by (simp add: s0_def h0_def upd_lists_def)
  have run: "returns (cond_signal E c l s) () s' \<longleftrightarrow> returns (sema_up E (Waiter_sema w) s0) () s'"
    "switches (cond_signal E c l s) p n s' k \<longleftrightarrow> switches (sema_up E (Waiter_sema w) s0) p n s' k" for s' p n k
    using cpu nint hold ne max step by (simp_all add: cond_signal_def kernel_defs lock_held_eq list_empty_iff)
  have "elems E s1 (Cond_waiters c) = xs @ ys" using frame by (simp add: rem distinct)
  moreover have "\<forall>k. \<not> run_list k \<and> k \<noteq> Cond_waiters c \<and> k \<noteq> Sema_waiters (Waiter_sema w) \<longrightarrow> elems E s1 k = elems E s k"
    using frame by (simp add: rem)
  moreover have "s1 = s\<lparr>lists := h, cpu := g, threads := threads s1, semas := semas s1\<rparr>" by (subst eq) (simp add: s0_def)
  moreover have "\<forall>u. u \<noteq> t \<longrightarrow> unlinked E (elem_of u) h = unlinked E (elem_of u) (lists s)" using un un0 by simp
  moreover note split best [folded t_def] s1 ctx up [folded run] t_def
  ultimately show ?thesis
    by (intro exI [where x = xs], intro exI [where x = w], intro exI [where x = ys], intro exI [where x = t],
        intro exI [where x = s1]) blast
qed

section \<open>Broadcast\<close>

text \<open>What does not change for the waiters that are left when one of them has been woken.\<close>

lemma waiters_after_signal:
  assumes ok: "run_ok E s" and ws: "waiters_ok E c s" and split: "elems E s (Cond_waiters c) = xs @ waiter_elem_of w # ys"
    and t: "t = sleeper_of E s (waiter_elem_of w)" and left: "elems E s1 (Cond_waiters c) = xs @ ys"
    and frame: "\<forall>k. \<not> run_list k \<and> k \<noteq> Cond_waiters c \<and> k \<noteq> Sema_waiters (Waiter_sema w) \<longrightarrow> elems E s1 k = elems E s k"
    and th: "threads s1 = (threads s)(t := readied s t)"
    and mode: "thread_mlfqs s1 = thread_mlfqs s" "idle_thread s1 = idle_thread s"
  shows "\<forall>e \<in> set (xs @ ys). sleeper_of E s1 e = sleeper_of E s e \<and> sleeper_of E s e \<noteq> t" and "waiters_ok E c s1"
proof -
  have linked: "linked_once E (lists s)" using ok by (rule run_ok_linked)
  have one: "sleeper_of E s1 e = sleeper_of E s e \<and> sleeper_of E s e \<noteq> t \<and>
      elems E s1 (Sema_waiters (Waiter_sema (list_entry e))) = [elem_of (sleeper_of E s e)]"
    if e: "e \<in> set (xs @ ys)" for e
  proof -
    have mem: "e \<in> set (elems E s (Cond_waiters c))" "waiter_elem_of w \<in> set (elems E s (Cond_waiters c))"
      using e by (auto simp: split)
    have "distinct (elems E s (Cond_waiters c))" using linked by (simp add: linked_once_def)
    then have "e \<noteq> waiter_elem_of w" using e by (auto simp: split)
    then have ne: "list_entry e \<noteq> w" using ws mem by (cases e) (auto simp: waiters_ok_def)
    have "elems E s (Sema_waiters (Waiter_sema (list_entry e'))) = [elem_of (sleeper_of E s e')]"
      if "e' \<in> set (elems E s (Cond_waiters c))" for e'
      using ws that by (simp add: waiters_ok_def)
    from this [OF mem(1)] this [OF mem(2)]
    have l: "elems E s (Sema_waiters (Waiter_sema (list_entry e))) = [elem_of (sleeper_of E s e)]"
      "elems E s (Sema_waiters (Waiter_sema w)) = [elem_of t]"
      by (simp_all add: t)
    have l1: "elems E s1 (Sema_waiters (Waiter_sema (list_entry e))) = [elem_of (sleeper_of E s e)]"
      using frame ne l(1) by simp
    then have "sleeper_of E s1 e = sleeper_of E s e" using front_eq [OF l1] by (subst sleeper_of_def) simp
    moreover have "sleeper_of E s e \<noteq> t"
    proof
      assume "sleeper_of E s e = t"
      with l have "set (elems E s (Sema_waiters (Waiter_sema (list_entry e)))) \<inter> set (elems E s (Sema_waiters (Waiter_sema w))) \<noteq> {}"
        by simp
      moreover have "Sema_waiters (Waiter_sema (list_entry e)) \<noteq> Sema_waiters (Waiter_sema w)" using ne by simp
      then have "set (elems E s (Sema_waiters (Waiter_sema (list_entry e)))) \<inter> set (elems E s (Sema_waiters (Waiter_sema w))) = {}"
        using linked unfolding linked_once_def by metis
      ultimately show False by simp
    qed
    ultimately show ?thesis using l1 by simp
  qed
  then show "\<forall>e \<in> set (xs @ ys). sleeper_of E s1 e = sleeper_of E s e \<and> sleeper_of E s e \<noteq> t" by blast
  have "wakeable s1 (sleeper_of E s1 e) \<and> member_of e = Waiter_elem" if e: "e \<in> set (xs @ ys)" for e
  proof -
    have "e \<in> set (elems E s (Cond_waiters c))" using e by (auto simp: split)
    then show ?thesis using ws one [OF e] by (simp add: waiters_ok_def wakeable_def th mode)
  qed
  then show "waiters_ok E c s1" using one by (simp add: waiters_ok_def left)
qed

lemma cond_broadcast_wakes:
  assumes "length (elems E s (Cond_waiters c)) = n"
    and "on_cpu s" and "\<not> intr_context E (cpu s)" and "run_ok E s"
    and "holder (locks s l) = Some (running s)" and "waiters_ok E c s"
    and "Some (running s) \<noteq> idle_thread s" and "run_fits E (running s) s"
    and "PRI_MIN \<le> priority (threads s (running s))"
    and "\<forall>u \<in> set (run_order E s). magic (threads s u) = THREAD_MAGIC \<and> priority (threads s u) \<le> priority (threads s (running s))"
    and "\<forall>e \<in> set (elems E s (Cond_waiters c)).
      priority (readied s (sleeper_of E s e)) \<le> priority (threads s (running s))"
  shows "\<exists>s'. returns (cond_broadcast E c l s) () s' \<and> elems E s' (Cond_waiters c) = [] \<and>
    (\<forall>t. threads s' t = (if t \<in> sleeper_of E s ` set (elems E s (Cond_waiters c)) then readied s t else threads s t)) \<and>
    mset (run_order E s') = mset (run_order E s) + mset (map (sleeper_of E s) (elems E s (Cond_waiters c))) \<and>
    run_ok E s' \<and> level E s' = level E s \<and> locks s' = locks s"
  using assms
proof (induction n arbitrary: s)
  case 0
  then show ?case
    by (intro exI [of _ s]) (auto simp: cond_broadcast_def list_empty_iff intro!: returns_kwhileI)
next
  case (Suc n)
  note cpu = Suc.prems(2) and ok = Suc.prems(4) and ws = Suc.prems(6)
  let ?c = "running s"
  have ne: "elems E s (Cond_waiters c) \<noteq> []" using Suc.prems(1) by auto
  have m: "\<forall>u \<in> set (run_order E s). magic (threads s u) = THREAD_MAGIC" using Suc.prems(10) by blast
  from cond_signal_runs [OF cpu Suc.prems(3) ok Suc.prems(5) ne ws Suc.prems(7,8,9) m]
  obtain xs w ys t s1 h g where split: "elems E s (Cond_waiters c) = xs @ waiter_elem_of w # ys"
    and t: "t = sleeper_of E s (waiter_elem_of w)" and left: "elems E s1 (Cond_waiters c) = xs @ ys"
    and frame: "\<forall>k. \<not> run_list k \<and> k \<noteq> Cond_waiters c \<and> k \<noteq> Sema_waiters (Waiter_sema w) \<longrightarrow> elems E s1 k = elems E s k"
    and th: "threads s1 = (threads s)(t := readied s t)"
    and order: "run_order E s1 = ins_before (higher s1) t (run_order E s)" "run_ok E s1" "level E s1 = level E s"
    and eq: "s1 = s\<lparr>lists := h, cpu := g, threads := threads s1, semas := semas s1\<rparr>"
    and un: "\<forall>u. u \<noteq> t \<longrightarrow> unlinked E (elem_of u) h = unlinked E (elem_of u) (lists s)"
    and ctx: "intr_context E g = intr_context E (cpu s)"
    and sig: "if \<exists>u \<in> set (run_order E s1). priority (threads s1 u) > priority (threads s1 ?c) then
      \<exists>n ts s2 r. run_order E s1 = n # ts \<and> switches (cond_signal E c l s) ?c n s2 r \<and>
        run_order E s2 = ins_before (higher s1) ?c ts
    else returns (cond_signal E c l s) () s1"
    by blast
  have f1: "lists s1 = h" "cpu s1 = g" "running s1 = ?c" "idle_thread s1 = idle_thread s"
    "thread_mlfqs s1 = thread_mlfqs s" "locks s1 = locks s" by (subst eq, simp)+
  note rest = waiters_after_signal [OF ok ws split t left frame th f1(5,4)]
  have mem: "waiter_elem_of w \<in> set (elems E s (Cond_waiters c))" by (simp add: split)
  then have wk: "wakeable s t" using ws by (auto simp: waiters_ok_def t)
  then have tc: "t \<noteq> ?c" using cpu by (auto simp: on_cpu_def wakeable_def)
  have low: "\<forall>u \<in> set (run_order E s1). magic (threads s1 u) = THREAD_MAGIC \<and> priority (threads s1 u) \<le> priority (threads s1 ?c)"
    using Suc.prems(10,11) mem wk tc by (auto simp: order(1) th t wakeable_def readied_def)
  then have run: "returns (cond_signal E c l s) () s1" using sig by (auto simp: not_less split: if_splits)
  have r: "readied s1 u = readied s u" if "u \<noteq> t" for u using that by (simp add: readied_def th f1)
  have "\<exists>s'. returns (cond_broadcast E c l s1) () s' \<and> elems E s' (Cond_waiters c) = [] \<and>
    (\<forall>t. threads s' t = (if t \<in> sleeper_of E s1 ` set (elems E s1 (Cond_waiters c)) then readied s1 t else threads s1 t)) \<and>
    mset (run_order E s') = mset (run_order E s1) + mset (map (sleeper_of E s1) (elems E s1 (Cond_waiters c))) \<and>
    run_ok E s' \<and> level E s' = level E s1 \<and> locks s' = locks s1"
  proof (rule Suc.IH)
    show "length (elems E s1 (Cond_waiters c)) = n" using Suc.prems(1) by (simp add: left split)
    show "on_cpu s1" using cpu tc by (simp add: on_cpu_def f1 th)
    show "\<not> intr_context E (cpu s1)" "holder (locks s1 l) = Some (running s1)" "Some (running s1) \<noteq> idle_thread s1"
      using Suc.prems(3,5,7) ctx by (simp_all add: f1)
    show "run_ok E s1" "waiters_ok E c s1" by (rule order rest)+
    show "run_fits E (running s1) s1"
      using Suc.prems(8) tc un by (simp add: run_fits_def mlfqs_fits_def ready_fits_def f1 th split: if_splits)
    show "PRI_MIN \<le> priority (threads s1 (running s1))" using Suc.prems(9) tc by (simp add: f1 th)
    show "\<forall>u \<in> set (run_order E s1). magic (threads s1 u) = THREAD_MAGIC \<and> priority (threads s1 u) \<le> priority (threads s1 (running s1))"
      using low by (simp add: f1)
    show "\<forall>e \<in> set (elems E s1 (Cond_waiters c)). priority (readied s1 (sleeper_of E s1 e)) \<le> priority (threads s1 (running s1))"
    proof
      fix e assume "e \<in> set (elems E s1 (Cond_waiters c))"
      then have e: "e \<in> set (xs @ ys)" by (simp only: left)
      then have "priority (readied s (sleeper_of E s e)) \<le> priority (threads s ?c)"
        using Suc.prems(11) by (auto simp: split)
      moreover have "sleeper_of E s1 e = sleeper_of E s e" "sleeper_of E s e \<noteq> t" using rest(1) e by blast+
      ultimately show "priority (readied s1 (sleeper_of E s1 e)) \<le> priority (threads s1 (running s1))"
        using r tc by (simp add: f1 th)
    qed
  qed
  then obtain s' where s': "returns (cond_broadcast E c l s1) () s'" "elems E s' (Cond_waiters c) = []"
    "\<And>u. threads s' u = (if u \<in> sleeper_of E s1 ` set (xs @ ys) then readied s1 u else threads s1 u)"
    "mset (run_order E s') = mset (run_order E s1) + mset (map (sleeper_of E s1) (xs @ ys))"
    "run_ok E s'" "level E s' = level E s1" "locks s' = locks s1"
    unfolding left by blast
  have im: "sleeper_of E s1 ` set (xs @ ys) = sleeper_of E s ` set (xs @ ys)" "t \<notin> sleeper_of E s ` set (xs @ ys)"
    using rest(1) by (auto intro!: image_cong)
  have mp: "map (sleeper_of E s1) (xs @ ys) = map (sleeper_of E s) (xs @ ys)" using rest(1) by (intro map_cong) auto
  have "threads s' u = (if u \<in> sleeper_of E s ` set (elems E s (Cond_waiters c)) then readied s u else threads s u)" for u
  proof (cases "u = t")
    case True
    then show ?thesis using im t by (simp add: s'(3) th split)
  next
    case False
    then show ?thesis using im t r by (auto simp: s'(3) th split)
  qed
  moreover have "mset (run_order E s') = mset (run_order E s) + mset (map (sleeper_of E s) (elems E s (Cond_waiters c)))"
    using s'(4) t unfolding mp by (simp add: order(1) split)
  moreover have "returns (cond_broadcast E c l s) () s'"
    using run s'(1) ne unfolding cond_broadcast_def by (intro returns_kwhileI) (auto simp: list_empty_iff)
  ultimately show ?case using s'(2,5-7) order(3) f1(6) by (intro exI [of _ s']) simp
qed

end

section \<open>The guarantees\<close>

text \<open>C16. A signal by the holder of the lock does nothing when no thread waits.  Otherwise, if every waiter has gone to
  sleep, it takes exactly one off the condition: a thread of the highest priority among those that wait, and of
  these the one that came first.  That thread is made ready and its semaphore gets the unit it waits for; the
  caller gives way if and only if a ready thread now has a higher priority than its own.\<close>

theorem cond_signal_correct:
  assumes E: "kernel_env E" and cpu: "on_cpu s" and nint: "\<not> intr_context E (cpu s)" and "run_ok E s"
    and hold: "holder (locks s l) = Some (running s)" and "waiters_ok E c s"
    and "Some (running s) \<noteq> idle_thread s" and "run_fits E (running s) s"
    and "PRI_MIN \<le> priority (threads s (running s))"
    and "\<forall>u \<in> set (run_order E s). magic (threads s u) = THREAD_MAGIC"
  shows "if elems E s (Cond_waiters c) = [] then returns (cond_signal E c l s) () s
    else \<exists>xs w ys t s1. elems E s (Cond_waiters c) = xs @ waiter_elem_of w # ys \<and>
      t = sleeper_of E s (waiter_elem_of w) \<and>
      (\<forall>e \<in> set xs. priority (threads s (sleeper_of E s e)) < priority (threads s t)) \<and>
      (\<forall>e \<in> set ys. priority (threads s (sleeper_of E s e)) \<le> priority (threads s t)) \<and>
      elems E s1 (Cond_waiters c) = xs @ ys \<and> threads s1 = (threads s)(t := readied s t) \<and>
      semas s1 = (semas s)(Waiter_sema w := \<lparr>sema_value = sema_value (semas s (Waiter_sema w)) + 1\<rparr>) \<and>
      run_order E s1 = ins_before (higher s1) t (run_order E s) \<and> run_ok E s1 \<and>
      (if \<exists>u \<in> set (run_order E s1). priority (threads s1 u) > priority (threads s1 (running s)) then
        \<exists>n ts s2 r. run_order E s1 = n # ts \<and> switches (cond_signal E c l s) (running s) n s2 r \<and>
          run_order E s2 = ins_before (higher s1) (running s) ts
      else returns (cond_signal E c l s) () s1)"
proof (cases "elems E s (Cond_waiters c) = []")
  case True
  have "list_empty E (Cond_waiters c) (lists s)"
    using list_lib.list_empty_iff [OF kernel_env.axioms(1) [OF E]] True by simp
  with True cpu nint hold show ?thesis by (simp add: cond_signal_def kernel_defs lock_held_eq)
next
  case False
  from kernel_env.cond_signal_runs [OF assms(1-5) False assms(6-)] False show ?thesis
    by (simp only: if_False) blast
qed

text \<open>C17. A broadcast ends and wakes every waiting thread when none of them, and no ready thread, has a higher priority than
  the caller: the condition has no waiters left, all of them are ready, the run queue has gained exactly these
  threads, and the locks are as they were.\<close>

theorem cond_broadcast_correct:
  assumes E: "kernel_env E" and "on_cpu s" and "\<not> intr_context E (cpu s)" and "run_ok E s"
    and "holder (locks s l) = Some (running s)" and "waiters_ok E c s"
    and "Some (running s) \<noteq> idle_thread s" and "run_fits E (running s) s"
    and "PRI_MIN \<le> priority (threads s (running s))"
    and "\<forall>u \<in> set (run_order E s). magic (threads s u) = THREAD_MAGIC \<and> priority (threads s u) \<le> priority (threads s (running s))"
    and "\<forall>e \<in> set (elems E s (Cond_waiters c)).
      priority (readied s (sleeper_of E s e)) \<le> priority (threads s (running s))"
  shows "\<exists>s'. returns (cond_broadcast E c l s) () s' \<and> elems E s' (Cond_waiters c) = [] \<and>
    (\<forall>t. threads s' t = (if t \<in> sleeper_of E s ` set (elems E s (Cond_waiters c)) then readied s t else threads s t)) \<and>
    mset (run_order E s') = mset (run_order E s) + mset (map (sleeper_of E s) (elems E s (Cond_waiters c))) \<and>
    run_ok E s' \<and> level E s' = level E s \<and> locks s' = locks s"
  by (rule kernel_env.cond_broadcast_wakes [OF E refl assms(2-)])

section \<open>Examples\<close>

text \<open>Thread 1, of priority 45, holds lock 7; thread 4 (priority 31) and thread 5 (priority 40) wait for condition 6.\<close>

definition cond_example :: ref_kstate where
  "cond_example = (sched_example INTR_ON 45)\<lparr>
    threads := (threads (sched_example INTR_ON 45))(4 := ref_thread THREAD_BLOCKED 31, 5 := ref_thread THREAD_BLOCKED 40),
    locks := (\<lambda>_. \<lparr>holder = None\<rparr>)(7 := \<lparr>holder = Some 1\<rparr>),
    lists := (\<lambda>_. [])(Ready_list := [elem_of 2, elem_of 3], Cond_waiters 6 := [waiter_elem_of 20, waiter_elem_of 21],
      Sema_waiters (Waiter_sema 20) := [elem_of 4], Sema_waiters (Waiter_sema 21) := [elem_of 5])\<rparr>"

lemma cond_example_simps [simp]:
  "threads cond_example 1 = ref_thread THREAD_RUNNING 45" "threads cond_example 2 = ref_thread THREAD_READY 31"
  "threads cond_example 3 = ref_thread THREAD_READY 20" "threads cond_example 4 = ref_thread THREAD_BLOCKED 31"
  "threads cond_example 5 = ref_thread THREAD_BLOCKED 40" "running cond_example = 1" "thread_mlfqs cond_example = False"
  "idle_thread cond_example = Some 9" "holder (locks cond_example 7) = Some 1"
  "cpu cond_example = \<lparr>flag_level = INTR_ON, flag_context = False, flag_pending = False\<rparr>"
  "lists cond_example k = (if k = Ready_list then [elem_of 2, elem_of 3]
    else if k = Cond_waiters 6 then [waiter_elem_of 20, waiter_elem_of 21]
    else if k = Sema_waiters (Waiter_sema 20) then [elem_of 4]
    else if k = Sema_waiters (Waiter_sema 21) then [elem_of 5] else [])"
  by (simp_all add: cond_example_def sched_example_def ref_threads_def del: One_nat_def)

lemma cond_example_linked: "linked_once ref_externs (lists cond_example)"
  by (auto simp: linked_once_def)

lemma cond_example_ok:
  "on_cpu cond_example" "\<not> intr_context ref_externs (cpu cond_example)" "run_ok ref_externs cond_example"
  "holder (locks cond_example 7) = Some (running cond_example)" "waiters_ok ref_externs 6 cond_example"
  "Some (running cond_example) \<noteq> idle_thread cond_example" "run_fits ref_externs (running cond_example) cond_example"
  "PRI_MIN \<le> priority (threads cond_example (running cond_example))" "run_order ref_externs cond_example = [2, 3]"
  using cond_example_linked
  by (simp_all add: on_cpu_def run_ok_def ready_ok_def less_priority_def waiters_ok_def sleeper_of_def wakeable_def
      run_fits_def ready_fits_def unlinked_def kernel_consts run_order_def ready_queue_def del: One_nat_def)

theorem cond_signal_correct_witness:
  "\<exists>s1. returns (cond_signal ref_externs 6 7 cond_example) () s1 \<and> status (threads s1 5) = THREAD_READY \<and>
    lists s1 (Cond_waiters 6) = [waiter_elem_of 20]"
proof -
  have m: "\<forall>u \<in> set (run_order ref_externs cond_example). magic (threads cond_example u) = THREAD_MAGIC"
    by (simp add: cond_example_ok(9))
  have s: "sleeper_of ref_externs cond_example (waiter_elem_of 20) = 4" "sleeper_of ref_externs cond_example (waiter_elem_of 21) = 5"
    by (simp_all add: sleeper_of_def)
  have ne: "elems ref_externs cond_example (Cond_waiters 6) = [waiter_elem_of 20, waiter_elem_of 21]" by simp
  from cond_signal_correct [OF ref.kernel_env_axioms cond_example_ok(1-8) m, unfolded ne if_not_P [OF list.distinct(2)]]
  obtain xs w ys t s1 where split: "[waiter_elem_of 20, waiter_elem_of 21] = xs @ waiter_elem_of w # ys"
    and t: "t = sleeper_of ref_externs cond_example (waiter_elem_of w)"
    and best: "\<forall>e \<in> set ys. priority (threads cond_example (sleeper_of ref_externs cond_example e)) \<le> priority (threads cond_example t)"
    and s1: "elems ref_externs s1 (Cond_waiters 6) = xs @ ys" "threads s1 = (threads cond_example)(t := readied cond_example t)"
      "run_order ref_externs s1 = ins_before (higher s1) t (run_order ref_externs cond_example)"
    and go: "if \<exists>u \<in> set (run_order ref_externs s1). priority (threads s1 u) > priority (threads s1 (running cond_example)) then
        \<exists>n ts s2 r. run_order ref_externs s1 = n # ts \<and>
          switches (cond_signal ref_externs 6 7 cond_example) (running cond_example) n s2 r \<and>
          run_order ref_externs s2 = ins_before (higher s1) (running cond_example) ts
      else returns (cond_signal ref_externs 6 7 cond_example) () s1"
    by - (elim exE conjE, rule that)
  have "xs = [] \<and> w = 20 \<and> ys = [waiter_elem_of 21] \<or> xs = [waiter_elem_of 20] \<and> w = 21 \<and> ys = []"
    using split by (auto simp: Cons_eq_append_conv)
  moreover have "\<not> (w = 20 \<and> ys = [waiter_elem_of 21])"
  proof
    assume "w = 20 \<and> ys = [waiter_elem_of 21]"
    with best show False by (simp add: t s)
  qed
  ultimately have "xs = [waiter_elem_of 20] \<and> w = 21 \<and> ys = []" by blast
  with t s s1 go show ?thesis
    by (intro exI [of _ s1]) (simp add: readied_def cond_example_ok(9) del: One_nat_def)
qed

theorem cond_broadcast_correct_witness:
  "\<exists>s'. returns (cond_broadcast ref_externs 6 7 cond_example) () s' \<and> lists s' (Cond_waiters 6) = [] \<and>
    status (threads s' 4) = THREAD_READY \<and> status (threads s' 5) = THREAD_READY"
proof -
  have s: "sleeper_of ref_externs cond_example (waiter_elem_of 20) = 4" "sleeper_of ref_externs cond_example (waiter_elem_of 21) = 5"
    by (simp_all add: sleeper_of_def)
  have h: "\<forall>u \<in> set (run_order ref_externs cond_example). magic (threads cond_example u) = THREAD_MAGIC \<and>
      priority (threads cond_example u) \<le> priority (threads cond_example (running cond_example))"
    "\<forall>e \<in> set (elems ref_externs cond_example (Cond_waiters 6)).
      priority (readied cond_example (sleeper_of ref_externs cond_example e)) \<le> priority (threads cond_example (running cond_example))"
    by (simp_all add: cond_example_ok(9) s readied_def del: One_nat_def)
  obtain s' where s': "returns (cond_broadcast ref_externs 6 7 cond_example) () s'"
    "elems ref_externs s' (Cond_waiters 6) = []"
    "\<forall>t. threads s' t = (if t \<in> sleeper_of ref_externs cond_example ` set (elems ref_externs cond_example (Cond_waiters 6))
      then readied cond_example t else threads cond_example t)"
    using cond_broadcast_correct [OF ref.kernel_env_axioms cond_example_ok(1-8) h] by blast
  have "status (threads s' 4) = THREAD_READY" "status (threads s' 5) = THREAD_READY"
    using spec [OF s'(3), of 4] spec [OF s'(3), of 5] by (simp_all add: s readied_def)
  with s'(1,2) show ?thesis by auto
qed

end
