(* ===== verification/Threads.thy ===== *)
theory Threads
  imports Locking
begin

text \<open>
  The life of a thread in \<^verbatim>\<open>threads/thread.c\<close>: the start of the threading system, the creation of a
  thread with the frames its first switch needs, its identifier, the function every kernel thread starts
  in, and the idle thread.  A function is named by the address of its code.
\<close>

section \<open>Creating a thread\<close>

text \<open>The name of the static lock of \<open>allocate_tid\<close>; \<open>blank_thread\<close> is what \<open>memset (t, 0, sizeof *t)\<close> leaves.\<close>

definition tid_lock :: lock_ptr where
  "tid_lock = 0"

definition blank_thread :: thread where
  "blank_thread = \<lparr>wakeup_tick = 0, tid = 0, status = THREAD_RUNNING, name = [], stack = 0, priority = 0,
    base_priority = 0, effective_priority = 0, waiting_lock = None, nice = 0, recent_cpu = 0, magic = 0\<rparr>"

definition init_thread ::
    "('l, 'i, 'p) externs \<Rightarrow> thread_ptr \<Rightarrow> string \<Rightarrow> int \<Rightarrow> ('l, 'i, 'p) kstate \<Rightarrow> ('l, 'i, 'p) kstate res" where
  "init_thread E t nm prio s =
    ensure (PRI_MIN \<le> prio \<and> prio \<le> PRI_MAX) Assert_priority_range
      (let s1 = upd_thread t (\<lambda>_. blank_thread) s;
           s2 = upd_thread t (\<lambda>th. th\<lparr>status := THREAD_BLOCKED, name := take 15 nm, stack := t + PGSIZE,
                  priority := prio\<rparr>) s1;
           s3 = upd_thread t (\<lambda>th. th\<lparr>base_priority := priority th, waiting_lock := None\<rparr>) s2;
           s4 = upd_lists (list_init E (Locks_held t)) s3;
           s5 = upd_thread t (magic_update (\<lambda>_. THREAD_MAGIC)) s4
       in res_bind
            (if thread_mlfqs s5
             then res_bind
               (if Some t = initial_thread s5
                then Inr (upd_thread t (\<lambda>th. th\<lparr>nice := NICE_DEFAULT, recent_cpu := RECENT_CPU_DEFAULT\<rparr>) s5)
                else res_bind (thread_current s5) (\<lambda>parent.
                  Inr (upd_thread t (\<lambda>th. th\<lparr>nice := nice (threads s5 parent),
                    recent_cpu := recent_cpu (threads s5 parent)\<rparr>) s5)))
               (mlfqs_update_priority t)
             else Inr s5)
            (\<lambda>s6. let old_level = fst (intr_disable E (cpu s6));
                      s7 = upd_cpu (\<lambda>i. snd (intr_disable E i)) s6;
                      s8 = upd_lists (list_push_back E All_list (allelem_of t)) s7
                  in Inr (upd_cpu (intr_set_level E old_level) s8)))"

definition alloc_frame ::
    "thread_ptr \<Rightarrow> nat \<Rightarrow> ('l, 'i, 'p) kstate \<Rightarrow> (addr \<times> ('l, 'i, 'p) kstate) res" where
  "alloc_frame t sz s =
    ensure (is_thread s (Some t)) Assert_is_thread
      (ensure (sz mod 4 = 0) Assert_frame_size
        (let s1 = upd_thread t (stack_update (\<lambda>p. p - sz)) s in Inr (stack (threads s1 t), s1)))"

definition allocate_tid :: "('l, 'i, 'p) externs \<Rightarrow> (('l, 'i, 'p) kstate, int) kernel" where
  "allocate_tid E =
    kthen (lock_acquire E tid_lock)
      (kget next_tid (\<lambda>tid.
        kthen (kmodify (\<lambda>s. s\<lparr>next_tid := i32 (next_tid s + 1)\<rparr>))
          (kthen (lock_release E tid_lock) (\<lambda>s. Done tid s))))"

text \<open>The statements of \<open>thread_create\<close> that lay out the stack; \<open>sizeof *kf\<close> is 12 on the 32-bit machine.\<close>

definition entry_frames ::
    "('l, 'i, 'p) externs \<Rightarrow> thread_ptr \<Rightarrow> addr \<Rightarrow> addr \<Rightarrow> ('l, 'i, 'p) kstate \<Rightarrow> ('l, 'i, 'p) kstate res" where
  "entry_frames E t function aux s =
    res_bind (alloc_frame t 12 s) (\<lambda>(kf, s1).
      let s2 = s1\<lparr>kframes := (kframes s1)(kf := \<lparr>kf_eip = None, kf_function = function, kf_aux = aux\<rparr>)\<rparr>
      in res_bind (alloc_frame t (switch_entry_frame_size E) s2) (\<lambda>(ef, s3).
        let s4 = s3\<lparr>eframes := (eframes s3)(ef := (eframes s3 ef)\<lparr>ef_eip := kernel_thread_code E\<rparr>)\<rparr>
        in res_bind (alloc_frame t (switch_threads_frame_size E) s4) (\<lambda>(sf, s5).
          Inr (s5\<lparr>sframes := (sframes s5)(sf := (sframes s5 sf)\<lparr>sf_eip := switch_entry_code E, sf_ebp := 0\<rparr>)\<rparr>))))"

definition thread_create ::
    "('l, 'i, 'p) externs \<Rightarrow> string \<Rightarrow> int \<Rightarrow> addr option \<Rightarrow> addr \<Rightarrow> (('l, 'i, 'p) kstate, int) kernel" where
  "thread_create E nm prio function aux =
    kthen (kassert (\<lambda>s. function \<noteq> None) Assert_function)
      (klet (\<lambda>s. case palloc_get_page E (pages s) of (t, p) \<Rightarrow> Done t (s\<lparr>pages := p\<rparr>)) (\<lambda>t. case t of
          None \<Rightarrow> (\<lambda>s. Done TID_ERROR s)
        | Some t \<Rightarrow>
            kthen (katomic (init_thread E t nm prio))
              (kthen (kmodify (upd_thread t (\<lambda>th. th\<lparr>base_priority := prio, effective_priority := prio\<rparr>)))
                (klet (allocate_tid E) (\<lambda>tid.
                  kthen (kmodify (upd_thread t (tid_update (\<lambda>_. tid))))
                    (kthen (katomic (entry_frames E t (the function) aux))
                      (kthen (katomic (thread_unblock E t))
                        (kthen (preemption_check E) (\<lambda>s. Done tid s)))))))))"

section \<open>The first threads\<close>

definition thread_init :: "('l, 'i, 'p) externs \<Rightarrow> (('l, 'i, 'p) kstate, unit) kernel" where
  "thread_init E =
    kseq [kassert (\<lambda>s. level E s = INTR_OFF) Assert_intr_off,
          kmodify (lock_init E tid_lock),
          kmodify (upd_lists (list_init E Ready_list)),
          kmodify (upd_lists (list_init E All_list)),
          kif thread_mlfqs (kmodify (mlfqs_init E)) kskip,
          kget running_thread (\<lambda>t.
            kseq [kmodify (\<lambda>s. s\<lparr>initial_thread := Some t\<rparr>),
                  katomic (init_thread E t ''main'' PRI_DEFAULT),
                  kmodify (upd_thread t (status_update (\<lambda>_. THREAD_RUNNING))),
                  klet (allocate_tid E) (\<lambda>tid. kmodify (upd_thread t (tid_update (\<lambda>_. tid))))])]"

text \<open>The semaphore of \<open>thread_start\<close> is on its stack, at the given address.  \<open>sti; hlt\<close> enables interrupts and waits at the
  pause that ends the turn of the loop.\<close>

definition idle :: "('l, 'i, 'p) externs \<Rightarrow> addr \<Rightarrow> (('l, 'i, 'p) kstate, unit) kernel" where
  "idle E idle_started =
    kseq [kcall thread_current (\<lambda>cur. kmodify (\<lambda>s. s\<lparr>idle_thread := Some cur\<rparr>)),
          sema_up E (Sema idle_started),
          kwhile (\<lambda>s. True)
            (kseq [kmodify (upd_cpu (\<lambda>i. snd (intr_disable E i))),
                   thread_block E,
                   kmodify (upd_cpu (intr_enable E))])]"

definition thread_start :: "('l, 'i, 'p) externs \<Rightarrow> addr \<Rightarrow> (('l, 'i, 'p) kstate, unit) kernel" where
  "thread_start E idle_started =
    kseq [kmodify (sema_init E (Sema idle_started) 0),
          klet (thread_create E ''idle'' PRI_MIN (Some (idle_code E)) idle_started) (\<lambda>_. kskip),
          kmodify (upd_cpu (intr_enable E)),
          sema_down E (Sema idle_started)]"

text \<open>The function every kernel thread starts in; \<open>run\<close> gives the meaning of the code at an address.\<close>

definition kernel_thread ::
    "('l, 'i, 'p) externs \<Rightarrow> (addr \<Rightarrow> addr \<Rightarrow> (('l, 'i, 'p) kstate, unit) kernel) \<Rightarrow> addr option \<Rightarrow> addr \<Rightarrow>
      (('l, 'i, 'p) kstate, unit) kernel" where
  "kernel_thread E run function aux =
    kseq [kassert (\<lambda>s. function \<noteq> None) Assert_function,
          kmodify (upd_cpu (intr_enable E)),
          run (the function) aux,
          thread_exit E]"

text \<open>The self test of \<^verbatim>\<open>synch.c\<close>, with its two semaphores and the address of the array they are in; \<open>print\<close> is
  what \<open>printf\<close> does with a text.\<close>

definition sema_self_test ::
    "('l, 'i, 'p) externs \<Rightarrow> (string \<Rightarrow> (('l, 'i, 'p) kstate, unit) kernel) \<Rightarrow> sema_ptr \<Rightarrow> sema_ptr \<Rightarrow> addr \<Rightarrow>
      (('l, 'i, 'p) kstate, unit) kernel" where
  "sema_self_test E print sema0 sema1 sema =
    kseq ([print ''Testing semaphores...'', kmodify (sema_init E sema0 0), kmodify (sema_init E sema1 0),
           klet (thread_create E ''sema-test'' PRI_DEFAULT (Some (sema_test_helper_code E)) sema) (\<lambda>_. kskip)] @
          concat (replicate 10 [sema_up E sema0, sema_down E sema1]) @ [print (''done.'' @ [CHR 0x0A])])"

section \<open>What a new thread looks like\<close>

definition new_thread :: "('l, 'i, 'p) kstate \<Rightarrow> thread_ptr \<Rightarrow> string \<Rightarrow> int \<Rightarrow> thread" where
  "new_thread s t nm prio =
    (let th = blank_thread\<lparr>status := THREAD_BLOCKED, name := take 15 nm, stack := t + PGSIZE, priority := prio,
           base_priority := prio, magic := THREAD_MAGIC\<rparr>
     in if \<not> thread_mlfqs s then th
        else let th = (if Some t = initial_thread s
               then th\<lparr>nice := NICE_DEFAULT, recent_cpu := RECENT_CPU_DEFAULT\<rparr>
               else th\<lparr>nice := nice (threads s (running s)), recent_cpu := recent_cpu (threads s (running s))\<rparr>)
             in th\<lparr>priority := mlfqs_priority_spec th\<rparr>)"

text \<open>What \<open>init_thread\<close> needs of its caller: under the advanced scheduler the new thread inherits from the running one.\<close>

definition parent_ok :: "('l, 'i, 'p) kstate \<Rightarrow> thread_ptr \<Rightarrow> bool" where
  "parent_ok s t \<longleftrightarrow> (thread_mlfqs s \<longrightarrow> Some t \<noteq> idle_thread s \<and>
    (Some t \<noteq> initial_thread s \<longrightarrow> on_cpu s \<and> t \<noteq> running s \<and> mlfqs_inputs_ok (threads s (running s))))"

text \<open>A lock that nobody holds and nobody waits for.\<close>

definition lock_free :: "('l, 'i, 'p) externs \<Rightarrow> lock_ptr \<Rightarrow> ('l, 'i, 'p) kstate \<Rightarrow> bool" where
  "lock_free E l s \<longleftrightarrow> holder (locks s l) = None \<and> sema_value (semas s (Lock_sema l)) = 1 \<and>
    unlinked E (lock_elem_of l) (lists s) \<and> elems E s (Sema_waiters (Lock_sema l)) = [] \<and> elems E s (Lock_waiters l) = []"

text \<open>A thread within its bounds.\<close>

definition thread_ok :: "thread \<Rightarrow> bool" where
  "thread_ok th \<longleftrightarrow> magic th = THREAD_MAGIC \<and> PRI_MIN \<le> priority th \<and> priority th \<le> PRI_MAX \<and>
    PRI_MIN \<le> base_priority th \<and> base_priority th \<le> PRI_MAX \<and> mlfqs_inputs_ok th \<and> length (name th) \<le> 15"

lemma new_thread_simps [simp]:
  "status (new_thread s t nm prio) = THREAD_BLOCKED" "magic (new_thread s t nm prio) = THREAD_MAGIC"
  "stack (new_thread s t nm prio) = t + PGSIZE" "base_priority (new_thread s t nm prio) = prio"
  "waiting_lock (new_thread s t nm prio) = None" "name (new_thread s t nm prio) = take 15 nm"
  by (simp_all add: new_thread_def Let_def blank_thread_def)

lemma new_thread_ok:
  assumes "PRI_MIN \<le> prio" "prio \<le> PRI_MAX" and "parent_ok s t"
  shows "thread_ok (new_thread s t nm prio)"
proof -
  have "PRI_MIN \<le> priority (new_thread s t nm prio) \<and> priority (new_thread s t nm prio) \<le> PRI_MAX"
    using assms(1,2) mlfqs_priority_spec_range by (simp add: new_thread_def Let_def)
  moreover have "mlfqs_inputs_ok (new_thread s t nm prio)"
    using assms(3)
    by (auto simp: new_thread_def Let_def mlfqs_inputs_ok_def blank_thread_def kernel_consts is_i32_def parent_ok_def)
  ultimately show ?thesis using assms(1,2) by (simp add: thread_ok_def)
qed

context kernel_env
begin

lemma init_thread_runs:
  assumes "PRI_MIN \<le> prio" "prio \<le> PRI_MAX" and par: "parent_ok s t"
  shows "\<exists>c. init_thread E t nm prio s = Inr (s\<lparr>lists := list_push_back E All_list (allelem_of t) (list_init E (Locks_held t) (lists s)),
      cpu := c, threads := (threads s)(t := new_thread s t nm prio)\<rparr>) \<and>
    intr_get_level E c = level E s \<and> intr_context E c = intr_context E (cpu s) \<and>
    intr_yield_pending E c = intr_yield_pending E (cpu s)"
proof -
  define th where "th = blank_thread\<lparr>status := THREAD_BLOCKED, name := take 15 nm, stack := t + PGSIZE, priority := prio,
    base_priority := prio, magic := THREAD_MAGIC\<rparr>"
  define s5 where "s5 = s\<lparr>lists := list_init E (Locks_held t) (lists s), threads := (threads s)(t := th)\<rparr>"
  have s5: "upd_thread t (magic_update (\<lambda>_. THREAD_MAGIC)) (upd_lists (list_init E (Locks_held t))
      (upd_thread t (\<lambda>th. th\<lparr>base_priority := priority th, waiting_lock := None\<rparr>)
        (upd_thread t (\<lambda>th. th\<lparr>status := THREAD_BLOCKED, name := take 15 nm, stack := t + PGSIZE, priority := prio\<rparr>)
          (upd_thread t (\<lambda>_. blank_thread) s)))) = s5"
    by (simp add: s5_def upd_thread_def upd_lists_def th_def blank_thread_def)
  define s6 where "s6 = upd_thread t (\<lambda>_. new_thread s t nm prio) s5"
  have f: "thread_mlfqs s5 = thread_mlfqs s" "initial_thread s5 = initial_thread s" "idle_thread s5 = idle_thread s"
    "running s5 = running s" "threads s5 t = th"
    by (simp_all add: s5_def)
  have mid: "(if thread_mlfqs s5
      then res_bind (if Some t = initial_thread s5
          then Inr (upd_thread t (\<lambda>th. th\<lparr>nice := NICE_DEFAULT, recent_cpu := RECENT_CPU_DEFAULT\<rparr>) s5)
          else res_bind (thread_current s5) (\<lambda>parent. Inr (upd_thread t (\<lambda>th. th\<lparr>nice := nice (threads s5 parent),
            recent_cpu := recent_cpu (threads s5 parent)\<rparr>) s5)))
        (mlfqs_update_priority t)
      else Inr s5) = Inr s6" (is "?m = _")
  proof (cases "thread_mlfqs s")
    case False
    then show ?thesis by (simp add: f s6_def new_thread_def Let_def th_def [symmetric]) (simp add: upd_thread_def f fun_upd_idem)
  next
    case True
    define th' where "th' = (if Some t = initial_thread s then th\<lparr>nice := NICE_DEFAULT, recent_cpu := RECENT_CPU_DEFAULT\<rparr>
      else th\<lparr>nice := nice (threads s (running s)), recent_cpu := recent_cpu (threads s (running s))\<rparr>)"
    have new: "new_thread s t nm prio = th'\<lparr>priority := mlfqs_priority_spec th'\<rparr>"
      using True by (simp add: new_thread_def Let_def th_def th'_def)
    have cur: "thread_current s5 = Inr (running s)" "threads s5 (running s) = threads s (running s)" if "Some t \<noteq> initial_thread s"
      using par True that by (auto simp: parent_ok_def thread_current_eq_Inr on_cpu_def s5_def)
    have "mlfqs_inputs_ok th'"
      using par True by (auto simp: parent_ok_def th'_def th_def mlfqs_inputs_ok_def kernel_consts is_i32_def)
    then have "mlfqs_update_priority t (upd_thread t (\<lambda>_. th') s5) = Inr s6"
      using par True mlfqs_update_priority_inputs [of "upd_thread t (\<lambda>_. th') s5" t]
      by (simp add: parent_ok_def f s6_def new) (simp add: upd_thread_def)
    moreover have "?m = mlfqs_update_priority t (upd_thread t (\<lambda>_. th') s5)"
      using True cur by (simp add: f th'_def) (simp add: upd_thread_def f)
    ultimately show ?thesis by simp
  qed
  let ?c = "intr_set_level E (level E s) (snd (intr_disable E (cpu s)))"
  have "init_thread E t nm prio s = Inr (upd_cpu (intr_set_level E (fst (intr_disable E (cpu s6))))
      (upd_lists (list_push_back E All_list (allelem_of t)) (upd_cpu (\<lambda>i. snd (intr_disable E i)) s6)))"
    unfolding init_thread_def Let_def s5 mid using assms(1,2) by simp
  also have "\<dots> = Inr (s\<lparr>lists := list_push_back E All_list (allelem_of t) (list_init E (Locks_held t) (lists s)),
      cpu := ?c, threads := (threads s)(t := new_thread s t nm prio)\<rparr>)"
    by (simp add: s6_def s5_def upd_cpu_def upd_lists_def upd_thread_def intr_laws)
  finally show ?thesis by (intro exI [of _ ?c]) (simp add: intr_laws)
qed

text \<open>The lock of \<open>allocate_tid\<close> when nobody holds it or waits for it.\<close>

lemma allocate_tid_runs:
  assumes cpu: "on_cpu s" and nint: "\<not> intr_context E (cpu s)" and ok: "run_ok E s"
    and mode: "thread_mlfqs s \<longrightarrow> elems E s Ready_list = []" and free: "lock_free E tid_lock s"
    and pos: "PRI_MIN \<le> priority (threads s (running s))"
    and p: "p = Max (insert (base_priority (threads s (running s)))
      ((\<lambda>w. priority (threads s w)) ` (set (entitled E s (running s)) - {running s})))"
    and quiet: "\<forall>t \<in> set (run_order E s). priority (threads s t) \<le> priority (threads s (running s)) \<and> priority (threads s t) \<le> p"
  shows "\<exists>h c. returns (allocate_tid E s) (next_tid s) (s\<lparr>lists := h, cpu := c, next_tid := i32 (next_tid s + 1),
      threads := (threads s)(running s := (threads s (running s))\<lparr>priority := p\<rparr>)\<rparr>) \<and>
    (\<forall>k. list_elems E k h = elems E s k) \<and> intr_get_level E c = level E s \<and> intr_context E c = intr_context E (cpu s)"
proof -
  have f: "holder (locks s tid_lock) = None" "sema_value (semas s (Lock_sema tid_lock)) = 1"
    "unlinked E (lock_elem_of tid_lock) (lists s)" "elems E s (Sema_waiters (Lock_sema tid_lock)) = []"
    "running s \<notin> list_entry ` set (elems E s (Lock_waiters tid_lock))"
    using free by (simp_all add: lock_free_def)
  from lock_section [OF cpu nint ok mode f pos p quiet]
  obtain sa h where acq: "returns (lock_acquire E tid_lock s) () sa" "next_tid sa = next_tid s"
    and el: "\<forall>k. list_elems E k h = elems E s k"
    and rel: "\<And>n. \<exists>c. returns (lock_release E tid_lock (sa\<lparr>next_tid := n\<rparr>)) () (s\<lparr>lists := h, cpu := c, next_tid := n,
        threads := (threads s)(running s := (threads s (running s))\<lparr>priority := p\<rparr>)\<rparr>) \<and>
      intr_get_level E c = level E s \<and> intr_context E c = intr_context E (cpu s)" by blast
  from rel [of "i32 (next_tid s + 1)"] obtain c
    where c: "returns (lock_release E tid_lock (sa\<lparr>next_tid := i32 (next_tid s + 1)\<rparr>)) () (s\<lparr>lists := h, cpu := c,
        next_tid := i32 (next_tid s + 1), threads := (threads s)(running s := (threads s (running s))\<lparr>priority := p\<rparr>)\<rparr>)"
      "intr_get_level E c = level E s" "intr_context E c = intr_context E (cpu s)" by blast
  have "sa\<lparr>next_tid := i32 (next_tid sa + 1)\<rparr> = sa\<lparr>next_tid := i32 (next_tid s + 1)\<rparr>" using acq(2) by simp
  then have "returns (allocate_tid E s) (next_tid s) (s\<lparr>lists := h, cpu := c, next_tid := i32 (next_tid s + 1),
      threads := (threads s)(running s := (threads s (running s))\<lparr>priority := p\<rparr>)\<rparr>)"
    using acq(2) by (simp add: allocate_tid_def kernel_defs run_kbind [OF acq(1)] run_kbind [OF c(1)])
  with el c(2,3) show ?thesis by blast
qed

lemma alloc_frame_eq:
  "magic (threads s t) = THREAD_MAGIC \<Longrightarrow> n mod 4 = 0 \<Longrightarrow> alloc_frame t n s =
    Inr (stack (threads s t) - n, s\<lparr>threads := (threads s)(t := (threads s t)\<lparr>stack := stack (threads s t) - n\<rparr>)\<rparr>)"
  by (cases "threads s t") (simp add: alloc_frame_def Let_def upd_thread_def)

lemma entry_frames_runs:
  fixes s :: "('l, 'i, 'p) kstate"
  assumes m: "magic (threads s t) = THREAD_MAGIC"
    and sz: "switch_entry_frame_size E mod 4 = 0" "switch_threads_frame_size E mod 4 = 0"
  defines "kf \<equiv> stack (threads s t) - 12"
  defines "ef \<equiv> kf - switch_entry_frame_size E"
  defines "sf \<equiv> ef - switch_threads_frame_size E"
  shows "entry_frames E t f aux s = Inr (s\<lparr>threads := (threads s)(t := (threads s t)\<lparr>stack := sf\<rparr>),
    kframes := (kframes s)(kf := \<lparr>kf_eip = None, kf_function = f, kf_aux = aux\<rparr>),
    eframes := (eframes s)(ef := \<lparr>ef_eip = kernel_thread_code E\<rparr>),
    sframes := (sframes s)(sf := \<lparr>sf_eip = switch_entry_code E, sf_ebp = 0\<rparr>)\<rparr>)"
proof -
  have rec: "e\<lparr>ef_eip := a\<rparr> = \<lparr>ef_eip = a\<rparr>" "k\<lparr>sf_eip := a, sf_ebp := b\<rparr> = \<lparr>sf_eip = a, sf_ebp = b\<rparr>" for e k a b
    by (cases e; simp) (cases k; simp)
  have "(12 :: nat) mod 4 = 0" by simp
  note step = alloc_frame_eq [where t = t]
  show ?thesis
    unfolding entry_frames_def kf_def ef_def sf_def Let_def
    by (simp only: step [of s, OF m \<open>12 mod 4 = 0\<close>] res_bind_simps prod.case)
      (simp add: step m sz rec)
qed

text \<open>A state with the same elements on every list and the same priorities of queued threads has the same run queue.\<close>

lemma run_same_elems:
  assumes ok: "run_ok E s" and el: "\<forall>k. elems E s' k = elems E s k" and mode: "thread_mlfqs s' = thread_mlfqs s"
    and p: "\<And>t. \<not> unlinked E (elem_of t) (lists s) \<Longrightarrow> priority (threads s' t) = priority (threads s t)"
  shows "run_order E s' = run_order E s" "run_ok E s'"
proof -
  have linked: "linked_once E (lists s')" using run_ok_linked [OF ok] el by (simp add: linked_once_def)
  have un: "unlinked E e (lists s') = unlinked E e (lists s)" for e using el by (simp add: unlinked_def)
  have "run_order E (s\<lparr>lists := lists s'\<rparr>) = run_order E s" "run_ok E (s\<lparr>lists := lists s'\<rparr>)"
    using run_queue_frame [OF linked run_ok_linked [OF ok]] el ok by simp_all
  moreover have "run_order E s' = run_order E (s\<lparr>lists := lists s'\<rparr>)" by (rule run_order_cong) (simp_all add: mode)
  moreover have "run_ok E s' = run_ok E (s\<lparr>lists := lists s'\<rparr>)" by (rule run_ok_cong) (simp_all add: mode un p)
  ultimately show "run_order E s' = run_order E s" "run_ok E s'" by simp_all
qed

lemma create_lists:
  assumes ok: "run_ok E s" and un: "unlinked E (allelem_of t) (lists s)"
    and h: "h = list_push_back E All_list (allelem_of t) (list_init E (Locks_held t) (lists s))"
  shows "list_elems E k h = (if k = All_list then elems E s k @ [allelem_of t] else if k = Locks_held t then [] else elems E s k)"
    "run_ok E (s\<lparr>lists := h\<rparr>)" "run_order E (s\<lparr>lists := h\<rparr>) = run_order E s"
    "e \<noteq> allelem_of t \<Longrightarrow> unlinked E e (lists s) \<Longrightarrow> unlinked E e h"
proof -
  note un1 = unlinked_init [OF un, of "Locks_held t"]
  note push = elems_push_back [OF un1, of _ All_list, folded h]
  show el: "list_elems E k h = (if k = All_list then elems E s k @ [allelem_of t] else if k = Locks_held t then [] else elems E s k)" for k
    by (simp add: push elems_init)
  have "linked_once E h"
    unfolding h by (intro linked_once_push_back linked_once_init run_ok_linked [OF ok] un1)
  moreover have "list_elems E l h = elems E s l" if "run_list l" for l using that by (auto simp: el)
  ultimately show "run_ok E (s\<lparr>lists := h\<rparr>)" "run_order E (s\<lparr>lists := h\<rparr>) = run_order E s"
    using run_queue_frame [OF _ run_ok_linked [OF ok], of h] ok by simp_all
  show "unlinked E e h" if "e \<noteq> allelem_of t" "unlinked E e (lists s)"
    using that by (simp add: unlinked_def el)
qed

end

text \<open>What \<open>thread_create\<close> relies on: nobody competes for the lock of \<open>allocate_tid\<close>, no ready thread is above the
  running one, whose priority will be \<open>p\<close>, and the page allocator hands out a page that is not in use.\<close>

definition create_ok :: "('l, 'i, 'p) externs \<Rightarrow> thread_ptr \<Rightarrow> int \<Rightarrow> ('l, 'i, 'p) kstate \<Rightarrow> bool" where
  "create_ok E t p s \<longleftrightarrow> on_cpu s \<and> Some (running s) \<noteq> idle_thread s \<and> unlinked E (elem_of (running s)) (lists s) \<and>
    PRI_MIN \<le> p \<and> p \<le> PRI_MAX \<and> \<not> intr_context E (cpu s) \<and> run_ok E s \<and>
    (thread_mlfqs s \<longrightarrow> elems E s Ready_list = []) \<and> lock_free E tid_lock s \<and>
    PRI_MIN \<le> priority (threads s (running s)) \<and>
    p = Max (insert (base_priority (threads s (running s)))
      ((\<lambda>w. priority (threads s w)) ` (set (entitled E s (running s)) - {running s}))) \<and>
    (\<forall>u \<in> set (run_order E s). magic (threads s u) = THREAD_MAGIC \<and>
      priority (threads s u) \<le> priority (threads s (running s)) \<and> priority (threads s u) \<le> p) \<and>
    t \<noteq> running s \<and> Some t \<noteq> idle_thread s \<and> parent_ok s t \<and> unlinked E (elem_of t) (lists s) \<and>
    unlinked E (allelem_of t) (lists s) \<and> t \<notin> set (entitled E s (running s)) \<and> t \<notin> set (run_order E s) \<and>
    switch_entry_frame_size E mod 4 = 0 \<and> switch_threads_frame_size E mod 4 = 0"

definition created :: "('l, 'i, 'p) externs \<Rightarrow> ('l, 'i, 'p) kstate \<Rightarrow> thread_ptr \<Rightarrow> string \<Rightarrow> int \<Rightarrow> thread" where
  "created E s t nm prio = (new_thread s t nm prio)\<lparr>tid := next_tid s, effective_priority := prio,
    stack := t + PGSIZE - 12 - switch_entry_frame_size E - switch_threads_frame_size E\<rparr>"

context kernel_env
begin

lemma create_prefix:
  assumes ok: "create_ok E t p s" and pg: "palloc_get_page E (pages s) = (Some t, pg)"
    and prio: "PRI_MIN \<le> prio" "prio \<le> PRI_MAX"
  defines "rest \<equiv> kthen (katomic (thread_unblock E t)) (kthen (preemption_check E) (Done (next_tid s)))"
  shows "\<exists>sf h c. (\<forall>v s'. returns (rest sf) v s' \<longrightarrow> returns (thread_create E nm prio (Some f) aux s) v s') \<and>
    (\<forall>q n s' r. switches (rest sf) q n s' r \<longrightarrow> switches (thread_create E nm prio (Some f) aux s) q n s' r) \<and>
    sf = s\<lparr>lists := h, cpu := c, pages := pg, next_tid := i32 (next_tid s + 1),
      threads := (threads s)(running s := (threads s (running s))\<lparr>priority := p\<rparr>, t := created E s t nm prio),
      kframes := (kframes s)(t + PGSIZE - 12 := \<lparr>kf_eip = None, kf_function = f, kf_aux = aux\<rparr>),
      eframes := (eframes s)(t + PGSIZE - 12 - switch_entry_frame_size E := \<lparr>ef_eip = kernel_thread_code E\<rparr>),
      sframes := (sframes s)(stack (created E s t nm prio) := \<lparr>sf_eip = switch_entry_code E, sf_ebp = 0\<rparr>)\<rparr> \<and>
    (\<forall>k. list_elems E k h = (if k = All_list then elems E s k @ [allelem_of t] else if k = Locks_held t then [] else elems E s k)) \<and>
    intr_get_level E c = level E s \<and> intr_context E c = intr_context E (cpu s) \<and> run_ok E sf \<and> run_order E sf = run_order E s"
proof -
  let ?c = "running s"
  have pre: "on_cpu s" "\<not> intr_context E (cpu s)" "run_ok E s" "thread_mlfqs s \<longrightarrow> elems E s Ready_list = []"
    "lock_free E tid_lock s" "PRI_MIN \<le> priority (threads s ?c)" "t \<noteq> ?c" "parent_ok s t"
    "unlinked E (elem_of t) (lists s)" "unlinked E (allelem_of t) (lists s)"
    "t \<notin> set (entitled E s ?c)" "t \<notin> set (run_order E s)" "unlinked E (elem_of ?c) (lists s)"
    and p: "p = Max (insert (base_priority (threads s ?c)) ((\<lambda>w. priority (threads s w)) ` (set (entitled E s ?c) - {?c})))"
    and quiet: "\<forall>u \<in> set (run_order E s). priority (threads s u) \<le> priority (threads s ?c) \<and> priority (threads s u) \<le> p"
    and sz: "switch_entry_frame_size E mod 4 = 0" "switch_threads_frame_size E mod 4 = 0"
    using ok unfolding create_ok_def by blast+
  define th where "th = (new_thread s t nm prio)\<lparr>base_priority := prio, effective_priority := prio\<rparr>"
  have new: "new_thread (s\<lparr>pages := pg\<rparr>) t nm prio = new_thread s t nm prio" by (simp add: new_thread_def cong: if_cong)
  have "parent_ok (s\<lparr>pages := pg\<rparr>) t" using pre(8) by (simp add: parent_ok_def on_cpu_def)
  from init_thread_runs [OF prio this, of nm] obtain c1 where init: "init_thread E t nm prio (s\<lparr>pages := pg\<rparr>) =
      Inr (s\<lparr>pages := pg, lists := list_push_back E All_list (allelem_of t) (list_init E (Locks_held t) (lists s)),
        cpu := c1, threads := (threads s)(t := new_thread s t nm prio)\<rparr>)"
    and c1: "intr_get_level E c1 = level E s" "intr_context E c1 = intr_context E (cpu s)" by (auto simp: new)
  define h1 where "h1 = list_push_back E All_list (allelem_of t) (list_init E (Locks_held t) (lists s))"
  note li = create_lists [OF pre(3,10) h1_def]
  define s2 where "s2 = s\<lparr>pages := pg, lists := h1, cpu := c1, threads := (threads s)(t := th)\<rparr>"
  have s2: "upd_thread t (\<lambda>th. th\<lparr>base_priority := prio, effective_priority := prio\<rparr>) (s\<lparr>pages := pg, lists := h1, cpu := c1,
      threads := (threads s)(t := new_thread s t nm prio)\<rparr>) = s2"
    by (simp add: s2_def upd_thread_def th_def)
  have f2: "threads s2 ?c = threads s ?c" "running s2 = ?c" "cpu s2 = c1" "lists s2 = h1" "thread_mlfqs s2 = thread_mlfqs s"
    "semas s2 = semas s" "locks s2 = locks s" "next_tid s2 = next_tid s"
    "\<And>u. u \<noteq> t \<Longrightarrow> threads s2 u = threads s u"
    using pre(7) by (simp_all add: s2_def)
  have cpu2: "on_cpu s2" using pre(1,7) by (simp add: on_cpu_def f2)
  have un2: "unlinked E (elem_of t) h1" by (rule li(4)) (simp_all add: pre(9))
  have q2: "run_order E s2 = run_order E s" "run_ok E s2"
  proof -
    show "run_order E s2 = run_order E s" using li(3) run_order_cong [of s2 "s\<lparr>lists := h1\<rparr>" E] by (simp add: f2)
    have "run_ok E s2 = run_ok E (s\<lparr>lists := h1\<rparr>)" by (rule run_ok_cong) (auto simp: s2_def un2)
    then show "run_ok E s2" using li(2) by simp
  qed
  have free2: "lock_free E tid_lock s2"
    using pre(5) li(4) [of "lock_elem_of tid_lock"] by (simp add: lock_free_def f2 li(1))
  have ent: "entitled E s2 ?c = entitled E s ?c" using pre(7) by (simp add: entitled_def f2 li(1))
  have p2: "p = Max (insert (base_priority (threads s2 (running s2)))
      ((\<lambda>w. priority (threads s2 w)) ` (set (entitled E s2 (running s2)) - {running s2})))"
  proof -
    have "(\<lambda>w. priority (threads s2 w)) ` (set (entitled E s ?c) - {?c}) = (\<lambda>w. priority (threads s w)) ` (set (entitled E s ?c) - {?c})"
      using pre(11) by (intro image_cong refl) (metis DiffD1 f2(9))
    then show ?thesis by (simp only: f2 ent p)
  qed
  have quiet2: "\<forall>u \<in> set (run_order E s2). priority (threads s2 u) \<le> priority (threads s2 (running s2)) \<and> priority (threads s2 u) \<le> p"
    using quiet pre(12) q2(1) f2(1,2,9) by (metis (no_types, lifting))
  have "\<not> intr_context E (cpu s2)" "thread_mlfqs s2 \<longrightarrow> elems E s2 Ready_list = []" "PRI_MIN \<le> priority (threads s2 (running s2))"
    using pre(2,4,6) c1(2) by (simp_all add: f2 li(1))
  from allocate_tid_runs [OF cpu2 this(1) q2(2) this(2) free2 this(3) p2 quiet2]
  obtain h c where alloc: "returns (allocate_tid E s2) (next_tid s) (s2\<lparr>lists := h, cpu := c, next_tid := i32 (next_tid s + 1),
      threads := (threads s2)(?c := (threads s ?c)\<lparr>priority := p\<rparr>)\<rparr>)" (is "returns _ _ ?s3")
    and h: "\<forall>k. list_elems E k h = list_elems E k h1" and c: "intr_get_level E c = level E s" "intr_context E c = intr_context E (cpu s)"
    by (auto simp: f2 c1)
  define s4 where "s4 = upd_thread t (tid_update (\<lambda>_. next_tid s)) ?s3"
  define sf where "sf = s\<lparr>lists := h, cpu := c, pages := pg, next_tid := i32 (next_tid s + 1),
      threads := (threads s)(?c := (threads s ?c)\<lparr>priority := p\<rparr>, t := created E s t nm prio),
      kframes := (kframes s)(t + PGSIZE - 12 := \<lparr>kf_eip = None, kf_function = f, kf_aux = aux\<rparr>),
      eframes := (eframes s)(t + PGSIZE - 12 - switch_entry_frame_size E := \<lparr>ef_eip = kernel_thread_code E\<rparr>),
      sframes := (sframes s)(stack (created E s t nm prio) := \<lparr>sf_eip = switch_entry_code E, sf_ebp = 0\<rparr>)\<rparr>"
  let ?sp = "t + PGSIZE - 12 - switch_entry_frame_size E - switch_threads_frame_size E"
  have th: "threads s4 t = th\<lparr>tid := next_tid s\<rparr>" using pre(7) by (cases th) (simp add: s4_def s2_def)
  have m4: "magic (threads s4 t) = THREAD_MAGIC" "stack (threads s4 t) = t + PGSIZE" unfolding th by (simp_all add: th_def)
  have "(new_thread s t nm prio)\<lparr>base_priority := base_priority (new_thread s t nm prio)\<rparr> = new_thread s t nm prio" by simp
  then have cr: "(threads s4 t)\<lparr>stack := ?sp\<rparr> = created E s t nm prio" "?sp = stack (created E s t nm prio)"
    unfolding th by (simp_all add: th_def created_def)
  have "sf = s4\<lparr>threads := (threads s4)(t := created E s t nm prio),
      kframes := (kframes s4)(t + PGSIZE - 12 := \<lparr>kf_eip = None, kf_function = f, kf_aux = aux\<rparr>),
      eframes := (eframes s4)(t + PGSIZE - 12 - switch_entry_frame_size E := \<lparr>ef_eip = kernel_thread_code E\<rparr>),
      sframes := (sframes s4)(stack (created E s t nm prio) := \<lparr>sf_eip = switch_entry_code E, sf_ebp = 0\<rparr>)\<rparr>"
    using pre(7) by (simp add: sf_def s4_def s2_def upd_thread_def fun_upd_twist)
  with entry_frames_runs [OF m4(1) sz, of f aux, unfolded m4(2) cr] have "entry_frames E t f aux s4 = Inr sf"
    by (simp add: cr(1) [unfolded cr(2)])
  then have run: "returns (thread_create E nm prio (Some f) aux s) v s' \<longleftrightarrow> returns (rest sf) v s'"
    "switches (thread_create E nm prio (Some f) aux s) q n s' r \<longleftrightarrow> switches (rest sf) q n s' r" for v s' q n r
    using init s2 unfolding rest_def h1_def [symmetric]
    by (simp_all add: thread_create_def klet_def kernel_defs pg run_kbind [OF alloc] s4_def)
  have "unlinked E (elem_of ?c) h1" by (rule li(4)) (simp_all add: pre(13))
  then have pr: "priority (threads sf u) = priority (threads s2 u)" if "\<not> unlinked E (elem_of u) (lists s2)" for u
    using that un2 by (auto simp: sf_def s2_def)
  have "\<forall>k. elems E sf k = elems E s2 k" "thread_mlfqs sf = thread_mlfqs s2" using h by (simp_all add: sf_def f2)
  from run_same_elems [OF q2(2) this pr] have "run_order E sf = run_order E s2" "run_ok E sf" by simp_all
  then show ?thesis using run h c q2(1)
    by (intro exI [of _ sf] exI [of _ h] exI [of _ c] conjI) (rule sf_def | simp add: li(1))+
qed

end

text \<open>The thread that \<open>thread_create\<close> hands to the scheduler.\<close>

definition created_ok ::
    "('l, 'i, 'p) externs \<Rightarrow> ('l, 'i, 'p) kstate \<Rightarrow> thread_ptr \<Rightarrow> string \<Rightarrow> int \<Rightarrow> addr \<Rightarrow> addr \<Rightarrow> ('l, 'i, 'p) kstate \<Rightarrow> bool" where
  "created_ok E s t nm prio f aux s1 \<longleftrightarrow> (let th = threads s1 t in
    thread_ok th \<and> status th = THREAD_READY \<and> tid th = next_tid s \<and> name th = take 15 nm \<and> base_priority th = prio \<and>
    (if thread_mlfqs s then priority th = mlfqs_priority_spec th \<and> (Some t \<noteq> initial_thread s \<longrightarrow>
        nice th = nice (threads s (running s)) \<and> recent_cpu th = recent_cpu (threads s (running s)))
     else priority th = prio) \<and>
    stack th = t + PGSIZE - 12 - switch_entry_frame_size E - switch_threads_frame_size E \<and>
    sframes s1 (stack th) = \<lparr>sf_eip = switch_entry_code E, sf_ebp = 0\<rparr> \<and>
    eframes s1 (t + PGSIZE - 12 - switch_entry_frame_size E) = \<lparr>ef_eip = kernel_thread_code E\<rparr> \<and>
    kframes s1 (t + PGSIZE - 12) = \<lparr>kf_eip = None, kf_function = f, kf_aux = aux\<rparr>)"

lemma new_thread_mode:
  "if thread_mlfqs s then priority (new_thread s t nm prio) = mlfqs_priority_spec (new_thread s t nm prio) \<and>
      (Some t \<noteq> initial_thread s \<longrightarrow> nice (new_thread s t nm prio) = nice (threads s (running s)) \<and>
        recent_cpu (new_thread s t nm prio) = recent_cpu (threads s (running s)))
    else priority (new_thread s t nm prio) = prio"
  by (simp add: new_thread_def Let_def mlfqs_priority_spec_def)

lemma readied_created_ok:
  assumes "PRI_MIN \<le> prio" "prio \<le> PRI_MAX" and "parent_ok s t"
    and th: "threads s1 t = readied sf t" and sf: "threads sf t = created E s t nm prio" "thread_mlfqs sf = thread_mlfqs s"
    and frames: "sframes s1 (stack (created E s t nm prio)) = \<lparr>sf_eip = switch_entry_code E, sf_ebp = 0\<rparr>"
      "eframes s1 (t + PGSIZE - 12 - switch_entry_frame_size E) = \<lparr>ef_eip = kernel_thread_code E\<rparr>"
      "kframes s1 (t + PGSIZE - 12) = \<lparr>kf_eip = None, kf_function = f, kf_aux = aux\<rparr>"
  shows "created_ok E s t nm prio f aux s1"
proof -
  have spec: "mlfqs_priority_spec (th\<lparr>status := a, priority := b\<rparr>) = mlfqs_priority_spec th"
    "mlfqs_priority_spec (created E s t nm prio) = mlfqs_priority_spec (new_thread s t nm prio)" for th a b
    by (simp_all add: mlfqs_priority_spec_def created_def)
  have eq: "threads s1 t = (created E s t nm prio)\<lparr>status := THREAD_READY, priority := priority (new_thread s t nm prio)\<rparr>"
    using new_thread_mode [of s t nm prio] by (cases "thread_mlfqs s") (simp_all add: th readied_def sf spec, simp_all add: created_def)
  have "thread_ok (threads s1 t)"
    using new_thread_ok [OF assms(1-3), of nm] unfolding eq by (simp add: thread_ok_def mlfqs_inputs_ok_def created_def)
  then show ?thesis
    using new_thread_mode [of s t nm prio] frames unfolding created_ok_def Let_def eq
    by (simp add: created_def) (simp add: mlfqs_priority_spec_def)
qed

lemma ins_before_Cons_same:
  assumes "ins_before lt t xs = t # ts" and "t \<notin> set xs"
  shows "ts = xs"
  using assms by (cases xs) (auto simp: ins_before_Cons split: if_splits)

context kernel_env
begin

lemma thread_create_runs:
  assumes ok: "create_ok E t p s" and pg: "palloc_get_page E (pages s) = (Some t, pg)"
    and prio: "PRI_MIN \<le> prio" "prio \<le> PRI_MAX"
  shows "\<exists>s1. run_order E s1 = ins_before (higher s1) t (run_order E s) \<and> run_ok E s1 \<and>
    elems E s1 All_list = elems E s All_list @ [allelem_of t] \<and> created_ok E s t nm prio f aux s1 \<and>
    next_tid s1 = i32 (next_tid s + 1) \<and> pages s1 = pg \<and> level E s1 = level E s \<and>
    (\<forall>u. u \<noteq> t \<longrightarrow> threads s1 u = (if u = running s then (threads s u)\<lparr>priority := p\<rparr> else threads s u)) \<and>
    (if priority (threads s1 t) > p
     then \<exists>s2 r. switches (thread_create E nm prio (Some f) aux s) (running s) t s2 r \<and>
       run_order E s2 = ins_before (higher s1) (running s) (run_order E s)
     else returns (thread_create E nm prio (Some f) aux s) (next_tid s) s1)"
proof -
  let ?c = "running s"
  let ?rest = "kthen (katomic (thread_unblock E t)) (kthen (preemption_check E) (Done (next_tid s)))"
  obtain sf h c where go: "\<And>v s'. returns (?rest sf) v s' \<Longrightarrow> returns (thread_create E nm prio (Some f) aux s) v s'"
    "\<And>q n s' r. switches (?rest sf) q n s' r \<Longrightarrow> switches (thread_create E nm prio (Some f) aux s) q n s' r"
    and sf: "sf = s\<lparr>lists := h, cpu := c, pages := pg, next_tid := i32 (next_tid s + 1),
      threads := (threads s)(?c := (threads s ?c)\<lparr>priority := p\<rparr>, t := created E s t nm prio),
      kframes := (kframes s)(t + PGSIZE - 12 := \<lparr>kf_eip = None, kf_function = f, kf_aux = aux\<rparr>),
      eframes := (eframes s)(t + PGSIZE - 12 - switch_entry_frame_size E := \<lparr>ef_eip = kernel_thread_code E\<rparr>),
      sframes := (sframes s)(stack (created E s t nm prio) := \<lparr>sf_eip = switch_entry_code E, sf_ebp = 0\<rparr>)\<rparr>"
    and h: "\<And>k. list_elems E k h = (if k = All_list then elems E s k @ [allelem_of t] else if k = Locks_held t then [] else elems E s k)"
    and c: "intr_get_level E c = level E s" "intr_context E c = intr_context E (cpu s)"
    and q: "run_ok E sf" "run_order E sf = run_order E s"
    using create_prefix [OF assms, where f = f and nm = nm and aux = aux] by blast
  have pre: "on_cpu s" "\<not> intr_context E (cpu s)" "t \<noteq> ?c" "Some t \<noteq> idle_thread s" "parent_ok s t"
    "unlinked E (elem_of t) (lists s)" "unlinked E (elem_of ?c) (lists s)" "t \<notin> set (run_order E s)"
    "Some ?c \<noteq> idle_thread s" "PRI_MIN \<le> p" "p \<le> PRI_MAX"
    and quiet: "\<forall>u \<in> set (run_order E s). magic (threads s u) = THREAD_MAGIC \<and> priority (threads s u) \<le> p"
    using ok unfolding create_ok_def by blast+
  have un: "unlinked E (elem_of u) (lists s) \<Longrightarrow> unlinked E (elem_of u) h" for u by (simp add: unlinked_def h)
  have fsf: "threads sf t = created E s t nm prio" "lists sf = h" "cpu sf = c" "thread_mlfqs sf = thread_mlfqs s"
    "idle_thread sf = idle_thread s" "running sf = ?c" "next_tid sf = i32 (next_tid s + 1)" "pages sf = pg"
    "\<And>u. u \<noteq> t \<Longrightarrow> threads sf u = (if u = ?c then (threads s u)\<lparr>priority := p\<rparr> else threads s u)"
    "kframes sf (t + PGSIZE - 12) = \<lparr>kf_eip = None, kf_function = f, kf_aux = aux\<rparr>"
    "eframes sf (t + PGSIZE - 12 - switch_entry_frame_size E) = \<lparr>ef_eip = kernel_thread_code E\<rparr>"
    "sframes sf (stack (created E s t nm prio)) = \<lparr>sf_eip = switch_entry_code E, sf_ebp = 0\<rparr>"
    by (simp_all add: sf)
  have "mlfqs_inputs_ok (created E s t nm prio)"
    using new_thread_ok [OF prio pre(5), of nm] by (simp add: thread_ok_def mlfqs_inputs_ok_def created_def)
  then have "unblock_ok E t sf"
    using pre(4,6) un by (simp add: unblock_ok_def wakeable_def fsf) (simp add: created_def)
  from thread_unblock_enqueues [OF this q(1)] obtain s1 h1 c1 where wake: "thread_unblock E t sf = Inr s1"
    and s1: "run_order E s1 = ins_before (higher s1) t (run_order E s)" "run_ok E s1" "threads s1 = (threads sf)(t := readied sf t)"
      "level E s1 = level E s"
    and eq: "s1 = sf\<lparr>lists := h1, cpu := c1, threads := (threads sf)(t := readied sf t)\<rparr>" and frame: "run_frame E t h h1"
    and c1: "intr_context E c1 = intr_context E (cpu s)"
    using q(2) c by (auto simp: fsf)
  have f1: "lists s1 = h1" "cpu s1 = c1" "thread_mlfqs s1 = thread_mlfqs s" "idle_thread s1 = idle_thread s" "running s1 = ?c"
    "next_tid s1 = i32 (next_tid s + 1)" "pages s1 = pg" "kframes s1 = kframes sf" "eframes s1 = eframes sf" "sframes s1 = sframes sf"
    by (subst eq, simp add: fsf)+
  have th: "threads s1 t = readied sf t" "\<And>u. u \<noteq> t \<Longrightarrow> threads s1 u = (if u = ?c then (threads s u)\<lparr>priority := p\<rparr> else threads s u)"
    by (simp_all add: s1(3) fsf(9))
  have created: "created_ok E s t nm prio f aux s1"
    by (rule readied_created_ok [OF prio pre(5) th(1) fsf(1,4)]) (simp_all only: f1 fsf)
  have pc: "priority (threads s1 ?c) = p" using pre(3) by (simp add: th(2))
  have low: "magic (threads s1 u) = THREAD_MAGIC" "u \<noteq> t \<Longrightarrow> priority (threads s1 u) \<le> p" if "u \<in> set (run_order E s1)" for u
  proof -
    have mt: "magic (threads s1 t) = THREAD_MAGIC" using created by (simp add: created_ok_def thread_ok_def Let_def)
    from that have "u = t \<or> u \<in> set (run_order E s)" by (simp add: s1(1))
    then show "magic (threads s1 u) = THREAD_MAGIC" "u \<noteq> t \<Longrightarrow> priority (threads s1 u) \<le> p"
      using quiet mt th(2) [of u] by (cases "u = t"; auto)+
  qed
  have cpu1: "on_cpu s1" using pre(1,3) by (simp add: on_cpu_def f1 th(2))
  have "unlinked E (elem_of ?c) h1" using frame un [OF pre(7)] pre(3) by (simp add: run_frame_def)
  then have fits1: "run_fits E (running s1) s1"
    using pre(10,11) by (simp add: run_fits_def mlfqs_fits_def ready_fits_def f1 pc)
  have "Some (running s1) \<noteq> idle_thread s1" "PRI_MIN \<le> priority (threads s1 (running s1))" "\<not> intr_context E (cpu s1)"
    "\<forall>u \<in> set (run_order E s1). magic (threads s1 u) = THREAD_MAGIC"
    using pre(2,9,10) c1 low(1) by (simp_all add: f1 pc)
  note pre1 = preemption_runs [OF cpu1 s1(2) this(1) fits1 this(2,4)] and nctx = this(3)
  have "t \<in> set (run_order E s1)" by (simp add: s1(1))
  then have ex: "(\<exists>u \<in> set (run_order E s1). p < priority (threads s1 u)) \<longleftrightarrow> p < priority (threads s1 t)"
    using low(2) by (metis not_less)
  have rest: "returns (?rest sf) v s' \<longleftrightarrow> (\<exists>u. returns (preemption_check E s1) u s' \<and> v = next_tid s)"
    "switches (preemption_check E s1) k n s' r \<Longrightarrow> \<exists>r'. switches (?rest sf) k n s' r'" for v s' k n r
    by (auto simp: kernel_defs wake returns_kbind_iff intro: switches_kbindI1)
  have run: "if priority (threads s1 t) > p
     then \<exists>s2 r. switches (thread_create E nm prio (Some f) aux s) ?c t s2 r \<and>
       run_order E s2 = ins_before (higher s1) ?c (run_order E s)
     else returns (thread_create E nm prio (Some f) aux s) (next_tid s) s1"
  proof (cases "priority (threads s1 t) > p")
    case True
    with pre1 nctx obtain n ts s2 r where n: "run_order E s1 = n # ts" "switches (preemption_check E s1) ?c n s2 r"
      "priority (threads s1 n) > p" "run_order E s2 = ins_before (higher s1) ?c ts"
      unfolding ex f1(5) pc by auto
    have "n = t" using low(2) [of n] n(1,3) by (metis list.set_intros(1) not_less)
    moreover have "ts = run_order E s" using n(1) pre(8) ins_before_Cons_same [of "higher s1" t "run_order E s"] \<open>n = t\<close> s1(1) by simp
    moreover obtain r' where "switches (?rest sf) ?c n s2 r'" using rest(2) [OF n(2)] by blast
    then have "switches (thread_create E nm prio (Some f) aux s) ?c n s2 r'" by (rule go(2))
    ultimately show ?thesis unfolding if_P [OF True] using n(4) by blast
  next
    case False
    with pre1 have "returns (preemption_check E s1) () s1" unfolding f1(5) pc ex by simp
    with False show ?thesis using go(1) rest(1) by simp
  qed
  have "elems E s1 All_list = elems E s All_list @ [allelem_of t]" using frame by (simp add: f1 run_frame_def h)
  with s1(1,2,4) created f1(6,7) th(2) run show ?thesis by (intro exI [of _ s1] conjI) simp_all
qed

section \<open>Starting up\<close>

lemma elems_mlfqs_init:
  "list_elems E k (lists (mlfqs_init E s)) = (if \<exists>i \<in> {PRI_MIN..PRI_MAX}. k = Mlfqs_list i then [] else elems E s k)"
proof -
  have "list_elems E k (lists (fold (\<lambda>i. upd_lists (list_init E (Mlfqs_list i))) is s)) =
      (if \<exists>i \<in> set is. k = Mlfqs_list i then [] else elems E s k)" for "is"
    by (induction "is" arbitrary: s) (auto simp: elems_init)
  from this [of "[PRI_MIN..PRI_MAX]"] show ?thesis by (simp add: mlfqs_init_def)
qed

lemma mlfqs_init_frame: "mlfqs_init E s = s\<lparr>lists := lists (mlfqs_init E s), load_avg := 0\<rparr>"
proof -
  have "fold (\<lambda>i. upd_lists (list_init E (Mlfqs_list i))) is s = s\<lparr>lists := lists (fold (\<lambda>i. upd_lists (list_init E (Mlfqs_list i))) is s)\<rparr>" for "is"
  proof (induction "is" arbitrary: s)
    case (Cons i "is")
    let ?s = "upd_lists (list_init E (Mlfqs_list i)) s"
    have "fold (\<lambda>i. upd_lists (list_init E (Mlfqs_list i))) (i # is) s = ?s\<lparr>lists := lists (fold (\<lambda>i. upd_lists (list_init E (Mlfqs_list i))) is ?s)\<rparr>"
      using Cons.IH [of ?s] by simp
    moreover have "?s\<lparr>lists := x\<rparr> = s\<lparr>lists := x\<rparr>" for x by (simp add: upd_lists_def)
    ultimately show ?case by simp
  qed simp
  from this [of "[PRI_MIN..PRI_MAX]"] show ?thesis unfolding mlfqs_init_def by simp
qed

text \<open>The lists after the first statements of \<open>thread_init\<close>: those that are set up are empty, the others as they were.\<close>

lemma initial_lists:
  fixes s :: "('l, 'i, 'p) kstate"
  defines "s1 \<equiv> upd_lists (list_init E All_list) (upd_lists (list_init E Ready_list) (lock_init E tid_lock s))"
  defines "s2 \<equiv> if thread_mlfqs s then mlfqs_init E s1 else s1"
  assumes once: "linked_once E (lists s)"
  shows "s2 = s\<lparr>lists := lists s2, locks := (locks s)(tid_lock := \<lparr>holder = None\<rparr>),
      semas := (semas s)(Lock_sema tid_lock := \<lparr>sema_value = 1\<rparr>), load_avg := load_avg s2\<rparr>"
    "elems E s2 All_list = []" "elems E s2 (Sema_waiters (Lock_sema tid_lock)) = []" "elems E s2 (Lock_waiters tid_lock) = []"
    "elems E s2 Ready_list = []" "run_order E s2 = []" "run_ok E s2"
    "unlinked E e (lists s) \<Longrightarrow> unlinked E e (lists s2)"
proof -
  have frame1: "s1 = s\<lparr>lists := lists s1, locks := (locks s)(tid_lock := \<lparr>holder = None\<rparr>),
      semas := (semas s)(Lock_sema tid_lock := \<lparr>sema_value = 1\<rparr>)\<rparr>"
    by (cases "locks s tid_lock"; cases "semas s (Lock_sema tid_lock)")
      (simp add: s1_def lock_init_def sema_init_def upd_lists_def upd_sema_def upd_lock_def)
  have el1: "elems E s1 k = (if k \<in> {All_list, Ready_list, Lock_waiters tid_lock, Sema_waiters (Lock_sema tid_lock)}
      then [] else elems E s k)" for k
    by (auto simp: s1_def lock_init_def sema_init_def elems_init)
  have "thread_mlfqs s1 = thread_mlfqs s" by (subst frame1) simp
  moreover have "thread_mlfqs (mlfqs_init E s1) = thread_mlfqs s1" by (subst mlfqs_init_frame) simp
  ultimately have mode: "thread_mlfqs s2 = thread_mlfqs s" by (simp add: s2_def)
  have el2: "elems E s2 k = (if thread_mlfqs s \<and> (\<exists>i \<in> {PRI_MIN..PRI_MAX}. k = Mlfqs_list i) then [] else elems E s1 k)" for k
    by (simp add: s2_def elems_mlfqs_init)
  have sub: "elems E s2 k = [] \<or> elems E s2 k = elems E s k" for k by (simp add: el2 el1)
  have once2: "linked_once E (lists s2)"
    unfolding linked_once_def
  proof (intro conjI allI impI)
    fix k k' :: list_ptr assume "k \<noteq> k'"
    then have "set (elems E s k) \<inter> set (elems E s k') = {}" using once by (simp add: linked_once_def)
    then show "set (elems E s2 k) \<inter> set (elems E s2 k') = {}" using sub [of k] sub [of k'] by auto
  next
    fix k :: list_ptr show "distinct (elems E s2 k)" using once sub [of k] by (auto simp: linked_once_def)
  qed
  show "s2 = s\<lparr>lists := lists s2, locks := (locks s)(tid_lock := \<lparr>holder = None\<rparr>),
      semas := (semas s)(Lock_sema tid_lock := \<lparr>sema_value = 1\<rparr>), load_avg := load_avg s2\<rparr>"
  proof (cases "thread_mlfqs s")
    case True
    then have "s2 = s1\<lparr>lists := lists s2, load_avg := load_avg s2\<rparr>"
      unfolding s2_def by (subst mlfqs_init_frame) (simp add: mlfqs_init_def)
    moreover have "s1\<lparr>lists := a, load_avg := b\<rparr> = s\<lparr>lists := a, locks := (locks s)(tid_lock := \<lparr>holder = None\<rparr>),
        semas := (semas s)(Lock_sema tid_lock := \<lparr>sema_value = 1\<rparr>), load_avg := b\<rparr>" for a b
      by (subst frame1) simp
    ultimately show ?thesis by metis
  qed (use frame1 in \<open>simp add: s2_def\<close>)
  show "elems E s2 All_list = []" "elems E s2 (Sema_waiters (Lock_sema tid_lock)) = []" "elems E s2 (Lock_waiters tid_lock) = []"
    "elems E s2 Ready_list = []" by (simp_all add: el2 el1)
  show "run_order E s2 = []" "run_ok E s2"
    using once2 by (auto simp: run_order_def mode mlfqs_queue_def ready_queue_def run_ok_def ready_ok_def mlfqs_ok_def
        mlfqs_queues_ok_def el2 el1)
  show "unlinked E e (lists s2)" if "unlinked E e (lists s)"
    using that sub by (metis empty_iff empty_set unlinked_def)
qed

lemma thread_init_runs:
  assumes off: "level E s = INTR_OFF" and nint: "\<not> intr_context E (cpu s)" and once: "linked_once E (lists s)"
    and un: "unlinked E (allelem_of (running s)) (lists s)" "unlinked E (lock_elem_of tid_lock) (lists s)"
      "unlinked E (elem_of (running s)) (lists s)"
    and idle: "idle_thread s = None"
  shows "\<exists>s'. returns (thread_init E s) () s' \<and> on_cpu s' \<and> running s' = running s \<and> initial_thread s' = Some (running s) \<and>
    idle_thread s' = None \<and> thread_ok (threads s' (running s)) \<and> name (threads s' (running s)) = ''main'' \<and>
    tid (threads s' (running s)) = next_tid s \<and> next_tid s' = i32 (next_tid s + 1) \<and>
    priority (threads s' (running s)) = PRI_DEFAULT \<and> elems E s' All_list = [allelem_of (running s)] \<and>
    elems E s' (Locks_held (running s)) = [] \<and> run_order E s' = [] \<and> run_ok E s' \<and> lock_free E tid_lock s' \<and>
    thread_mlfqs s' = thread_mlfqs s \<and> level E s' = INTR_OFF \<and>
    \<not> intr_context E (cpu s') \<and>
    (\<forall>e. e \<noteq> allelem_of (running s) \<longrightarrow> unlinked E e (lists s) \<longrightarrow> unlinked E e (lists s'))"
proof -
  define t where "t = running s"
  define s1 where "s1 = upd_lists (list_init E All_list) (upd_lists (list_init E Ready_list) (lock_init E tid_lock s))"
  define s2 where "s2 = (if thread_mlfqs s then mlfqs_init E s1 else s1)"
  note in2 = initial_lists [OF once, folded s1_def, folded s2_def]
  have f2: "running s2 = t" "cpu s2 = cpu s" "threads s2 = threads s" "idle_thread s2 = None" "thread_mlfqs s2 = thread_mlfqs s"
    "next_tid s2 = next_tid s" "holder (locks s2 tid_lock) = None" "sema_value (semas s2 (Lock_sema tid_lock)) = 1"
    by (subst in2(1), simp add: t_def idle)+
  define s3 where "s3 = s2\<lparr>initial_thread := Some t\<rparr>"
  have pri: "PRI_MIN \<le> PRI_DEFAULT" "PRI_DEFAULT \<le> PRI_MAX" by (simp_all add: kernel_consts)
  have par: "parent_ok s3 t" by (simp add: parent_ok_def s3_def f2)
  from init_thread_runs [OF pri this, of "''main''"] obtain c1 where init: "init_thread E t ''main'' PRI_DEFAULT s3 =
      Inr (s3\<lparr>lists := list_push_back E All_list (allelem_of t) (list_init E (Locks_held t) (lists s2)),
        cpu := c1, threads := (threads s)(t := new_thread s3 t ''main'' PRI_DEFAULT)\<rparr>)"
    and c1: "intr_get_level E c1 = INTR_OFF" "\<not> intr_context E c1"
    using off nint by (auto simp: s3_def f2)
  define h1 where "h1 = list_push_back E All_list (allelem_of t) (list_init E (Locks_held t) (lists s2))"
  have run3: "run_ok E s3" "run_order E s3 = []"
    using in2(6,7) run_ok_cong [of s3 s2 E] run_order_cong [of s3 s2 E] by (simp_all add: s3_def)
  have l3: "lists s3 = lists s2" by (simp add: s3_def)
  have un3: "unlinked E (allelem_of t) (lists s3)" using in2(8) un(1) by (simp add: l3 t_def)
  note li = create_lists [OF run3(1) un3 h1_def [folded l3]]
  define th where "th = (new_thread s3 t ''main'' PRI_DEFAULT)\<lparr>status := THREAD_RUNNING\<rparr>"
  define s5 where "s5 = s3\<lparr>lists := h1, cpu := c1, threads := (threads s)(t := th)\<rparr>"
  have s5: "upd_thread t (status_update (\<lambda>_. THREAD_RUNNING)) (s3\<lparr>lists := h1, cpu := c1,
      threads := (threads s)(t := new_thread s3 t ''main'' PRI_DEFAULT)\<rparr>) = s5"
    by (cases "new_thread s3 t ''main'' PRI_DEFAULT") (simp add: s5_def upd_thread_def th_def)
  have th: "thread_ok th" "magic th = THREAD_MAGIC" "status th = THREAD_RUNNING" "base_priority th = PRI_DEFAULT" "name th = ''main''"
    using new_thread_ok [OF pri par, of "''main''"] by (simp_all add: th_def thread_ok_def mlfqs_inputs_ok_def)
  have f5: "threads s5 t = th" "running s5 = t" "cpu s5 = c1" "lists s5 = h1" "thread_mlfqs s5 = thread_mlfqs s"
    "next_tid s5 = next_tid s" "holder (locks s5 tid_lock) = None" "sema_value (semas s5 (Lock_sema tid_lock)) = 1"
    "initial_thread s5 = Some t" "idle_thread s5 = None"
    by (simp_all add: s5_def s3_def f2)
  have cpu5: "on_cpu s5" using th by (simp add: on_cpu_def f5)
  have ot: "unlinked E (elem_of t) h1" by (rule li(4)) (simp_all add: l3 in2(8) un(3) t_def)
  have q5: "run_order E s5 = []" "run_ok E s5"
  proof -
    show "run_order E s5 = []" using li(3) run3(2) run_order_cong [of s5 "s3\<lparr>lists := h1\<rparr>" E] by (simp add: s5_def)
    have "run_ok E s5 = run_ok E (s3\<lparr>lists := h1\<rparr>)" by (rule run_ok_cong) (auto simp: s5_def s3_def f2 ot)
    then show "run_ok E s5" using li(2) by simp
  qed
  have lt: "unlinked E (lock_elem_of tid_lock) h1" by (rule li(4)) (simp_all add: l3 in2(8) un(2))
  have free5: "lock_free E tid_lock s5" using lt by (simp add: lock_free_def f5 li(1) l3 in2(3,4))
  have "entitled E s5 t = []" by (simp add: entitled_def f5 li(1))
  then have p: "PRI_DEFAULT = Max (insert (base_priority (threads s5 (running s5)))
      ((\<lambda>w. priority (threads s5 w)) ` (set (entitled E s5 (running s5)) - {running s5})))"
    by (simp add: f5 th)
  have "\<not> intr_context E (cpu s5)" "thread_mlfqs s5 \<longrightarrow> elems E s5 Ready_list = []" "PRI_MIN \<le> priority (threads s5 (running s5))"
    using c1 th(1) by (simp_all add: f5 li(1) l3 in2(5) thread_ok_def)
  from allocate_tid_runs [OF cpu5 this(1) q5(2) this(2) free5 this(3) p] q5(1)
  obtain h c where alloc: "returns (allocate_tid E s5) (next_tid s) (s5\<lparr>lists := h, cpu := c, next_tid := i32 (next_tid s + 1),
      threads := (threads s5)(t := th\<lparr>priority := PRI_DEFAULT\<rparr>)\<rparr>)"
    and h: "\<forall>k. list_elems E k h = list_elems E k h1" and c: "intr_get_level E c = INTR_OFF" "\<not> intr_context E c"
    by (auto simp: f5 c1)
  define s' where "s' = upd_thread t (tid_update (\<lambda>_. next_tid s)) (s5\<lparr>lists := h, cpu := c, next_tid := i32 (next_tid s + 1),
      threads := (threads s5)(t := th\<lparr>priority := PRI_DEFAULT\<rparr>)\<rparr>)"
  have run: "returns (thread_init E s) () s'"
  proof -
    have "thread_mlfqs s1 = thread_mlfqs s" by (simp add: s1_def lock_init_def sema_init_def upd_lock_def upd_sema_def)
    then have "returns (kif thread_mlfqs (kmodify (mlfqs_init E)) kskip s1) () s2" by (simp add: kernel_defs s2_def)
    note step = run_kbind [OF this]
    show ?thesis
      using off init s5 unfolding h1_def [symmetric]
      by (simp add: thread_init_def kthen_def kassert_def kmodify_def s1_def [symmetric] step kget_def running_thread_def
          f2 s3_def [symmetric] katomic_def klet_def run_kbind [OF alloc] s'_def)
  qed
  have f: "threads s' t = th\<lparr>priority := PRI_DEFAULT, tid := next_tid s\<rparr>" "running s' = t" "cpu s' = c" "lists s' = h"
    "thread_mlfqs s' = thread_mlfqs s" "initial_thread s' = Some t" "idle_thread s' = None" "locks s' = locks s5" "semas s' = semas s5"
    "next_tid s' = i32 (next_tid s + 1)"
    by (simp_all add: s'_def f5)
  have "thread_ok (threads s' t)" using th(1) by (simp add: f thread_ok_def mlfqs_inputs_ok_def kernel_consts)
  moreover have "on_cpu s'" using th by (simp add: on_cpu_def f)
  moreover have "lock_free E tid_lock s'" using free5 h by (simp add: lock_free_def f unlinked_def f5)
  moreover have "elems E s' All_list = [allelem_of t]" "elems E s' (Locks_held t) = []" using h by (simp_all add: f li(1) l3 in2(2))
  moreover have "run_order E s' = []" "run_ok E s'"
  proof -
    have pr: "priority (threads s' u) = priority (threads s5 u)" if "\<not> unlinked E (elem_of u) (lists s5)" for u
      using that ot by (auto simp: f5 s'_def)
    have "\<forall>k. elems E s' k = elems E s5 k" "thread_mlfqs s' = thread_mlfqs s5" using h by (simp_all add: f f5)
    from run_same_elems [OF q5(2) this pr] show "run_order E s' = []" "run_ok E s'" by (simp_all add: q5(1))
  qed
  moreover have "unlinked E e (lists s')" if "e \<noteq> allelem_of t" "unlinked E e (lists s)" for e
    using li(4) [of e] in2(8) [of e] that h by (simp add: f l3 unlinked_def)
  ultimately show ?thesis using run c th by (intro exI [of _ s']) (simp add: f t_def [symmetric])
qed

end

section \<open>The guarantees\<close>

text \<open>C15. A thread is created from a fresh page when nobody competes for the lock of the identifiers: it gets the next identifier,
  its name cut to 15 characters, the requested priority (under the advanced scheduler the one of the formula, from the
  values it inherits from its creator), within all bounds, and the stack frames that make its first
  switch end in \<open>kernel_thread\<close> with the function and its argument.  It joins the list of all threads and the
  run queue behind its equals.  The creator goes on with the identifier unless the new thread is above it, in which
  case the new thread runs.  The creator's own priority has become \<open>p\<close>, what the release of the lock leaves it.\<close>

theorem thread_create_correct:
  assumes "kernel_env E" and "create_ok E t p s" and "palloc_get_page E (pages s) = (Some t, pg)"
    and "PRI_MIN \<le> prio" and "prio \<le> PRI_MAX"
  shows "\<exists>s1. run_order E s1 = ins_before (higher s1) t (run_order E s) \<and> run_ok E s1 \<and>
    elems E s1 All_list = elems E s All_list @ [allelem_of t] \<and> created_ok E s t nm prio f aux s1 \<and>
    next_tid s1 = i32 (next_tid s + 1) \<and> pages s1 = pg \<and> level E s1 = level E s \<and>
    (\<forall>u. u \<noteq> t \<longrightarrow> threads s1 u = (if u = running s then (threads s u)\<lparr>priority := p\<rparr> else threads s u)) \<and>
    (if priority (threads s1 t) > p
     then \<exists>s2 r. switches (thread_create E nm prio (Some f) aux s) (running s) t s2 r \<and>
       run_order E s2 = ins_before (higher s1) (running s) (run_order E s)
     else returns (thread_create E nm prio (Some f) aux s) (next_tid s) s1)"
  by (rule kernel_env.thread_create_runs [OF assms])

text \<open>C34. The ways \<open>thread_create\<close> fails: without a function the kernel stops at the assertion, without memory the call returns
  \<open>TID_ERROR\<close> and leaves everything but the allocator alone, and a priority out of range stops the
  kernel even under the advanced scheduler, which does not use it.\<close>

theorem thread_create_fails:
  "panics (thread_create E nm prio None aux s) Assert_function \<and>
    (case palloc_get_page E (pages s) of
      (None, pg) \<Rightarrow> returns (thread_create E nm prio (Some f) aux s) TID_ERROR (s\<lparr>pages := pg\<rparr>)
    | (Some t, pg) \<Rightarrow> (prio < PRI_MIN \<or> PRI_MAX < prio \<longrightarrow>
        panics (thread_create E nm prio (Some f) aux s) Assert_priority_range))"
  by (auto simp: thread_create_def klet_def kernel_defs init_thread_def not_le split: prod.split option.split)

text \<open>C18. The start of the threading system turns the code that runs into the thread \<open>main\<close>, running, within all bounds, with the
  first identifier, alone on the list of all threads, and leaves an empty run queue in order and a free lock for
  identifiers: what the creation of the next threads relies on.  Its priority is \<open>PRI_DEFAULT\<close> under either scheduler: the
  release of that lock takes back what the advanced scheduler has computed.\<close>

theorem thread_init_correct:
  assumes "kernel_env E" and "level E s = INTR_OFF" and "\<not> intr_context E (cpu s)" and "linked_once E (lists s)"
    and "unlinked E (allelem_of (running s)) (lists s)" and "unlinked E (lock_elem_of tid_lock) (lists s)"
    and "unlinked E (elem_of (running s)) (lists s)" and "idle_thread s = None"
  shows "\<exists>s'. returns (thread_init E s) () s' \<and> on_cpu s' \<and> running s' = running s \<and> initial_thread s' = Some (running s) \<and>
    idle_thread s' = None \<and> thread_ok (threads s' (running s)) \<and> name (threads s' (running s)) = ''main'' \<and>
    tid (threads s' (running s)) = next_tid s \<and> next_tid s' = i32 (next_tid s + 1) \<and>
    priority (threads s' (running s)) = PRI_DEFAULT \<and> elems E s' All_list = [allelem_of (running s)] \<and>
    elems E s' (Locks_held (running s)) = [] \<and> run_order E s' = [] \<and> run_ok E s' \<and> lock_free E tid_lock s' \<and>
    thread_mlfqs s' = thread_mlfqs s \<and> level E s' = INTR_OFF"
  using kernel_env.thread_init_runs [OF assms] by blast

section \<open>Examples\<close>

text \<open>Thread 1 of \<^const>\<open>sched_example\<close> with a free page at address 8192 and the lock of the identifiers free.\<close>

definition create_example :: ref_kstate where
  "create_example = (sched_example INTR_ON 31)\<lparr>semas := (\<lambda>_. \<lparr>sema_value = 1\<rparr>), pages := [8192]\<rparr>"

lemma create_example_simps [simp]:
  "threads create_example = threads (sched_example INTR_ON 31)" "lists create_example = lists (sched_example INTR_ON 31)"
  "running create_example = 1" "idle_thread create_example = Some 9" "thread_mlfqs create_example = False"
  "cpu create_example = \<lparr>flag_level = INTR_ON, flag_context = False, flag_pending = False\<rparr>"
  "semas create_example x = \<lparr>sema_value = 1\<rparr>" "locks create_example l = \<lparr>holder = None\<rparr>" "next_tid create_example = 3"
  "pages create_example = [8192]"
  by (simp_all add: create_example_def sched_example_facts) (simp_all add: sched_example_def ref_state_def)

lemma create_example_lists:
  "lists (sched_example INTR_ON 31) k = (if k = Ready_list then [elem_of 2, elem_of 3]
    else if k = All_list then [allelem_of 1, allelem_of 2, allelem_of 3, allelem_of 4] else [])"
  by (simp add: sched_example_def)

lemma create_example_ok: "create_ok ref_externs 8192 31 create_example"
proof -
  have q: "run_order ref_externs create_example = [2, 3]"
    using sched_example_facts(1) run_order_cong [of create_example "sched_example INTR_ON 31" ref_externs]
    by (simp add: create_example_def)
  have "run_ok ref_externs create_example"
    using sched_example_facts(3) run_ok_cong [of create_example "sched_example INTR_ON 31" ref_externs]
    by (simp add: create_example_def)
  moreover have "entitled ref_externs create_example 1 = []" by (simp add: entitled_def create_example_lists)
  ultimately show ?thesis using q
    by (simp add: create_ok_def on_cpu_def sched_example_facts lock_free_def unlinked_def create_example_lists
        kernel_consts parent_ok_def del: One_nat_def)
qed

theorem thread_create_correct_witness:
  "\<exists>s2 r. switches (thread_create ref_externs ''worker'' 40 (Some 500) 7 create_example) 1 8192 s2 r"
proof -
  have h: "palloc_get_page ref_externs (pages create_example) = (Some 8192, [])" "PRI_MIN \<le> (40 :: int)" "(40 :: int) \<le> PRI_MAX"
    by (simp_all add: kernel_consts)
  obtain s1 where s1: "created_ok ref_externs create_example 8192 ''worker'' 40 500 7 s1"
    "if priority (threads s1 8192) > 31
     then \<exists>s2 r. switches (thread_create ref_externs ''worker'' 40 (Some 500) 7 create_example) (running create_example) 8192 s2 r \<and>
       run_order ref_externs s2 = ins_before (higher s1) (running create_example) (run_order ref_externs create_example)
     else returns (thread_create ref_externs ''worker'' 40 (Some 500) 7 create_example) (next_tid create_example) s1"
    using thread_create_correct [OF ref.kernel_env_axioms create_example_ok h] by blast
  have "priority (threads s1 8192) = 40" using s1(1) by (simp add: created_ok_def Let_def)
  with s1(2) show ?thesis by auto
qed

theorem thread_create_fails_witness:
  "panics (thread_create ref_externs ''bad'' 64 (Some 500) 7 create_example) Assert_priority_range"
  using thread_create_fails [of ref_externs "''bad''" 64 7 create_example 500] by (simp add: kernel_consts)

theorem thread_init_correct_witness:
  "\<exists>s'. returns (thread_init ref_externs ((ref_state True INTR_OFF (\<lambda>_. ref_thread THREAD_BLOCKED 0) (\<lambda>_. []))\<lparr>idle_thread := None\<rparr>)) () s' \<and>
    priority (threads s' 1) = PRI_DEFAULT \<and> status (threads s' 1) = THREAD_RUNNING"
proof -
  let ?s = "(ref_state True INTR_OFF (\<lambda>_. ref_thread THREAD_BLOCKED 0) (\<lambda>_. []))\<lparr>idle_thread := None\<rparr>"
  have h: "level ref_externs ?s = INTR_OFF" "\<not> intr_context ref_externs (cpu ?s)" "linked_once ref_externs (lists ?s)"
    "unlinked ref_externs (allelem_of (running ?s)) (lists ?s)" "unlinked ref_externs (lock_elem_of tid_lock) (lists ?s)"
    "unlinked ref_externs (elem_of (running ?s)) (lists ?s)" "idle_thread ?s = None"
    by (simp_all add: linked_once_def unlinked_def)
  obtain s' where "returns (thread_init ref_externs ?s) () s'" "on_cpu s'" "running s' = running ?s"
    "priority (threads s' (running ?s)) = PRI_DEFAULT"
    using thread_init_correct [OF ref.kernel_env_axioms h] by blast
  then show ?thesis by (intro exI [of _ s']) (simp add: on_cpu_def)
qed

end
