(* ===== verification/Timer.thy ===== *)
theory Timer
  imports Scheduling
begin

text \<open>
  The timer of \<^verbatim>\<open>devices/timer.c\<close>: the tick counter, sleeping threads and the interrupt handler that
  wakes them, the calibration of busy waiting, and the delays.  Console output and the programming of the
  timer chip are left out.
\<close>

section \<open>The code\<close>

definition timer_init :: "('l, 'i, 'p) externs \<Rightarrow> ('l, 'i, 'p) kstate \<Rightarrow> ('l, 'i, 'p) kstate" where
  "timer_init E = upd_lists (list_init E Sleep_list)"

definition timer_ticks :: "('l, 'i, 'p) externs \<Rightarrow> ('l, 'i, 'p) kstate \<Rightarrow> int \<times> ('l, 'i, 'p) kstate" where
  "timer_ticks E s =
    (let old_level = fst (intr_disable E (cpu s));
         s1 = upd_cpu (\<lambda>i. snd (intr_disable E i)) s;
         t = ticks s1
     in (t, upd_cpu (intr_set_level E old_level) s1))"

definition timer_elapsed :: "('l, 'i, 'p) externs \<Rightarrow> int \<Rightarrow> ('l, 'i, 'p) kstate \<Rightarrow> int \<times> ('l, 'i, 'p) kstate" where
  "timer_elapsed E t0 s = (case timer_ticks E s of (t, s1) \<Rightarrow> (i64 (t - t0), s1))"

text \<open>A call of \<open>timer_ticks\<close> inside a function.\<close>

definition kticks :: "('l, 'i, 'p) externs \<Rightarrow> (int \<Rightarrow> (('l, 'i, 'p) kstate, 'a) kernel) \<Rightarrow> (('l, 'i, 'p) kstate, 'a) kernel" where
  "kticks E f s = (case timer_ticks E s of (t, s1) \<Rightarrow> f t s1)"

definition wakeup_less :: "('l, 'i, 'p) kstate \<Rightarrow> list_elem \<Rightarrow> list_elem \<Rightarrow> bool" where
  "wakeup_less s a b =
    (let ta = list_entry a; tb = list_entry b
     in wakeup_tick (threads s ta) < wakeup_tick (threads s tb))"

definition timer_sleep :: "('l, 'i, 'p) externs \<Rightarrow> int \<Rightarrow> (('l, 'i, 'p) kstate, unit) kernel" where
  "timer_sleep E n =
    kticks E (\<lambda>start. kpause (
      kseq [kassert (\<lambda>s. level E s = INTR_ON) Assert_intr_on,
            kif (\<lambda>s. n \<le> 0) kskip
              (kdisable E (\<lambda>old_level. kpause (kcall thread_current (\<lambda>cur.
                kseq [kmodify (upd_thread cur (wakeup_tick_update (\<lambda>_. i64 (start + n)))),
                      kmodify (\<lambda>s. upd_lists (list_insert_ordered E Sleep_list (sleep_elem_of cur) (wakeup_less s)) s),
                      thread_block E,
                      kset_level E old_level]))))]))"

text \<open>The test of the loop in \<open>timer_wakeup\<close>, with the \<open>break\<close> that leaves it.\<close>

definition sleeper_due :: "('l, 'i, 'p) externs \<Rightarrow> int \<Rightarrow> ('l, 'i, 'p) kstate \<Rightarrow> bool" where
  "sleeper_due E now s \<longleftrightarrow> \<not> list_empty E Sleep_list (lists s) \<and>
    \<not> wakeup_tick (threads s (list_entry (list_front E Sleep_list (lists s)))) > now"

definition wake_sleeper :: "('l, 'i, 'p) externs \<Rightarrow> (('l, 'i, 'p) kstate, unit) kernel" where
  "wake_sleeper E =
    kget (\<lambda>s. list_entry (list_front E Sleep_list (lists s))) (\<lambda>t.
      kseq [kmodify (upd_lists (\<lambda>h. snd (list_pop_front E Sleep_list h))),
            katomic (thread_unblock E t),
            kif (\<lambda>s. \<not> intr_context E (cpu s)) (thread_yield E) kskip])"

definition timer_wakeup :: "('l, 'i, 'p) externs \<Rightarrow> (('l, 'i, 'p) kstate, unit) kernel" where
  "timer_wakeup E = kticks E (\<lambda>now. kpause (kwhile (sleeper_due E now) (wake_sleeper E)))"

definition timer_interrupt :: "('l, 'i, 'p) externs \<Rightarrow> (('l, 'i, 'p) kstate, unit) kernel" where
  "timer_interrupt E =
    kseq [kmodify (\<lambda>s. s\<lparr>ticks := i64 (ticks s + 1)\<rparr>),
          katomic (thread_tick E),
          timer_wakeup E,
          kif thread_mlfqs
            (kseq [kticks E (\<lambda>t. if t smod 4 = 0
                     then kseq [katomic (mlfqs_update_priority_all E), mlfqs_check_preemption E] else kskip),
                   kticks E (\<lambda>t. if t smod TIMER_FREQ = 0 then katomic (mlfqs_update_rcpu_la E) else kskip)])
            kskip]"

section \<open>Delays\<close>

text \<open>The loop \<open>while (loops-- > 0)\<close>; its variable is local, and every turn can be interrupted.\<close>

fun busy_wait_turns :: "nat \<Rightarrow> (('l, 'i, 'p) kstate, unit) kernel" where
  "busy_wait_turns 0 = kskip"
| "busy_wait_turns (Suc n) = kpause (busy_wait_turns n)"

definition busy_wait :: "int \<Rightarrow> (('l, 'i, 'p) kstate, unit) kernel" where
  "busy_wait loops = busy_wait_turns (nat loops)"

definition too_many_loops :: "32 word \<Rightarrow> (('l, 'i, 'p) kstate, bool) kernel" where
  "too_many_loops loops =
    kthen (kget ticks (\<lambda>start. kwhile (\<lambda>s. ticks s = start) kskip))
      (kget ticks (\<lambda>start. kthen (busy_wait (uint loops)) (\<lambda>s. Done (start \<noteq> ticks s) s)))"

text \<open>
  The loop that refines the lower bits ends when \<open>test_bit\<close> reaches its bound; the first argument
  is fuel, and one more turn than the width of a word is enough.
\<close>

fun calibrate_bits :: "nat \<Rightarrow> 32 word \<Rightarrow> 32 word \<Rightarrow> (('l, 'i, 'p) kstate, unit) kernel" where
  "calibrate_bits 0 test_bit stop = (\<lambda>s. Panic No_return)"
| "calibrate_bits (Suc n) test_bit stop =
    (if test_bit = stop then kskip
     else kthen
       (klet (kget loops_per_tick (\<lambda>l. too_many_loops (or l test_bit))) (\<lambda>many.
          if many then kskip else kmodify (\<lambda>s. s\<lparr>loops_per_tick := or (loops_per_tick s) test_bit\<rparr>)))
       (calibrate_bits n (drop_bit 1 test_bit) stop))"

definition timer_calibrate :: "('l, 'i, 'p) externs \<Rightarrow> (('l, 'i, 'p) kstate, unit) kernel" where
  "timer_calibrate E =
    kseq [kassert (\<lambda>s. level E s = INTR_ON) Assert_intr_on,
          kmodify (\<lambda>s. s\<lparr>loops_per_tick := push_bit 10 1\<rparr>),
          kloop (klet (kget loops_per_tick (\<lambda>l. too_many_loops (push_bit 1 l))) (\<lambda>many.
            if many then Done False
            else kthen (kmodify (\<lambda>s. s\<lparr>loops_per_tick := push_bit 1 (loops_per_tick s)\<rparr>))
              (kthen (kassert (\<lambda>s. loops_per_tick s \<noteq> 0) Assert_loops_nonzero) (Done True)))),
          kget loops_per_tick (\<lambda>high_bit. calibrate_bits 33 (drop_bit 1 high_bit) (drop_bit 10 high_bit))]"

definition real_time_delay :: "int \<Rightarrow> int \<Rightarrow> (('l, 'i, 'p) kstate, unit) kernel" where
  "real_time_delay num denom =
    kseq [kassert (\<lambda>s. denom smod 1000 = 0) Assert_denom,
          kget (\<lambda>s. i64 (uint (loops_per_tick s) * num)) (\<lambda>scaled.
            if denom sdiv 1000 = 0 then (\<lambda>s. Panic Divide_error)
            else busy_wait (i64 (scaled sdiv 1000 * TIMER_FREQ) sdiv (denom sdiv 1000)))]"

definition real_time_sleep ::
    "('l, 'i, 'p) externs \<Rightarrow> int \<Rightarrow> int \<Rightarrow> (('l, 'i, 'p) kstate, unit) kernel" where
  "real_time_sleep E num denom =
    (if denom = 0 then (\<lambda>s. Panic Divide_error)
     else let n = i64 (num * TIMER_FREQ) sdiv denom
          in kseq [kassert (\<lambda>s. level E s = INTR_ON) Assert_intr_on,
                   if n > 0 then timer_sleep E n else real_time_delay num denom])"

definition timer_msleep :: "('l, 'i, 'p) externs \<Rightarrow> int \<Rightarrow> (('l, 'i, 'p) kstate, unit) kernel" where
  "timer_msleep E ms = real_time_sleep E ms 1000"

definition timer_usleep :: "('l, 'i, 'p) externs \<Rightarrow> int \<Rightarrow> (('l, 'i, 'p) kstate, unit) kernel" where
  "timer_usleep E us = real_time_sleep E us (1000 * 1000)"

definition timer_nsleep :: "('l, 'i, 'p) externs \<Rightarrow> int \<Rightarrow> (('l, 'i, 'p) kstate, unit) kernel" where
  "timer_nsleep E ns = real_time_sleep E ns (1000 * 1000 * 1000)"

definition timer_mdelay :: "int \<Rightarrow> (('l, 'i, 'p) kstate, unit) kernel" where
  "timer_mdelay ms = real_time_delay ms 1000"

definition timer_udelay :: "int \<Rightarrow> (('l, 'i, 'p) kstate, unit) kernel" where
  "timer_udelay us = real_time_delay us (1000 * 1000)"

definition timer_ndelay :: "int \<Rightarrow> (('l, 'i, 'p) kstate, unit) kernel" where
  "timer_ndelay ns = real_time_delay ns (1000 * 1000 * 1000)"

section \<open>Sleeping\<close>

text \<open>The list of sleeping threads: each is on it once, and the threads that are due first come first.\<close>

definition sleepers_ok :: "('l, 'i, 'p) externs \<Rightarrow> ('l, 'i, 'p) kstate \<Rightarrow> bool" where
  "sleepers_ok E s \<longleftrightarrow> (\<forall>e \<in> set (elems E s Sleep_list). member_of e = Sleep_elem) \<and>
    sorted_wrt (\<lambda>a b. \<not> wakeup_less s b a) (elems E s Sleep_list)"

context kernel_env
begin

lemma timer_ticks_eq:
  "timer_ticks E s = (ticks s, upd_cpu (\<lambda>i. intr_set_level E (level E s) (snd (intr_disable E i))) s)"
  by (simp add: timer_ticks_def Let_def intr_laws) (simp add: upd_cpu_def)

text \<open>One turn of the loop that wakes sleeping threads, in an interrupt handler.\<close>

lemma wake_sleeper_runs:
  assumes ok: "run_ok E s" and ctx: "intr_context E (cpu s)"
    and e: "elems E s Sleep_list = sleep_elem_of t # es" and t: "unblock_ok E t s"
  shows "\<exists>s1 h c. returns (wake_sleeper E s) () s1 \<and>
    thread_unblock E t (s\<lparr>lists := snd (list_pop_front E Sleep_list (lists s))\<rparr>) = Inr s1 \<and>
    s1 = s\<lparr>lists := h, cpu := c, threads := (threads s)(t := readied s t)\<rparr> \<and>
    list_elems E Sleep_list h = es \<and>
    (\<forall>l. \<not> run_list l \<and> l \<noteq> Sleep_list \<longrightarrow> list_elems E l h = elems E s l) \<and>
    (\<forall>u. u \<noteq> t \<longrightarrow> unlinked E (elem_of u) (lists s) \<longrightarrow> unlinked E (elem_of u) h) \<and>
    mset (run_order E s1) = add_mset t (mset (run_order E s)) \<and> run_ok E s1 \<and>
    intr_get_level E c = level E s \<and> intr_context E c \<and> intr_yield_pending E c = intr_yield_pending E (cpu s)"
proof -
  let ?h0 = "snd (list_pop_front E Sleep_list (lists s))"
  define s0 where "s0 = s\<lparr>lists := ?h0\<rparr>"
  have pop: "run_order E s0 = run_order E s" "run_ok E s0"
    using run_queue_pop_other [OF _ ok e] by (simp_all add: s0_def)
  have u0: "unlinked E (elem_of u) ?h0 = unlinked E (elem_of u) (lists s)" for u
    by (rule unlinked_pop_front_other [OF e]) simp
  have "unblock_ok E t s0" using t by (simp add: unblock_ok_def wakeable_def u0 s0_def)
  from thread_unblock_enqueues [OF this pop(2)] obtain s1 h c where s1: "thread_unblock E t s0 = Inr s1"
    "run_order E s1 = ins_before (higher s1) t (run_order E s0)" "run_ok E s1" "level E s1 = level E s0"
    "s1 = s0\<lparr>lists := h, cpu := c, threads := (threads s0)(t := readied s0 t)\<rparr>" "run_frame E t (lists s0) h"
    "intr_context E c = intr_context E (cpu s0)" "intr_yield_pending E c = intr_yield_pending E (cpu s0)"
    by blast
  have r: "readied s0 t = readied s t" by (simp add: readied_def s0_def)
  have eq: "s1 = s\<lparr>lists := h, cpu := c, threads := (threads s)(t := readied s t)\<rparr>"
    using s1(5) r by (simp add: s0_def)
  have f0: "lists s0 = ?h0" "cpu s0 = cpu s" by (simp_all add: s0_def)
  have up: "upd_lists (\<lambda>h. snd (list_pop_front E Sleep_list h)) s = s0" by (simp add: upd_lists_def s0_def)
  have "\<not> \<not> intr_context E (cpu s1)" using s1(7) ctx by (simp add: eq f0)
  then have "returns (wake_sleeper E s) () s1"
    using s1(1) front_eq [OF e] by (simp add: wake_sleeper_def kernel_defs up)
  moreover have "list_elems E l h = list_elems E l ?h0" if "\<not> run_list l" for l
    using s1(6) that by (simp add: run_frame_def f0)
  moreover have "unlinked E (elem_of u) (lists s) \<Longrightarrow> unlinked E (elem_of u) h" if "u \<noteq> t" for u
    using s1(6) that by (simp add: run_frame_def u0 f0)
  moreover have "mset (run_order E s1) = add_mset t (mset (run_order E s))" using s1(2) pop(1) by simp
  moreover have "intr_get_level E c = level E s" using s1(4) by (simp add: eq f0)
  moreover have "thread_unblock E t (s\<lparr>lists := ?h0\<rparr>) = Inr s1" using s1(1) by (simp add: s0_def)
  ultimately show ?thesis using s1(3,7,8) eq ctx
    by (intro exI [of _ s1] exI [of _ h] exI [of _ c]) (simp add: elems_pop_front [OF e] f0 del: fun_upd_apply)
qed

end

definition due :: "('l, 'i, 'p) kstate \<Rightarrow> int \<Rightarrow> list_elem \<Rightarrow> bool" where
  "due s now e \<longleftrightarrow> wakeup_tick (threads s (list_entry e)) \<le> now"

text \<open>What the loop leaves behind: the threads that are due are ready and off the list, all others are as before.\<close>

definition woken :: "('l, 'i, 'p) externs \<Rightarrow> int \<Rightarrow> ('l, 'i, 'p) kstate \<Rightarrow> ('l, 'i, 'p) kstate \<Rightarrow> bool" where
  "woken E now s s' \<longleftrightarrow> s' = s\<lparr>lists := lists s', cpu := cpu s', threads := (\<lambda>t.
      if t \<in> list_entry ` set (filter (due s now) (elems E s Sleep_list)) then readied s t else threads s t)\<rparr> \<and>
    elems E s' Sleep_list = filter (\<lambda>e. \<not> due s now e) (elems E s Sleep_list) \<and>
    (\<forall>l. \<not> run_list l \<and> l \<noteq> Sleep_list \<longrightarrow> elems E s' l = elems E s l) \<and>
    mset (run_order E s') =
      mset (run_order E s) + mset (map list_entry (filter (due s now) (elems E s Sleep_list))) \<and>
    (\<forall>u. u \<notin> list_entry ` set (filter (due s now) (elems E s Sleep_list)) \<longrightarrow>
      unlinked E (elem_of u) (lists s) \<longrightarrow> unlinked E (elem_of u) (lists s')) \<and>
    run_ok E s' \<and> level E s' = level E s \<and> intr_context E (cpu s') = intr_context E (cpu s) \<and>
    intr_yield_pending E (cpu s') = intr_yield_pending E (cpu s)"

lemma woken_none:
  assumes "\<forall>e \<in> set (elems E s Sleep_list). \<not> due s now e" and "run_ok E s"
  shows "woken E now s s"
proof -
  have "filter (due s now) (elems E s Sleep_list) = []" "filter (\<lambda>e. \<not> due s now e) (elems E s Sleep_list) = elems E s Sleep_list"
    using assms(1) by (simp_all add: filter_empty_conv)
  with assms(2) show ?thesis unfolding woken_def by simp
qed

lemma woken_one:
  assumes e: "elems E s Sleep_list = sleep_elem_of t # es" and d: "due s now (sleep_elem_of t)" and t: "t \<notin> list_entry ` set es"
    and s1: "s1 = s\<lparr>lists := h, cpu := c, threads := (threads s)(t := readied s t)\<rparr>" and h: "list_elems E Sleep_list h = es"
    and others: "\<forall>l. \<not> run_list l \<and> l \<noteq> Sleep_list \<longrightarrow> list_elems E l h = elems E s l"
    and un: "\<forall>u. u \<noteq> t \<longrightarrow> unlinked E (elem_of u) (lists s) \<longrightarrow> unlinked E (elem_of u) h"
    and m: "mset (run_order E s1) = add_mset t (mset (run_order E s))"
    and c: "intr_get_level E c = level E s" "intr_context E c = intr_context E (cpu s)"
      "intr_yield_pending E c = intr_yield_pending E (cpu s)"
    and w: "woken E now s1 s'"
  shows "woken E now s s'"
proof -
  have f1: "lists s1 = h" "cpu s1 = c" "threads s1 = (threads s)(t := readied s t)" by (simp_all add: s1)
  have due: "due s1 now = due s now" by (auto simp: due_def f1 readied_def fun_eq_iff)
  have r: "readied s1 u = readied s u" if "u \<noteq> t" for u using that by (simp add: readied_def s1)
  let ?es = "filter (due s now) es"
  have eq1: "s' = s1\<lparr>lists := lists s', cpu := cpu s', threads := (\<lambda>u.
      if u \<in> list_entry ` set ?es then readied s1 u else threads s1 u)\<rparr>"
    using w by (simp add: woken_def f1 h due)
  have th: "(\<lambda>u. if u \<in> list_entry ` set ?es then readied s1 u else threads s1 u) =
      (\<lambda>u. if u \<in> list_entry ` set (sleep_elem_of t # ?es) then readied s u else threads s u)"
  proof (rule ext)
    fix u show "(if u \<in> list_entry ` set ?es then readied s1 u else threads s1 u) =
        (if u \<in> list_entry ` set (sleep_elem_of t # ?es) then readied s u else threads s u)"
      using t r [of u] by (cases "u = t") (auto simp: f1)
  qed
  have "s' = s\<lparr>lists := lists s', cpu := cpu s', threads := (\<lambda>u.
      if u \<in> list_entry ` set (sleep_elem_of t # ?es) then readied s u else threads s u)\<rparr>"
    unfolding th [symmetric] by (subst eq1) (simp add: s1)
  moreover have "filter (due s now) (elems E s Sleep_list) = sleep_elem_of t # ?es"
    "filter (\<lambda>e. \<not> due s now e) (elems E s Sleep_list) = filter (\<lambda>e. \<not> due s now e) es"
    using d by (simp_all add: e)
  ultimately show ?thesis using w m others c un
    unfolding woken_def by (simp add: f1 h due)
qed

text \<open>What a turn of the loop keeps for the next one.\<close>

definition wake_ready :: "('l, 'i, 'p) externs \<Rightarrow> int \<Rightarrow> ('l, 'i, 'p) kstate \<Rightarrow> bool" where
  "wake_ready E now s \<longleftrightarrow> run_ok E s \<and> intr_context E (cpu s) \<and> sleepers_ok E s \<and>
    (\<forall>e \<in> set (elems E s Sleep_list). due s now e \<longrightarrow> unblock_ok E (list_entry e) s)"

context kernel_env
begin

lemma wake_turn:
  assumes w: "wake_ready E now s" and list: "elems E s Sleep_list = e # es" and d: "due s now e"
  shows "\<exists>s1. returns (wake_sleeper E s) () s1 \<and>
    thread_unblock E (list_entry e) (s\<lparr>lists := snd (list_pop_front E Sleep_list (lists s))\<rparr>) = Inr s1 \<and>
    wake_ready E now s1 \<and> elems E s1 Sleep_list = es \<and> elems E s1 All_list = elems E s All_list \<and>
    s1 = s\<lparr>lists := lists s1, cpu := cpu s1, threads := (threads s)(list_entry e := readied s (list_entry e))\<rparr> \<and> (\<forall>s'. woken E now s1 s' \<longrightarrow> woken E now s s')"
proof -
  have ok: "run_ok E s" and ctx: "intr_context E (cpu s)" and sl: "sleepers_ok E s"
    and u: "\<forall>e \<in> set (e # es). due s now e \<longrightarrow> unblock_ok E (list_entry e) s"
    using w by (simp_all add: wake_ready_def list)
  obtain t where e: "e = sleep_elem_of t" using list sl by (cases e) (auto simp: sleepers_ok_def)
  have list': "elems E s Sleep_list = sleep_elem_of t # es" using list e by simp
  have "unblock_ok E t s" using u d by (simp add: e)
  from wake_sleeper_runs [OF ok ctx list' this] obtain s1 h c where
    run: "returns (wake_sleeper E s) () s1"
    and ub: "thread_unblock E t (s\<lparr>lists := snd (list_pop_front E Sleep_list (lists s))\<rparr>) = Inr s1"
    and s1: "s1 = s\<lparr>lists := h, cpu := c, threads := (threads s)(t := readied s t)\<rparr>"
    and h: "list_elems E Sleep_list h = es" "\<forall>l. \<not> run_list l \<and> l \<noteq> Sleep_list \<longrightarrow> list_elems E l h = elems E s l"
      "\<forall>u. u \<noteq> t \<longrightarrow> unlinked E (elem_of u) (lists s) \<longrightarrow> unlinked E (elem_of u) h"
    and m: "mset (run_order E s1) = add_mset t (mset (run_order E s))" "run_ok E s1"
    and c: "intr_get_level E c = level E s" "intr_context E c" "intr_yield_pending E c = intr_yield_pending E (cpu s)"
    by blast
  have dist: "t \<notin> list_entry ` set es"
  proof
    assume "t \<in> list_entry ` set es"
    then obtain e' where e': "e' \<in> set es" "list_entry e' = t" by auto
    then have "member_of e' = Sleep_elem" using list sl by (simp add: sleepers_ok_def)
    with e'(2) have "e' = e" by (cases e') (simp add: e)
    moreover have "distinct (elems E s Sleep_list)" using run_ok_linked [OF ok] by (simp add: linked_once_def)
    ultimately show False using e'(1) list by simp
  qed
  have due: "due s1 now = due s now" by (auto simp: due_def s1 readied_def fun_eq_iff)
  have "\<forall>e \<in> set es. due s1 now e \<longrightarrow> unblock_ok E (list_entry e) s1"
  proof (intro ballI impI)
    fix e' assume e': "e' \<in> set es" "due s1 now e'"
    then have ne: "list_entry e' \<noteq> t" using dist by auto
    then have "unblock_ok E (list_entry e') s" using u e' by (simp add: due)
    with ne h(3) show "unblock_ok E (list_entry e') s1" by (simp add: unblock_ok_def wakeable_def s1)
  qed
  moreover have "sleepers_ok E s1"
  proof -
    have "wakeup_less s1 = wakeup_less s" by (simp add: wakeup_less_def Let_def s1 readied_def fun_eq_iff)
    then show ?thesis using list sl h(1) by (simp add: sleepers_ok_def s1)
  qed
  ultimately have "wake_ready E now s1" using m(2) c(2) h(1) by (simp add: wake_ready_def s1)
  moreover have "woken E now s1 s' \<Longrightarrow> woken E now s s'" for s'
    using ctx c d by (intro woken_one [OF list' _ dist s1 h m(1)]) (simp_all add: e)
  ultimately show ?thesis using run ub h(1,2) by (intro exI [of _ s1]) (simp add: e s1)
qed

lemma sleeper_due_iff:
  assumes sl: "sleepers_ok E s"
  shows "sleeper_due E now s \<longleftrightarrow> (\<exists>e \<in> set (elems E s Sleep_list). due s now e)"
proof (cases "elems E s Sleep_list")
  case (Cons e es)
  have "\<not> due s now e'" if "e' \<in> set es" "\<not> due s now e" for e'
    using that Cons sl by (auto simp: sleepers_ok_def wakeup_less_def due_def Let_def)
  then show ?thesis using front_eq [OF Cons] by (auto simp: sleeper_due_def list_empty_iff Cons due_def not_less)
qed (simp add: sleeper_due_def list_empty_iff)

lemma sleeper_due_front:
  assumes "sleepers_ok E s" and "sleeper_due E now s"
  shows "\<exists>e es. elems E s Sleep_list = e # es \<and> due s now e"
  using assms front_eq [of Sleep_list "lists s"]
  by (cases "elems E s Sleep_list") (auto simp: sleeper_due_def list_empty_iff due_def not_less)

lemma wake_loop:
  assumes "elems E s Sleep_list = es" and "wake_ready E now s"
  shows "\<exists>s'. returns (kwhile (sleeper_due E now) (wake_sleeper E) s) () s' \<and> woken E now s s'"
  using assms
proof (induction es arbitrary: s)
  case Nil
  then have "woken E now s s" by (intro woken_none) (simp_all add: wake_ready_def)
  with Nil show ?case by (intro exI [of _ s]) (auto simp: sleeper_due_def list_empty_iff intro: returns_kwhileI)
next
  case (Cons e es)
  have sl: "sleepers_ok E s" using Cons.prems by (simp add: wake_ready_def)
  show ?case
  proof (cases "sleeper_due E now s")
    case False
    then have "woken E now s s" using Cons.prems(2) sleeper_due_iff [OF sl] by (intro woken_none) (auto simp: wake_ready_def)
    with False show ?thesis by (intro exI [of _ s]) (auto intro: returns_kwhileI)
  next
    case True
    with sleeper_due_front [OF sl True] Cons.prems(1) have "due s now e" by simp
    from wake_turn [OF Cons.prems(2,1) this] obtain s1 where s1: "returns (wake_sleeper E s) () s1" "wake_ready E now s1"
      "elems E s1 Sleep_list = es" "\<forall>s'. woken E now s1 s' \<longrightarrow> woken E now s s'" by blast
    from Cons.IH [OF s1(3,2)] s1(1,4) True show ?thesis using returns_kwhileI [of "sleeper_due E now" s "wake_sleeper E"] by auto
  qed
qed

end

lemma woken_upd_cpu:
  assumes "woken E now (upd_cpu g s) s'" and "intr_get_level E (g (cpu s)) = level E s"
    and "intr_context E (g (cpu s)) = intr_context E (cpu s)"
    and "intr_yield_pending E (g (cpu s)) = intr_yield_pending E (cpu s)"
  shows "woken E now s s'"
proof -
  have "due (upd_cpu g s) now = due s now" "readied (upd_cpu g s) = readied s"
    by (simp_all add: due_def readied_def fun_eq_iff)
  moreover have "(upd_cpu g s)\<lparr>lists := a, cpu := b, threads := c\<rparr> = s\<lparr>lists := a, cpu := b, threads := c\<rparr>" for a b c
    by (simp add: upd_cpu_def)
  ultimately show ?thesis using assms by (simp add: woken_def cong: if_cong)
qed

lemma due_sleepers:
  assumes "sleepers_ok E s"
  shows "t \<in> list_entry ` set (filter (due s now) (elems E s Sleep_list)) \<longleftrightarrow>
    sleep_elem_of t \<in> set (elems E s Sleep_list) \<and> wakeup_tick (threads s t) \<le> now"
proof
  assume "t \<in> list_entry ` set (filter (due s now) (elems E s Sleep_list))"
  then obtain e where e: "e \<in> set (elems E s Sleep_list)" "due s now e" "list_entry e = t" by auto
  with assms have "e = sleep_elem_of t" by (cases e) (auto simp: sleepers_ok_def)
  with e show "sleep_elem_of t \<in> set (elems E s Sleep_list) \<and> wakeup_tick (threads s t) \<le> now"
    by (simp add: due_def)
qed (force simp: due_def)

context kernel_env
begin

lemma timer_wakeup_runs:
  assumes ok: "run_ok E s" and ctx: "intr_context E (cpu s)" and sl: "sleepers_ok E s"
    and u: "\<forall>e \<in> set (elems E s Sleep_list). due s (ticks s) e \<longrightarrow> unblock_ok E (list_entry e) s"
  shows "\<exists>s'. returns (timer_wakeup E s) () s' \<and> woken E (ticks s) s s'"
proof -
  let ?g = "\<lambda>i. intr_set_level E (level E s) (snd (intr_disable E i))"
  have "\<forall>e \<in> set (elems E s Sleep_list). due (upd_cpu ?g s) (ticks s) e \<longrightarrow> unblock_ok E (list_entry e) (upd_cpu ?g s)"
    using u by (simp add: due_def unblock_ok_def wakeable_def)
  moreover have "sleepers_ok E (upd_cpu ?g s)" using sl by (simp add: sleepers_ok_def wakeup_less_def)
  ultimately obtain s' where "returns (kwhile (sleeper_due E (ticks s)) (wake_sleeper E) (upd_cpu ?g s)) () s'"
    and "woken E (ticks s) (upd_cpu ?g s) s'"
    using wake_loop [of "upd_cpu ?g s" "elems E s Sleep_list" "ticks s"] ok ctx by (auto simp: wake_ready_def intr_laws)
  moreover from this(2) have "woken E (ticks s) s s'" by (rule woken_upd_cpu) (simp_all add: intr_laws)
  ultimately show ?thesis by (intro exI [of _ s']) (simp add: timer_wakeup_def kticks_def timer_ticks_eq kpause_def)
qed

end

text \<open>C8. The wake-up routine, run by the timer interrupt handler, ends and wakes exactly the sleeping threads whose
  time has come: these leave the list of sleepers, are made ready and join the run queue, which stays
  sorted; every other thread goes on sleeping, in the same order, and nothing else changes.\<close>

theorem timer_wakeup_correct:
  assumes "kernel_env E" and "run_ok E s" and "intr_context E (cpu s)" and "sleepers_ok E s"
    and "\<forall>e \<in> set (elems E s Sleep_list). due s (ticks s) e \<longrightarrow> unblock_ok E (list_entry e) s"
  shows "\<exists>s'. returns (timer_wakeup E s) () s' \<and>
    elems E s' Sleep_list = filter (\<lambda>e. ticks s < wakeup_tick (threads s (list_entry e))) (elems E s Sleep_list) \<and>
    (\<forall>t. threads s' t = (if sleep_elem_of t \<in> set (elems E s Sleep_list) \<and> wakeup_tick (threads s t) \<le> ticks s
      then readied s t else threads s t)) \<and>
    mset (run_order E s') = mset (run_order E s) + mset (map list_entry (filter (due s (ticks s)) (elems E s Sleep_list))) \<and>
    run_ok E s' \<and> (\<forall>l. \<not> run_list l \<and> l \<noteq> Sleep_list \<longrightarrow> elems E s' l = elems E s l) \<and>
    level E s' = level E s \<and> running s' = running s \<and> ticks s' = ticks s"
proof -
  obtain s' where run: "returns (timer_wakeup E s) () s'" and w: "woken E (ticks s) s s'"
    using kernel_env.timer_wakeup_runs [OF assms] by blast
  have eq: "s' = s\<lparr>lists := lists s', cpu := cpu s', threads := (\<lambda>t.
      if t \<in> list_entry ` set (filter (due s (ticks s)) (elems E s Sleep_list)) then readied s t else threads s t)\<rparr>"
    using w by (simp add: woken_def)
  have "threads s' t = (if sleep_elem_of t \<in> set (elems E s Sleep_list) \<and> wakeup_tick (threads s t) \<le> ticks s
      then readied s t else threads s t)" for t
  proof -
    have "threads s' = (\<lambda>t. if t \<in> list_entry ` set (filter (due s (ticks s)) (elems E s Sleep_list))
        then readied s t else threads s t)" by (subst eq) simp
    then show ?thesis by (simp only: due_sleepers [OF assms(4)])
  qed
  moreover have "running s' = running s" "ticks s' = ticks s" by (subst eq, simp)+
  ultimately show ?thesis using run w by (intro exI [of _ s']) (simp add: woken_def due_def not_le)
qed

section \<open>Going to sleep\<close>

lemma wakeup_less_upd_cpu: "wakeup_less (upd_thread t f (upd_cpu g s)) = wakeup_less (upd_thread t f s)"
  by (simp add: wakeup_less_def Let_def fun_eq_iff)

context kernel_env
begin

lemma sleepers_insert:
  assumes ok: "sleepers_ok E s" and free: "unlinked E (sleep_elem_of c) (lists s)"
    and s1: "s1 = upd_thread c (wakeup_tick_update (\<lambda>_. w)) s"
  shows "sorted_wrt (\<lambda>a b. \<not> wakeup_less s1 b a) (elems E s Sleep_list)"
    "sorted_wrt (\<lambda>a b. \<not> wakeup_less s1 b a) (ins_before (wakeup_less s1) (sleep_elem_of c) (elems E s Sleep_list))"
proof -
  have other: "list_entry e \<noteq> c" if "e \<in> set (elems E s Sleep_list)" for e
  proof
    assume "list_entry e = c"
    moreover have "member_of e = Sleep_elem" using ok that by (simp add: sleepers_ok_def)
    ultimately have "e = sleep_elem_of c" by (cases e) simp
    with free that show False by (auto simp: unlinked_def)
  qed
  then have eq: "wakeup_less s1 b a = wakeup_less s b a"
    if "a \<in> set (elems E s Sleep_list)" "b \<in> set (elems E s Sleep_list)" for a b
    using that by (simp add: wakeup_less_def s1 Let_def)
  show *: "sorted_wrt (\<lambda>a b. \<not> wakeup_less s1 b a) (elems E s Sleep_list)"
    using ok eq by (auto simp: sleepers_ok_def elim!: sorted_wrt_mono_rel [rotated])
  have key: "wakeup_less s1 = (\<lambda>a b. wakeup_tick (threads s1 (list_entry a)) < wakeup_tick (threads s1 (list_entry b)))"
    by (simp add: wakeup_less_def Let_def fun_eq_iff)
  show "sorted_wrt (\<lambda>a b. \<not> wakeup_less s1 b a) (ins_before (wakeup_less s1) (sleep_elem_of c) (elems E s Sleep_list))"
    using sorted_ins_before [of "\<lambda>e. wakeup_tick (threads s1 (list_entry e))"] * unfolding key not_less by blast
qed

lemma sleep_blocks:
  assumes cpu: "on_cpu s" and on: "level E s = INTR_ON" and nint: "\<not> intr_context E (cpu s)"
    and n: "0 < n" "is_i64 (ticks s + n)"
    and ok: "run_ok E s" and sl: "sleepers_ok E s" and free: "unlinked E (sleep_elem_of (running s)) (lists s)"
    and nxt: "run_next E s = Some u" and m: "magic (threads s u) = THREAD_MAGIC" and u: "u \<noteq> running s"
  shows "\<exists>s' r. switches (timer_sleep E n s) (running s) u s' r \<and>
    sleep_elem_of (running s) \<in> set (elems E s' Sleep_list) \<and>
    mset (elems E s' Sleep_list) = add_mset (sleep_elem_of (running s)) (mset (elems E s Sleep_list)) \<and> sleepers_ok E s' \<and>
    threads s' = (threads s)(running s := (threads s (running s))\<lparr>wakeup_tick := ticks s + n, status := THREAD_BLOCKED\<rparr>) \<and>
    run_order E s' = tl (run_order E s) \<and> run_ok E s' \<and>
    (\<forall>prev s2. running s2 = running s \<and> level E s2 = INTR_OFF \<and> prev \<noteq> running s \<longrightarrow>
      returns (r prev s2) () (upd_cpu (intr_set_level E INTR_ON) (switched_in E prev s2)))"
proof -
  let ?c = "running s"
  define g where "g = (\<lambda>i. snd (intr_disable E (intr_set_level E (level E s) (snd (intr_disable E i)))))"
  define s1 where "s1 = upd_thread ?c (wakeup_tick_update (\<lambda>_. ticks s + n)) s"
  define h1 where "h1 = list_insert_ordered E Sleep_list (sleep_elem_of ?c) (wakeup_less s1) (lists s)"
  define s2 where "s2 = upd_cpu g (s1\<lparr>lists := h1\<rparr>)"
  note sorted = sleepers_insert [OF sl free s1_def]
  note ins = elems_insert_ordered [OF free sorted(1), folded h1_def]
  have s1_ok: "run_ok E s1" by (subst run_ok_cong [of _ s]) (simp_all add: s1_def ok)
  have frame: "run_order E (s1\<lparr>lists := h1\<rparr>) = run_order E s" "run_ok E (s1\<lparr>lists := h1\<rparr>)"
    using run_queue_insert_other [OF _ s1_ok, of Sleep_list "sleep_elem_of ?c" "wakeup_less s1"] free sorted(1)
    by (simp_all add: s1_def h1_def)
  have s2: "on_cpu s2" "level E s2 = INTR_OFF" "\<not> intr_context E (cpu s2)" "run_ok E s2" "running s2 = ?c"
    "run_order E s2 = run_order E s" "threads s2 = threads s1" "idle_thread s2 = idle_thread s" "lists s2 = h1"
    using cpu nint frame by (simp_all add: s2_def s1_def g_def intr_laws on_cpu_def)
  have "run_next E s2 = Some u" using nxt s2 by (simp add: run_next_def split: list.splits)
  moreover have "magic (threads s2 u) = THREAD_MAGIC" using m u s2 by (simp add: s1_def)
  ultimately obtain h where h: "switches (thread_block E s2) ?c u
      ((upd_thread ?c (status_update (\<lambda>_. THREAD_BLOCKED)) s2)\<lparr>lists := h\<rparr>)
      (\<lambda>prev. katomic (thread_schedule_tail E (Some prev)))"
    "run_order E (s2\<lparr>lists := h\<rparr>) = tl (run_order E s)" "run_ok E (s2\<lparr>lists := h\<rparr>)" "run_frame E u h1 h"
    using block_switches [OF s2(1-4)] u s2 by auto
  let ?s' = "(upd_thread ?c (status_update (\<lambda>_. THREAD_BLOCKED)) s2)\<lparr>lists := h\<rparr>"
  let ?r = "\<lambda>prev s. kbind (katomic (thread_schedule_tail E (Some prev)) s) (\<lambda>_. kset_level E INTR_ON)"
  let ?S = "upd_cpu (\<lambda>i. snd (intr_disable E i)) (upd_cpu (\<lambda>i. intr_set_level E (level E s) (snd (intr_disable E i))) s)"
  have "upd_lists (list_insert_ordered E Sleep_list (sleep_elem_of ?c) (wakeup_less (upd_thread ?c (wakeup_tick_update (\<lambda>_. ticks s + n)) ?S)))
      (upd_thread ?c (wakeup_tick_update (\<lambda>_. ticks s + n)) ?S) = s2"
    by (simp add: s2_def h1_def s1_def g_def wakeup_less_upd_cpu) (simp add: upd_cpu_def upd_lists_def upd_thread_def)
  moreover have "thread_current ?S = Inr ?c" using cpu by (simp add: thread_current_eq_Inr on_cpu_def)
  moreover have "switches (kbind (thread_block E s2) (\<lambda>_. kset_level E INTR_ON)) ?c u ?s' ?r"
    by (rule switches_kbindI1 [OF h(1)])
  ultimately have run: "switches (timer_sleep E n s) ?c u ?s' ?r"
    using on n
    by (simp add: timer_sleep_def kticks_def timer_ticks_eq kdisable_def kset_level_def kernel_defs i64_id intr_laws)
  have sleepers: "elems E ?s' Sleep_list = ins_before (wakeup_less s1) (sleep_elem_of ?c) (elems E s Sleep_list)"
    using h(4) by (simp add: run_frame_def ins)
  moreover have "wakeup_less ?s' = wakeup_less s1"
    by (auto simp: wakeup_less_def Let_def s2 fun_eq_iff)
  ultimately have "sleepers_ok E ?s'" using sorted(2) sl by (simp add: sleepers_ok_def)
  moreover have "threads ?s' = (threads s)(?c := (threads s ?c)\<lparr>wakeup_tick := ticks s + n, status := THREAD_BLOCKED\<rparr>)"
    using s2 by (simp add: s1_def)
  moreover have "run_order E ?s' = tl (run_order E s)" "run_ok E ?s'"
    using h(2,3) by (simp_all add: upd_set_lists)
  moreover have "returns (?r prev s3) () (upd_cpu (intr_set_level E INTR_ON) (switched_in E prev s3))"
    if "running s3 = ?c \<and> level E s3 = INTR_OFF \<and> prev \<noteq> ?c" for prev s3
    using that thread_schedule_tail_switched [of E s3 prev] by (simp add: kset_level_def kernel_defs)
  ultimately show ?thesis using run sleepers by (intro exI [of _ ?s'] exI [of _ ?r] conjI) (simp_all del: fun_upd_apply)
qed

lemma sleep_returns:
  assumes "level E s = INTR_ON" and "n \<le> 0"
  shows "\<exists>g. returns (timer_sleep E n s) () (upd_cpu g s) \<and> intr_get_level E (g (cpu s)) = INTR_ON"
proof -
  let ?g = "\<lambda>i. intr_set_level E (level E s) (snd (intr_disable E i))"
  have "returns (timer_sleep E n s) () (upd_cpu ?g s)"
    using assms by (simp add: timer_sleep_def kticks_def timer_ticks_eq kernel_defs intr_laws)
  then show ?thesis using assms(1) by (intro exI [of _ ?g]) (simp add: intr_laws)
qed

lemma sleep_with_interrupts_off: "level E s \<noteq> INTR_ON \<Longrightarrow> panics (timer_sleep E n s) Assert_intr_on"
  by (simp add: timer_sleep_def kticks_def timer_ticks_eq kernel_defs intr_laws)

end

text \<open>C10. \<open>timer_sleep (n)\<close> called with interrupts on returns at once when \<open>n\<close> is not positive.  Otherwise the
  thread is put on the list of sleepers, which stays sorted by wake-up time, with the time
  \<open>ticks + n\<close>, and blocks; the front of the run queue runs.  The call returns, with interrupts on again, when the thread
  is next switched to.\<close>

theorem timer_sleep_correct:
  assumes "kernel_env E" and "on_cpu s" and "level E s = INTR_ON" and "\<not> intr_context E (cpu s)"
    and "is_i64 (ticks s + n)" and "run_ok E s" and "sleepers_ok E s"
    and "unlinked E (sleep_elem_of (running s)) (lists s)"
    and "run_next E s = Some u" and "magic (threads s u) = THREAD_MAGIC" and "u \<noteq> running s"
  shows "if n \<le> 0
    then \<exists>g. returns (timer_sleep E n s) () (upd_cpu g s) \<and> intr_get_level E (g (cpu s)) = INTR_ON
    else \<exists>s' r. switches (timer_sleep E n s) (running s) u s' r \<and>
      sleep_elem_of (running s) \<in> set (elems E s' Sleep_list) \<and>
      mset (elems E s' Sleep_list) = add_mset (sleep_elem_of (running s)) (mset (elems E s Sleep_list)) \<and> sleepers_ok E s' \<and>
      threads s' = (threads s)(running s := (threads s (running s))\<lparr>wakeup_tick := ticks s + n, status := THREAD_BLOCKED\<rparr>) \<and>
      run_order E s' = tl (run_order E s) \<and> run_ok E s' \<and>
      (\<forall>prev s2. running s2 = running s \<and> level E s2 = INTR_OFF \<and> prev \<noteq> running s \<longrightarrow>
        returns (r prev s2) () (upd_cpu (intr_set_level E INTR_ON) (switched_in E prev s2)))"
proof (cases "n \<le> 0")
  case True
  with kernel_env.sleep_returns [OF assms(1,3) True] show ?thesis by simp
next
  case False
  then have "0 < n" by simp
  from False kernel_env.sleep_blocks [OF assms(1-4) this assms(5-)] show ?thesis by (simp only: if_False)
qed

section \<open>The interrupt handler\<close>

text \<open>The tick is counted and charged to the running thread.\<close>

definition ticked :: "('l, 'i, 'p) externs \<Rightarrow> ('l, 'i, 'p) kstate \<Rightarrow> ('l, 'i, 'p) kstate" where
  "ticked E s = upd_cpu (\<lambda>i. if TIME_SLICE \<le> thread_ticks s + 1 then intr_yield_on_return E i else i)
    (charged 1 (s\<lparr>ticks := ticks s + 1\<rparr>))"

lemma ticked_simps [simp]:
  "lists (ticked E s) = lists s" "running (ticked E s) = running s" "idle_thread (ticked E s) = idle_thread s"
  "thread_mlfqs (ticked E s) = thread_mlfqs s" "thread_ticks (ticked E s) = thread_ticks s + 1"
  "ticks (ticked E s) = ticks s + 1"
  "status (threads (ticked E s) t) = status (threads s t)" "wakeup_tick (threads (ticked E s) t) = wakeup_tick (threads s t)"
  "priority (threads (ticked E s) t) = priority (threads s t)" "magic (threads (ticked E s) t) = magic (threads s t)"
  "nice (threads (ticked E s) t) = nice (threads s t)" "load_avg (ticked E s) = load_avg s"
  by (auto simp: ticked_def charged_def Let_def)

context kernel_env
begin

lemma ticked_cpu:
  "level E (ticked E s) = level E s" "intr_context E (cpu (ticked E s)) = intr_context E (cpu s)"
  "intr_yield_pending E (cpu (ticked E s)) \<longleftrightarrow> intr_yield_pending E (cpu s) \<or> TIME_SLICE \<le> thread_ticks s + 1"
  by (simp_all add: ticked_def charged_def Let_def intr_laws)

lemma thread_tick_ticked:
  assumes "on_cpu s" and "ticks_ok 1 s"
  shows "thread_tick E (s\<lparr>ticks := ticks s + 1\<rparr>) = Inr (ticked E s)"
proof -
  have "on_cpu (s\<lparr>ticks := ticks s + 1\<rparr>)" "ticks_ok (Suc 0) (s\<lparr>ticks := ticks s + 1\<rparr>)"
    using assms by (simp_all add: on_cpu_def ticks_ok_def)
  from thread_tick_charged [OF this, where g = id and E = E] show ?thesis
    by (simp add: charged_zero ticked_def) (simp add: upd_cpu_def)
qed

end

lemma threads_ticked: "t \<noteq> running s \<Longrightarrow> threads (ticked E s) t = threads s t"
  by (simp add: ticked_def charged_def Let_def)

lemma unblock_ok_ticked:
  assumes "on_cpu s" and "unblock_ok E t s"
  shows "unblock_ok E t (ticked E s)" "readied (ticked E s) t = readied s t"
proof -
  have "t \<noteq> running s" using assms by (auto simp: on_cpu_def unblock_ok_def wakeable_def)
  then show "unblock_ok E t (ticked E s)" "readied (ticked E s) t = readied s t"
    using assms(2) by (simp_all add: unblock_ok_def wakeable_def readied_def threads_ticked)
qed

context kernel_env
begin

lemma tick_wakes:
  assumes cpu: "on_cpu s" and tk: "ticks_ok 1 s" and i: "is_i64 (ticks s + 1)" and ctx: "intr_context E (cpu s)"
    and ok: "run_ok E s" and sl: "sleepers_ok E s"
    and u: "\<forall>e \<in> set (elems E s Sleep_list). due s (ticks s + 1) e \<longrightarrow> unblock_ok E (list_entry e) s"
  shows "\<exists>s'. returns (timer_wakeup E (ticked E s)) () s' \<and> woken E (ticks s + 1) (ticked E s) s' \<and>
    (\<forall>m s''. returns (m s') () s'' \<longrightarrow> returns (kthen (kmodify (\<lambda>s. s\<lparr>ticks := i64 (ticks s + 1)\<rparr>))
      (kthen (katomic (thread_tick E)) (kthen (timer_wakeup E) m)) s) () s'')"
proof -
  have "run_ok E (ticked E s)" by (subst run_ok_cong [of _ s]) (simp_all add: ok)
  moreover have "wakeup_less (ticked E s) = wakeup_less s" by (simp add: wakeup_less_def Let_def fun_eq_iff)
  then have "sleepers_ok E (ticked E s)" using sl by (simp add: sleepers_ok_def)
  moreover have "\<forall>e \<in> set (elems E (ticked E s) Sleep_list). due (ticked E s) (ticks (ticked E s)) e \<longrightarrow>
      unblock_ok E (list_entry e) (ticked E s)"
    using u unblock_ok_ticked(1) [OF cpu] by (simp add: due_def)
  ultimately obtain s' where s': "returns (timer_wakeup E (ticked E s)) () s'" "woken E (ticks s + 1) (ticked E s) s'"
    using timer_wakeup_runs [of "ticked E s"] ctx by (auto simp: ticked_cpu)
  have "returns (kthen (kmodify (\<lambda>s. s\<lparr>ticks := i64 (ticks s + 1)\<rparr>))
      (kthen (katomic (thread_tick E)) (kthen (timer_wakeup E) m)) s) () s''" if "returns (m s') () s''" for m s''
    using thread_tick_ticked [OF cpu tk] i returns_kbindI [OF s'(1), of "\<lambda>_. m"] that
    by (simp add: kernel_defs i64_id)
  with s' show ?thesis by blast
qed

lemma tick_result:
  assumes cpu: "on_cpu s" and u: "\<forall>e \<in> set (elems E s Sleep_list). due s (ticks s + 1) e \<longrightarrow> unblock_ok E (list_entry e) s"
    and sl: "sleepers_ok E s" and w: "woken E (ticks s + 1) (ticked E s) s'"
  shows "ticks s' = ticks s + 1" "thread_ticks s' = thread_ticks s + 1" "running s' = running s"
    "thread_mlfqs s' = thread_mlfqs s" "idle_thread s' = idle_thread s"
    "threads s' t = (if sleep_elem_of t \<in> set (elems E s Sleep_list) \<and> wakeup_tick (threads s t) \<le> ticks s + 1
      then readied s t else threads (ticked E s) t)"
    "load_avg s' = load_avg s"
proof -
  let ?D = "list_entry ` set (filter (due s (ticks s + 1)) (elems E s Sleep_list))"
  have due: "due (ticked E s) (ticks s + 1) = due s (ticks s + 1)" by (simp add: due_def fun_eq_iff)
  have eq: "s' = (ticked E s)\<lparr>lists := lists s', cpu := cpu s', threads := (\<lambda>t.
      if t \<in> ?D then readied (ticked E s) t else threads (ticked E s) t)\<rparr>"
    using w by (simp add: woken_def due)
  show "ticks s' = ticks s + 1" "thread_ticks s' = thread_ticks s + 1" "running s' = running s"
    "thread_mlfqs s' = thread_mlfqs s" "idle_thread s' = idle_thread s" "load_avg s' = load_avg s"
    by (subst eq, simp)+
  have "threads s' = (\<lambda>t. if t \<in> ?D then readied (ticked E s) t else threads (ticked E s) t)" by (subst eq) simp
  moreover have "t \<in> ?D \<longleftrightarrow> sleep_elem_of t \<in> set (elems E s Sleep_list) \<and> wakeup_tick (threads s t) \<le> ticks s + 1"
    by (rule due_sleepers [OF sl])
  moreover have "readied (ticked E s) t = readied s t" if "t \<in> ?D"
    using that u unblock_ok_ticked(2) [OF cpu, of E] by auto
  ultimately show "threads s' t = (if sleep_elem_of t \<in> set (elems E s Sleep_list) \<and> wakeup_tick (threads s t) \<le> ticks s + 1
      then readied s t else threads (ticked E s) t)"
    by simp
qed

lemma timer_interrupt_priority:
  assumes mode: "\<not> thread_mlfqs s" and cpu: "on_cpu s" and tk: "ticks_ok 1 s" and i: "is_i64 (ticks s + 1)"
    and ctx: "intr_context E (cpu s)" and ok: "run_ok E s" and sl: "sleepers_ok E s"
    and u: "\<forall>e \<in> set (elems E s Sleep_list). due s (ticks s + 1) e \<longrightarrow> unblock_ok E (list_entry e) s"
  shows "\<exists>s'. returns (timer_interrupt E s) () s' \<and> woken E (ticks s + 1) (ticked E s) s'"
proof -
  obtain s' where s': "woken E (ticks s + 1) (ticked E s) s'"
    "\<forall>m s''. returns (m s') () s'' \<longrightarrow> returns (kthen (kmodify (\<lambda>s. s\<lparr>ticks := i64 (ticks s + 1)\<rparr>))
      (kthen (katomic (thread_tick E)) (kthen (timer_wakeup E) m)) s) () s''"
    using tick_wakes [OF cpu tk i ctx ok sl u] by blast
  have "\<not> thread_mlfqs s'" using tick_result(4) [OF cpu u sl s'(1)] mode by simp
  then have "returns (kif thread_mlfqs m kskip s') () s'" for m by (simp add: kernel_defs)
  then have "returns (timer_interrupt E s) () s'" using s'(2) unfolding timer_interrupt_def kseq.simps by blast
  with s'(1) show ?thesis by blast
qed

end

text \<open>C9. A timer interrupt under the priority scheduler: the tick is counted and charged to the running thread, every
  sleeping thread whose time has come is made ready and every other one sleeps on, and the run queue stays sorted.
  The running thread is asked to give way at the end of the handler exactly when it was before or its time slice is used
  up, whatever the priorities of the threads that woke up.\<close>

theorem timer_interrupt_correct:
  assumes E: "kernel_env E" and "\<not> thread_mlfqs s" and cpu: "on_cpu s" and "ticks_ok 1 s" and "is_i64 (ticks s + 1)"
    and "intr_context E (cpu s)" and "run_ok E s" and sl: "sleepers_ok E s"
    and u: "\<forall>e \<in> set (elems E s Sleep_list). due s (ticks s + 1) e \<longrightarrow> unblock_ok E (list_entry e) s"
  shows "\<exists>s'. returns (timer_interrupt E s) () s' \<and> ticks s' = ticks s + 1 \<and> thread_ticks s' = thread_ticks s + 1 \<and>
    elems E s' Sleep_list = filter (\<lambda>e. ticks s + 1 < wakeup_tick (threads s (list_entry e))) (elems E s Sleep_list) \<and>
    (\<forall>t. threads s' t = (if sleep_elem_of t \<in> set (elems E s Sleep_list) \<and> wakeup_tick (threads s t) \<le> ticks s + 1
      then (threads s t)\<lparr>status := THREAD_READY\<rparr> else threads s t)) \<and>
    mset (run_order E s') =
      mset (run_order E s) + mset (map list_entry (filter (due s (ticks s + 1)) (elems E s Sleep_list))) \<and> run_ok E s' \<and>
    level E s' = level E s \<and>
    (intr_yield_pending E (cpu s') \<longleftrightarrow> intr_yield_pending E (cpu s) \<or> TIME_SLICE \<le> thread_ticks s + 1)"
proof -
  obtain s' where run: "returns (timer_interrupt E s) () s'" and w: "woken E (ticks s + 1) (ticked E s) s'"
    using kernel_env.timer_interrupt_priority [OF assms] by blast
  note res = kernel_env.tick_result [OF E cpu u sl w]
  have same: "threads (ticked E s) t = threads s t" for t using assms(2) by (simp add: ticked_def charged_def Let_def)
  have ready: "readied s t = (threads s t)\<lparr>status := THREAD_READY\<rparr>" for t using assms(2) by (simp add: readied_def)
  have due: "due (ticked E s) (ticks s + 1) = due s (ticks s + 1)" by (simp add: due_def fun_eq_iff)
  have order: "run_order E (ticked E s) = run_order E s" by (rule run_order_cong) simp_all
  have "elems E s' Sleep_list = filter (\<lambda>e. ticks s + 1 < wakeup_tick (threads s (list_entry e))) (elems E s Sleep_list)"
    using w by (simp add: woken_def due_def not_le)
  moreover have "\<forall>t. threads s' t = (if sleep_elem_of t \<in> set (elems E s Sleep_list) \<and> wakeup_tick (threads s t) \<le> ticks s + 1
      then (threads s t)\<lparr>status := THREAD_READY\<rparr> else threads s t)"
    by (simp add: res(6) same ready)
  ultimately show ?thesis using run w res(1,2) order kernel_env.ticked_cpu [OF E, of s]
    by (intro exI [of _ s']) (simp add: woken_def due)
qed

section \<open>Calibration\<close>

lemma busy_wait_no_panic: "\<not> may_panic (busy_wait n s) e"
proof -
  have "\<not> may_panic (busy_wait_turns k s) e" for k by (induction k arbitrary: s) (simp_all add: kernel_defs)
  then show ?thesis by (simp add: busy_wait_def)
qed

lemma wait_no_panic: "\<not> may_panic (kwhile c kskip s) e"
proof
  assume "may_panic (kwhile c kskip s) e"
  from may_panic_kwhile_from [OF this [unfolded kwhile_def]] show False by (simp add: kernel_defs)
qed

lemma too_many_loops_no_panic: "\<not> may_panic (too_many_loops n s) e"
  by (auto simp: too_many_loops_def kthen_def kget_def wait_no_panic busy_wait_no_panic dest!: may_panic_kbind)

lemma calibrate_bits_no_panic:
  fixes s :: "('l, 'i, 'p) kstate"
  assumes "k < n" and "drop_bit k t = stop"
  shows "\<not> may_panic (calibrate_bits n t stop s) e"
  using assms
proof (induction n arbitrary: k t s)
  case (Suc n)
  show ?case
  proof (cases "t = stop")
    case False
    with Suc.prems obtain k' where k: "k = Suc k'" by (cases k) simp_all
    then have d: "drop_bit k' (drop_bit 1 t) = stop" using Suc.prems(2) by (simp add: drop_bit_drop_bit)
    have "k' < n" using Suc.prems(1) k by simp
    from Suc.IH [OF this d] have "\<not> may_panic (calibrate_bits n (drop_bit 1 t) stop s) e" for s :: "('l, 'i, 'p) kstate" .
    then show ?thesis using False too_many_loops_no_panic
      by (auto simp: kernel_defs klet_def dest!: may_panic_kbind split: if_splits)
  qed (simp add: kernel_defs)
qed simp

text \<open>C32. However interrupts and other threads interfere, the calibration stops the kernel only when it is called with
  interrupts off or when doubling \<open>loops_per_tick\<close> has lost its last bit; the loop over the lower bits
  always reaches its bound.\<close>

theorem timer_calibrate_safe:
  assumes "may_panic (timer_calibrate E s) e"
  shows "e = Assert_loops_nonzero \<or> (e = Assert_intr_on \<and> level E s = INTR_OFF)"
proof -
  let ?step = "klet (kget loops_per_tick (\<lambda>l. too_many_loops (push_bit 1 l))) (\<lambda>many.
      if many then Done False
      else kthen (kmodify (\<lambda>s. s\<lparr>loops_per_tick := push_bit 1 (loops_per_tick s)\<rparr>))
        (kthen (kassert (\<lambda>s. loops_per_tick s \<noteq> 0) Assert_loops_nonzero) (Done True)))"
  have bits: "\<not> may_panic (calibrate_bits 33 (drop_bit 1 h) (drop_bit 10 h) s) e" for h and s :: "('a, 'b, 'c) kstate" and e
    by (rule calibrate_bits_no_panic [of 9]) simp_all
  have step: "may_panic (?step s) e \<Longrightarrow> e = Assert_loops_nonzero" for s :: "('a, 'b, 'c) kstate" and e
    using too_many_loops_no_panic by (auto simp: klet_def kernel_defs dest!: may_panic_kbind split: if_splits)
  have "may_panic (kloop ?step s) e \<Longrightarrow> e = Assert_loops_nonzero" for s :: "('a, 'b, 'c) kstate" and e
    using step by (auto simp: kloop_def dest!: may_panic_kloop_from)
  with assms bits show ?thesis
    by (cases "level E s") (auto simp: timer_calibrate_def kthen_def kassert_def kmodify_def kget_def dest!: may_panic_kbind)
qed

section \<open>Examples\<close>

text \<open>Thread 4 of \<^const>\<open>sched_example\<close> sleeps until tick 7, thread 5 until tick 9; it is tick 8.\<close>

definition sleep_example :: ref_kstate where
  "sleep_example = (sched_example INTR_OFF 31)\<lparr>ticks := 8,
    cpu := \<lparr>flag_level = INTR_OFF, flag_context = True, flag_pending = False\<rparr>,
    threads := (threads (sched_example INTR_OFF 31))(4 := (ref_thread THREAD_BLOCKED 40)\<lparr>wakeup_tick := 7\<rparr>,
      5 := (ref_thread THREAD_BLOCKED 40)\<lparr>wakeup_tick := 9\<rparr>),
    lists := (lists (sched_example INTR_OFF 31))(Sleep_list := [sleep_elem_of 4, sleep_elem_of 5])\<rparr>"

lemma sleep_example_simps [simp]:
  "threads sleep_example 4 = (ref_thread THREAD_BLOCKED 40)\<lparr>wakeup_tick := 7\<rparr>"
  "threads sleep_example 5 = (ref_thread THREAD_BLOCKED 40)\<lparr>wakeup_tick := 9\<rparr>"
  "ticks sleep_example = 8" "thread_mlfqs sleep_example = False"
  "cpu sleep_example = \<lparr>flag_level = INTR_OFF, flag_context = True, flag_pending = False\<rparr>"
  "lists sleep_example k = (if k = Sleep_list then [sleep_elem_of 4, sleep_elem_of 5]
    else if k = Ready_list then [elem_of 2, elem_of 3]
    else if k = All_list then [allelem_of 1, allelem_of 2, allelem_of 3, allelem_of 4] else [])"
  by (auto simp: sleep_example_def sched_example_def)

lemma sleep_example_ok: "run_ok ref_externs sleep_example" "sleepers_ok ref_externs sleep_example"
  "unlinked ref_externs (elem_of 4) (lists sleep_example)"
proof -
  have "priority (threads sleep_example 2) = 31" "priority (threads sleep_example 3) = 20"
    by (simp_all add: sleep_example_def sched_example_facts)
  then show "run_ok ref_externs sleep_example"
    by (auto simp: run_ok_def ready_ok_def linked_once_def less_priority_def)
  show "sleepers_ok ref_externs sleep_example" by (simp add: sleepers_ok_def wakeup_less_def)
  show "unlinked ref_externs (elem_of 4) (lists sleep_example)" by (simp add: unlinked_def)
qed

theorem timer_wakeup_correct_witness:
  "\<exists>s'. returns (timer_wakeup ref_externs sleep_example) () s' \<and> lists s' Sleep_list = [sleep_elem_of 5] \<and>
    status (threads s' 4) = THREAD_READY"
proof -
  have h: "intr_context ref_externs (cpu sleep_example)"
    "\<forall>e \<in> set (elems ref_externs sleep_example Sleep_list). due sleep_example (ticks sleep_example) e \<longrightarrow>
      unblock_ok ref_externs (list_entry e) sleep_example"
    using sleep_example_ok(3) by (simp_all add: due_def unblock_ok_def wakeable_def)
  obtain s' where s': "returns (timer_wakeup ref_externs sleep_example) () s'"
    "elems ref_externs s' Sleep_list = filter (\<lambda>e. ticks sleep_example < wakeup_tick (threads sleep_example (list_entry e)))
      (elems ref_externs sleep_example Sleep_list)"
    "\<forall>t. threads s' t = (if sleep_elem_of t \<in> set (elems ref_externs sleep_example Sleep_list) \<and>
        wakeup_tick (threads sleep_example t) \<le> ticks sleep_example
      then readied sleep_example t else threads sleep_example t)"
    using timer_wakeup_correct [OF ref.kernel_env_axioms sleep_example_ok(1) h(1) sleep_example_ok(2) h(2)] by blast
  have "status (threads s' 4) = THREAD_READY" using spec [OF s'(3), of 4] by (simp add: readied_def)
  with s'(1,2) show ?thesis by auto
qed

theorem timer_sleep_correct_witness:
  "\<exists>s' r. switches (timer_sleep ref_externs 5 (sched_example INTR_ON 31)) 1 2 s' r \<and>
    sleep_elem_of 1 \<in> set (elems ref_externs s' Sleep_list) \<and> wakeup_tick (threads s' 1) = 5"
proof -
  let ?s = "sched_example INTR_ON 31"
  have z: "ticks ?s = 0" "elems ref_externs ?s Sleep_list = []" by (simp_all add: sched_example_def)
  have h: "on_cpu ?s" "level ref_externs ?s = INTR_ON" "\<not> intr_context ref_externs (cpu ?s)"
    "is_i64 (ticks ?s + 5)" "run_ok ref_externs ?s" "sleepers_ok ref_externs ?s"
    "unlinked ref_externs (sleep_elem_of (running ?s)) (lists ?s)"
    "run_next ref_externs ?s = Some 2" "magic (threads ?s 2) = THREAD_MAGIC" "2 \<noteq> running ?s"
    using z by (simp_all add: sched_example_facts is_i64_def sleepers_ok_def run_next_def)
      (simp add: sched_example_def unlinked_def)
  obtain s' r where s': "switches (timer_sleep ref_externs 5 ?s) (running ?s) 2 s' r"
    "sleep_elem_of (running ?s) \<in> set (elems ref_externs s' Sleep_list)"
    "threads s' = (threads ?s)(running ?s := (threads ?s (running ?s))\<lparr>wakeup_tick := ticks ?s + 5, status := THREAD_BLOCKED\<rparr>)"
    using timer_sleep_correct [OF ref.kernel_env_axioms h] by auto
  have "wakeup_tick (threads s' 1) = 5" using z(1) by (simp add: s'(3) sched_example_facts)
  with s'(1,2) show ?thesis by (auto simp: sched_example_facts(4))
qed

theorem timer_interrupt_correct_witness:
  "\<exists>s'. returns (timer_interrupt ref_externs sleep_example) () s' \<and> ticks s' = 9 \<and> lists s' Sleep_list = [] \<and>
    status (threads s' 5) = THREAD_READY \<and> \<not> flag_pending (cpu s')"
proof -
  let ?s = sleep_example
  have z: "running ?s = 1" "thread_ticks ?s = 0" "threads ?s 1 = ref_thread THREAD_RUNNING 31" "idle_ticks ?s = 0" "kernel_ticks ?s = 0"
    by (simp_all add: sleep_example_def sched_example_def ref_state_def ref_threads_def)
  have h: "\<not> thread_mlfqs ?s" "on_cpu ?s" "ticks_ok 1 ?s" "is_i64 (ticks ?s + 1)"
    "intr_context ref_externs (cpu ?s)" "run_ok ref_externs ?s" "sleepers_ok ref_externs ?s"
    "\<forall>e \<in> set (elems ref_externs ?s Sleep_list). due ?s (ticks ?s + 1) e \<longrightarrow> unblock_ok ref_externs (list_entry e) ?s"
    using sleep_example_ok z
    by (simp_all add: on_cpu_def ticks_ok_def is_i64_def is_i32_def unblock_ok_def wakeable_def unlinked_def F_def)
  obtain s' where s': "returns (timer_interrupt ref_externs ?s) () s'" "ticks s' = ticks ?s + 1"
    "elems ref_externs s' Sleep_list = filter (\<lambda>e. ticks ?s + 1 < wakeup_tick (threads ?s (list_entry e)))
      (elems ref_externs ?s Sleep_list)"
    "\<forall>t. threads s' t = (if sleep_elem_of t \<in> set (elems ref_externs ?s Sleep_list) \<and>
        wakeup_tick (threads ?s t) \<le> ticks ?s + 1
      then (threads ?s t)\<lparr>status := THREAD_READY\<rparr> else threads ?s t)"
    "intr_yield_pending ref_externs (cpu s') \<longleftrightarrow>
      intr_yield_pending ref_externs (cpu ?s) \<or> TIME_SLICE \<le> thread_ticks ?s + 1"
    using timer_interrupt_correct [OF ref.kernel_env_axioms h] by blast
  have "status (threads s' 5) = THREAD_READY" using spec [OF s'(4), of 5] by simp
  moreover have "\<not> flag_pending (cpu s')" using s'(5) z(2) by (simp add: TIME_SLICE_def word_le_nat_alt)
  ultimately show ?thesis using s'(1,2,3) by auto
qed

text \<open>With interrupts off the calibration does stop, and for the reason the theorem leaves.\<close>

theorem timer_calibrate_safe_witness:
  "may_panic (timer_calibrate ref_externs (sched_example INTR_OFF 31)) Assert_intr_on \<and>
    level ref_externs (sched_example INTR_OFF 31) = INTR_OFF"
proof -
  have "may_panic (timer_calibrate ref_externs (sched_example INTR_OFF 31)) Assert_intr_on"
    by (simp add: timer_calibrate_def kthen_def kassert_def sched_example_def)
  moreover from timer_calibrate_safe [OF this] have "level ref_externs (sched_example INTR_OFF 31) = INTR_OFF" by simp
  ultimately show ?thesis by blast
qed

end
