(* ===== verification/Command_Line.thy ===== *)
theory Command_Line
  imports Kernel_State
begin

text \<open>
  The kernel command line in \<^verbatim>\<open>threads/init.c\<close>: breaking the text the loader leaves in memory into
  words, and parsing the options in front of the actions.  A pointer into the text is a position in it; a
  position from which no string can be read within the known memory is out of bounds.  The state that the options
  change in other parts of the kernel is the record \<open>boot\<close>; \<open>shutdown_power_off\<close>, which \<open>usage\<close> ends with,
  does not return.
\<close>

section \<open>Strings in memory\<close>

definition NUL :: char where
  "NUL = CHR 0x00"

definition strnlen :: "char list \<Rightarrow> nat \<Rightarrow> nat \<Rightarrow> nat" where
  "strnlen m p n = length (takeWhile (\<lambda>c. c \<noteq> NUL) (take n (drop p m)))"

definition c_str :: "char list \<Rightarrow> nat \<Rightarrow> string res" where
  "c_str m p =
    (let s = takeWhile (\<lambda>c. c \<noteq> NUL) (drop p m)
     in ensure (p + length s < length m) Out_of_bounds (Inr s))"

fun c_strs :: "char list \<Rightarrow> nat list \<Rightarrow> string list res" where
  "c_strs m [] = Inr []"
| "c_strs m (p # ps) = res_bind (c_str m p) (\<lambda>a. res_bind (c_strs m ps) (\<lambda>as. Inr (a # as)))"

section \<open>Reading the command line\<close>

text \<open>The loop of \<open>read_command_line\<close>; \<open>argv\<close> has room for \<open>LOADER_ARGS_LEN / 2 + 1\<close> pointers.\<close>

fun split_args :: "nat \<Rightarrow> char list \<Rightarrow> nat \<Rightarrow> nat \<Rightarrow> nat list \<Rightarrow> nat list res" where
  "split_args len m 0 p argv = Inr argv"
| "split_args len m (Suc k) p argv =
    (if p \<ge> len then Inl Args_overflow
     else ensure (length argv < len div 2 + 1) Out_of_bounds
       (split_args len m k (p + (strnlen m p (len - p) + 1)) (argv @ [p])))"

definition echo_args :: "string list \<Rightarrow> string" where
  "echo_args args =
    ''Kernel command line:'' @
    concat (map (\<lambda>a. if CHR '' '' \<notin> set a then '' '' @ a else '' '' @ [CHR 0x27] @ a @ [CHR 0x27]) args) @ [CHR 0x0A]"

text \<open>The result is \<open>argv\<close>, without the null pointer at its end, and what is printed.\<close>

definition read_command_line :: "nat \<Rightarrow> int \<Rightarrow> char list \<Rightarrow> (nat list \<times> string) res" where
  "read_command_line len argc m =
    res_bind (split_args len m (nat argc) 0 []) (\<lambda>argv.
      ensure (0 \<le> argc \<and> argc < int (len div 2 + 1)) Out_of_bounds
        (res_bind (c_strs m argv) (\<lambda>args. Inr (argv, echo_args args))))"

section \<open>Parsing options\<close>

datatype shutdown_type = SHUTDOWN_POWER_OFF | SHUTDOWN_REBOOT

record boot =
  opt_mlfqs :: bool
  shutdown_how :: "shutdown_type option"
  random_seeds :: "32 word list"

definition is_digit_char :: "char \<Rightarrow> bool" where
  "is_digit_char c \<longleftrightarrow> 48 \<le> (of_char c :: int) \<and> (of_char c :: int) \<le> 57"

definition digits_value :: "string \<Rightarrow> int" where
  "digits_value ds = foldl (\<lambda>n c. n * 10 + (of_char c - 48)) 0 ds"

definition atoi :: "string \<Rightarrow> int" where
  "atoi s =
    (let t = dropWhile (\<lambda>c. c \<in> {CHR '' '', CHR 0x09, CHR 0x0A, CHR 0x0B, CHR 0x0C, CHR 0x0D}) s;
         (neg, u) = (case t of [] \<Rightarrow> (False, [])
           | c # r \<Rightarrow> if c = CHR ''-'' then (True, r) else if c = CHR ''+'' then (False, r) else (False, t));
         v = digits_value (takeWhile is_digit_char u)
     in i32 (if neg then - v else v))"

text \<open>What the two calls of \<open>strtok_r\<close> make of an argument that starts with a dash.\<close>

definition option_name :: "string \<Rightarrow> string" where
  "option_name a = takeWhile (\<lambda>c. c \<noteq> CHR ''='') a"

definition option_value :: "string \<Rightarrow> string option" where
  "option_value a = (case drop (Suc (length (option_name a))) a of [] \<Rightarrow> None | v # vs \<Rightarrow> Some (v # vs))"

definition parse_option :: "string \<Rightarrow> boot \<Rightarrow> boot res" where
  "parse_option a b =
    (let name = option_name a; value = option_value a
     in if name = ''-h'' then Inl Power_off
        else if name = ''-q'' then Inr (b\<lparr>shutdown_how := Some SHUTDOWN_POWER_OFF\<rparr>)
        else if name = ''-r'' then Inr (b\<lparr>shutdown_how := Some SHUTDOWN_REBOOT\<rparr>)
        else if name = ''-rs'' then
          (case value of None \<Rightarrow> Inl Null_pointer
           | Some v \<Rightarrow> Inr (b\<lparr>random_seeds := random_seeds b @ [word_of_int (atoi v)]\<rparr>))
        else if name = ''-mlfqs'' then Inr (b\<lparr>opt_mlfqs := True\<rparr>)
        else Inl (Unknown_option name))"

fun parse_loop :: "string list \<Rightarrow> boot \<Rightarrow> (string list \<times> boot) res" where
  "parse_loop [] b = Inr ([], b)"
| "parse_loop (a # argv) b =
    (if a \<noteq> [] \<and> hd a = CHR ''-'' then res_bind (parse_option a b) (parse_loop argv)
     else Inr (a # argv, b))"

text \<open>\<open>now\<close> is the time the real-time clock returns.\<close>

definition parse_options :: "32 word \<Rightarrow> string list \<Rightarrow> boot \<Rightarrow> (string list \<times> boot) res" where
  "parse_options now argv b =
    res_bind (parse_loop argv b) (\<lambda>(rest, b1). Inr (rest, b1\<lparr>random_seeds := random_seeds b1 @ [now]\<rparr>))"

section \<open>The words of the command line\<close>

text \<open>What the loader leaves: the arguments, each with a null character at its end.\<close>

definition encode_args :: "string list \<Rightarrow> char list" where
  "encode_args args = concat (map (\<lambda>a. a @ [NUL]) args)"

lemma encode_args_simps [simp]:
  "encode_args [] = []" "encode_args (a # args) = a @ NUL # encode_args args"
  by (simp_all add: encode_args_def)

lemma takeWhile_NUL: "NUL \<notin> set a \<Longrightarrow> takeWhile (\<lambda>c. c \<noteq> NUL) (a @ NUL # xs) = a"
  by (induction a) auto

lemma c_str_at: "NUL \<notin> set a \<Longrightarrow> c_str (xs @ a @ NUL # ys) (length xs) = Inr a"
  by (simp add: c_str_def takeWhile_NUL)

lemma strnlen_at:
  assumes "NUL \<notin> set a" and "length a < n"
  shows "strnlen (xs @ a @ NUL # ys) (length xs) n = length a"
proof -
  have "take n (a @ NUL # ys) = a @ NUL # take (n - Suc (length a)) ys"
    using assms(2) by (simp add: take_Cons')
  with assms(1) show ?thesis by (simp add: strnlen_def takeWhile_NUL)
qed

text \<open>The positions at which the arguments start.\<close>

fun arg_starts :: "nat \<Rightarrow> string list \<Rightarrow> nat list" where
  "arg_starts p [] = []"
| "arg_starts p (a # args) = p # arg_starts (p + (length a + 1)) args"

lemma split_args_encoded:
  assumes "m = xs @ encode_args args @ ys" and "\<forall>a \<in> set args. NUL \<notin> set a"
    and "length xs + length (encode_args args) \<le> len" and "length argv + length args \<le> len div 2 + 1"
  shows "split_args len m (length args) (length xs) argv = Inr (argv @ arg_starts (length xs) args)"
  using assms
proof (induction args arbitrary: xs argv)
  case (Cons a args)
  have "strnlen m (length xs) (len - length xs) = length a"
    using Cons.prems strnlen_at [of a "len - length xs" xs "encode_args args @ ys"] by simp
  moreover have "split_args len m (length args) (length (xs @ a @ [NUL])) (argv @ [length xs]) =
      Inr ((argv @ [length xs]) @ arg_starts (length (xs @ a @ [NUL])) args)"
    using Cons.prems by (intro Cons.IH) simp_all
  ultimately show ?case using Cons.prems by simp
qed simp

lemma c_strs_encoded:
  assumes "m = xs @ encode_args args @ ys" and "\<forall>a \<in> set args. NUL \<notin> set a"
  shows "c_strs m (arg_starts (length xs) args) = Inr args"
  using assms
proof (induction args arbitrary: xs)
  case (Cons a args)
  have "c_str m (length xs) = Inr a" using Cons.prems c_str_at [of a xs "encode_args args @ ys"] by simp
  moreover have "c_strs m (arg_starts (length (xs @ a @ [NUL])) args) = Inr args"
    using Cons.prems by (intro Cons.IH) simp_all
  ultimately show ?case by simp
qed simp

text \<open>C30. The command line that the loader has stored is read back: from arguments that fit into its area, each ended by a null
  character, \<open>read_command_line\<close> returns pointers to exactly these arguments and prints them.  The array of pointers
  must have room for all of them, which short arguments do not guarantee.\<close>

theorem read_command_line_roundtrip:
  assumes "m = encode_args args @ rest" and "\<forall>a \<in> set args. NUL \<notin> set a"
    and "length (encode_args args) \<le> len" and "length args \<le> len div 2"
  shows "\<exists>argv. read_command_line len (int (length args)) m = Inr (argv, echo_args args) \<and> c_strs m argv = Inr args"
proof -
  have "split_args len m (length args) 0 [] = Inr (arg_starts 0 args)"
    using split_args_encoded [of m "[]" args rest len "[]"] assms by simp
  moreover have "c_strs m (arg_starts 0 args) = Inr args" using c_strs_encoded [of m "[]" args rest] assms by simp
  ultimately show ?thesis using assms(4) by (simp add: read_command_line_def)
qed

lemma split_args_blank:
  assumes "m = replicate len NUL" and "length argv = p" and "p \<le> len div 2 + 1"
    and "len div 2 + 1 < p + k" and "p + k \<le> len"
  shows "split_args len m k p argv = Inl Out_of_bounds"
  using assms
proof (induction k arbitrary: p argv)
  case (Suc k)
  have "strnlen m p (len - p) = 0" using Suc.prems(1,5) by (cases "len - p") (simp_all add: strnlen_def)
  then show ?case
    using Suc.prems Suc.IH [of "argv @ [p]" "p + 1"] by (cases "p < len div 2 + 1") (simp_all add: ensure_def)
qed simp

lemma split_args_fit:
  assumes "m = replicate len NUL" and "length argv = p" and "p + k \<le> len div 2 + 1" and "p + k \<le> len"
  shows "\<exists>ps. split_args len m k p argv = Inr ps"
  using assms
proof (induction k arbitrary: p argv)
  case (Suc k)
  have "strnlen m p (len - p) = 0" using Suc.prems(1,4) by (cases "len - p") (simp_all add: strnlen_def)
  then show ?case using Suc.prems Suc.IH [of "argv @ [p]" "p + 1"] by simp
qed simp

text \<open>C33. The array of pointers is too small for arguments that are empty: when the loader reports more than \<open>LOADER_ARGS_LEN / 2\<close> of
  them, \<open>read_command_line\<close> writes behind the end of \<open>argv\<close> before its overflow check can fire.\<close>

theorem read_command_line_overflow:
  assumes "m = replicate len NUL" and "len div 2 < argc" and "argc \<le> len"
  shows "read_command_line len (int argc) m = Inl Out_of_bounds"
proof (cases "argc = len div 2 + 1")
  case True
  with assms obtain ps where "split_args len m argc 0 [] = Inr ps"
    using split_args_fit [of m len "[]" 0 argc] by auto
  moreover have "\<not> int argc < int (len div 2 + 1)" using True by simp
  ultimately show ?thesis by (simp add: read_command_line_def del: split_args.simps)
next
  case False
  with assms have "split_args len m argc 0 [] = Inl Out_of_bounds" by (intro split_args_blank) simp_all
  then show ?thesis by (simp add: read_command_line_def)
qed

section \<open>Options\<close>

text \<open>The options as they are written on a command line, and what each of them does.\<close>

datatype kernel_option = Opt_quit | Opt_reboot | Opt_seed nat | Opt_mlfqs

fun show_nat :: "nat \<Rightarrow> string" where
  "show_nat n = (if n < 10 then [char_of (48 + n)] else show_nat (n div 10) @ [char_of (48 + n mod 10)])"

declare show_nat.simps [simp del]

fun show_option :: "kernel_option \<Rightarrow> string" where
  "show_option Opt_quit = ''-q''"
| "show_option Opt_reboot = ''-r''"
| "show_option (Opt_seed n) = ''-rs='' @ show_nat n"
| "show_option Opt_mlfqs = ''-mlfqs''"

fun apply_option :: "kernel_option \<Rightarrow> boot \<Rightarrow> boot" where
  "apply_option Opt_quit b = b\<lparr>shutdown_how := Some SHUTDOWN_POWER_OFF\<rparr>"
| "apply_option Opt_reboot b = b\<lparr>shutdown_how := Some SHUTDOWN_REBOOT\<rparr>"
| "apply_option (Opt_seed n) b = b\<lparr>random_seeds := random_seeds b @ [of_nat n]\<rparr>"
| "apply_option Opt_mlfqs b = b\<lparr>opt_mlfqs := True\<rparr>"

lemma digit_char: "d < 10 \<Longrightarrow> (of_char (char_of (48 + d :: nat)) :: int) = 48 + int d"
proof -
  assume "d < 10"
  then have "(of_char (char_of (48 + d :: nat)) :: nat) = 48 + d" by (simp add: of_char_of)
  then show ?thesis by (metis of_nat_of_char of_nat_add of_nat_numeral)
qed

lemma digits_value_snoc: "digits_value (ds @ [c]) = digits_value ds * 10 + (of_char c - 48)"
  by (simp add: digits_value_def)

lemma show_nat_digits: "(\<forall>c \<in> set (show_nat n). is_digit_char c) \<and> show_nat n \<noteq> [] \<and> digits_value (show_nat n) = int n"
proof (induction n rule: show_nat.induct)
  case (1 n)
  have d: "is_digit_char (char_of (48 + n mod 10))" "(of_char (char_of (48 + n mod 10 :: nat)) :: int) = 48 + int (n mod 10)"
    using digit_char [of "n mod 10"] by (simp_all add: is_digit_char_def)
  show ?case
  proof (cases "n < 10")
    case True
    then have "show_nat n = [char_of (48 + n)]" by (subst show_nat.simps) simp
    then show ?thesis using d True by (simp add: digits_value_def)
  next
    case False
    then have s: "show_nat n = show_nat (n div 10) @ [char_of (48 + n mod 10)]" by (subst show_nat.simps) simp
    have "int (n div 10) * 10 + int (n mod 10) = int n" by (metis div_mult_mod_eq of_nat_add of_nat_mult of_nat_numeral)
    with 1 False d show ?thesis unfolding s by (simp add: digits_value_snoc)
  qed
qed

lemma atoi_show_nat:
  assumes "n < 2147483648"
  shows "atoi (show_nat n) = int n"
proof -
  obtain c ds where s: "show_nat n = c # ds" using show_nat_digits [of n] by (cases "show_nat n") auto
  have c: "is_digit_char c" using show_nat_digits [of n] s by simp
  then have "c \<notin> {CHR '' '', CHR 0x09, CHR 0x0A, CHR 0x0B, CHR 0x0C, CHR 0x0D, CHR ''-'', CHR ''+''}"
    by (auto simp: is_digit_char_def)
  moreover have "takeWhile is_digit_char (show_nat n) = show_nat n" using show_nat_digits [of n] by simp
  ultimately have "atoi (show_nat n) = i32 (digits_value (show_nat n))" by (simp add: atoi_def s)
  also have "\<dots> = int n" using show_nat_digits [of n] assms by (simp add: i32_id is_i32_def)
  finally show ?thesis .
qed

lemma parse_show_option:
  assumes "\<And>n. opt = Opt_seed n \<Longrightarrow> n < 2147483648"
  shows "parse_option (show_option opt) b = Inr (apply_option opt b)"
proof (cases opt)
  case (Opt_seed n)
  have "option_name (show_option opt) = ''-rs''" "option_value (show_option opt) = Some (show_nat n)"
    using show_nat_digits [of n] by (cases "show_nat n"; simp add: option_name_def option_value_def Opt_seed)+
  with assms [OF Opt_seed] show ?thesis by (simp add: parse_option_def Opt_seed atoi_show_nat)
qed (simp_all add: parse_option_def option_name_def option_value_def)

text \<open>C31. Options printed in their documented form are parsed back in order, up to the first argument that does not start with a
  dash, and that argument and the rest are left for the actions; the time of day is the last seed that is offered to the
  random number generator.\<close>

theorem parse_options_roundtrip:
  assumes "\<forall>n. Opt_seed n \<in> set opts \<longrightarrow> n < 2147483648" and "case acts of [] \<Rightarrow> True | a # as \<Rightarrow> a = [] \<or> hd a \<noteq> CHR ''-''"
  shows "parse_options now (map show_option opts @ acts) b =
    Inr (acts, (fold apply_option opts b)\<lparr>random_seeds := random_seeds (fold apply_option opts b) @ [now]\<rparr>)"
proof -
  have "parse_loop acts b = Inr (acts, b)" for b using assms(2) by (cases acts) auto
  moreover have "hd (show_option opt) = CHR ''-''" "show_option opt \<noteq> []" for opt by (cases opt; simp)+
  ultimately have "parse_loop (map show_option opts @ acts) b = Inr (acts, fold apply_option opts b)"
    using assms(1) by (induction opts arbitrary: b) (simp_all add: parse_show_option)
  then show ?thesis by (simp add: parse_options_def)
qed

text \<open>The ways an option stops the kernel: help powers the machine off, a seed without a value is a null pointer that
  \<open>atoi\<close> follows, and every name that is not in the list is reported.\<close>

theorem parse_option_fails:
  "parse_option a b = Inl e \<longleftrightarrow>
    (option_name a = ''-h'' \<and> e = Power_off) \<or>
    (option_name a = ''-rs'' \<and> option_value a = None \<and> e = Null_pointer) \<or>
    (option_name a \<notin> {''-h'', ''-q'', ''-r'', ''-rs'', ''-mlfqs''} \<and> e = Unknown_option (option_name a))"
  by (auto simp: parse_option_def Let_def split: option.split)

section \<open>Examples\<close>

theorem read_command_line_roundtrip_witness:
  "\<exists>argv. read_command_line 16 2 (''run'' @ [NUL] @ ''alarm one'' @ NUL # replicate 8 NUL) =
      Inr (argv, echo_args [''run'', ''alarm one'']) \<and>
    c_strs (''run'' @ [NUL] @ ''alarm one'' @ NUL # replicate 8 NUL) argv = Inr [''run'', ''alarm one'']"
  using read_command_line_roundtrip [of "''run'' @ [NUL] @ ''alarm one'' @ NUL # replicate 8 NUL" "[''run'', ''alarm one'']" "replicate 8 NUL" 16]
  by (simp add: NUL_def)

theorem read_command_line_overflow_witness: "read_command_line 4 3 (replicate 4 NUL) = Inl Out_of_bounds"
  using read_command_line_overflow [of "replicate 4 NUL" 4 3] by simp

theorem parse_options_roundtrip_witness:
  "parse_options 77 [''-mlfqs'', ''-rs=42'', ''run'', ''alarm''] \<lparr>opt_mlfqs = False, shutdown_how = None, random_seeds = []\<rparr> =
    Inr ([''run'', ''alarm''], \<lparr>opt_mlfqs = True, shutdown_how = None, random_seeds = [42, 77]\<rparr>)"
proof -
  have "char_of (52 :: nat) = CHR ''4''" "char_of (50 :: nat) = CHR ''2''" by code_simp+
  then have "show_nat 42 = ''42''" by (simp add: show_nat.simps)
  with parse_options_roundtrip [of "[Opt_mlfqs, Opt_seed 42]" "[''run'', ''alarm'']" 77 "\<lparr>opt_mlfqs = False, shutdown_how = None, random_seeds = []\<rparr>"]
  show ?thesis by simp
qed

end
