(* ===== verification/Paging.thy ===== *)
theory Paging
  imports Scheduling
begin

text \<open>
  The kernel page tables that \<^verbatim>\<open>threads/init.c\<close> sets up.  The address arithmetic and the formats of
  the entries (\<^verbatim>\<open>threads/vaddr.h\<close>, \<^verbatim>\<open>threads/pte.h\<close>), the amount of memory and the bounds of the kernel's
  code are not part of the repository; they are the record \<open>mmu\<close>.
\<close>

section \<open>The code\<close>

record mmu =
  ptov :: "nat \<Rightarrow> nat"
  vtop :: "nat \<Rightarrow> nat"
  pd_no :: "nat \<Rightarrow> nat"
  pt_no :: "nat \<Rightarrow> nat"
  pde_create :: "addr \<Rightarrow> 32 word"
  pte_create_kernel :: "nat \<Rightarrow> bool \<Rightarrow> 32 word"
  text_start :: nat
  text_end :: nat
  init_ram_pages :: nat

text \<open>\<open>palloc_get_page (PAL_ASSERT | PAL_ZERO)\<close>.\<close>

definition get_table_page ::
    "('l, 'i, 'p) externs \<Rightarrow> ('l, 'i, 'p) kstate \<Rightarrow> (addr \<times> ('l, 'i, 'p) kstate) res" where
  "get_table_page E s =
    (case palloc_get_page E (pages s) of
       (None, p) \<Rightarrow> Inl Out_of_pages
     | (Some a, p) \<Rightarrow> Inr (a, s\<lparr>pages := p, tables := (tables s)(a := (\<lambda>_. 0))\<rparr>))"

definition in_kernel_text :: "mmu \<Rightarrow> nat \<Rightarrow> bool" where
  "in_kernel_text M vaddr \<longleftrightarrow> text_start M \<le> vaddr \<and> vaddr < text_end M"

text \<open>One turn of the loop; \<open>pt\<close> is a local variable that survives from turn to turn.\<close>

definition map_page ::
    "('l, 'i, 'p) externs \<Rightarrow> mmu \<Rightarrow> addr \<Rightarrow> nat \<Rightarrow> addr option \<times> ('l, 'i, 'p) kstate \<Rightarrow>
      (addr option \<times> ('l, 'i, 'p) kstate) res" where
  "map_page E M pd page = (\<lambda>(pt, s).
    (let paddr = page * PGSIZE;
         vaddr = ptov M paddr;
         pde_idx = pd_no M vaddr;
         pte_idx = pt_no M vaddr
     in res_bind
          (if tables s pd pde_idx = 0
           then res_bind (get_table_page E s) (\<lambda>(a, s1).
             Inr (Some a, s1\<lparr>tables := (tables s1)(pd := (tables s1 pd)(pde_idx := pde_create M a))\<rparr>))
           else Inr (pt, s))
          (\<lambda>(pt1, s1). case pt1 of
             None \<Rightarrow> Inl Null_pointer
           | Some a \<Rightarrow> Inr (pt1, s1\<lparr>tables := (tables s1)(a := (tables s1 a)(pte_idx :=
               pte_create_kernel M vaddr (\<not> in_kernel_text M vaddr)))\<rparr>))))"

definition paging_init :: "('l, 'i, 'p) externs \<Rightarrow> mmu \<Rightarrow> ('l, 'i, 'p) kstate \<Rightarrow> ('l, 'i, 'p) kstate res" where
  "paging_init E M s =
    res_bind (get_table_page E s) (\<lambda>(pd, s1).
      res_bind (res_fold (map_page E M pd) [0..<init_ram_pages M] (None, s1\<lparr>init_page_dir := pd\<rparr>))
        (\<lambda>(pt, s2). Inr (s2\<lparr>cr3 := vtop M (init_page_dir s2)\<rparr>)))"

section \<open>Every page is mapped\<close>

text \<open>
  The address arithmetic of 4 kB pages and 1024 entries per table, and the valid bit of an entry of the page
  directory.
\<close>

definition mmu_ok :: "mmu \<Rightarrow> nat \<Rightarrow> bool" where
  "mmu_ok M base \<longleftrightarrow> (\<forall>page < init_ram_pages M. pd_no M (ptov M (page * PGSIZE)) = base + page div 1024 \<and>
      pt_no M (ptov M (page * PGSIZE)) = page mod 1024) \<and> (\<forall>a. pde_create M a \<noteq> 0)"

definition kernel_pte :: "mmu \<Rightarrow> nat \<Rightarrow> 32 word" where
  "kernel_pte M page = (let vaddr = ptov M (page * PGSIZE) in pte_create_kernel M vaddr (\<not> in_kernel_text M vaddr))"

text \<open>The page tables in use after \<open>k\<close> turns are \<open>ts\<close>, in the order of the page directory.\<close>

definition mapped ::
    "mmu \<Rightarrow> nat \<Rightarrow> ('p \<Rightarrow> addr set) \<Rightarrow> addr \<Rightarrow> addr set \<Rightarrow> nat \<Rightarrow> addr list \<Rightarrow> addr option \<Rightarrow> ('l, 'i, 'p) kstate \<Rightarrow> bool" where
  "mapped M base free pd A k ts pt s \<longleftrightarrow> length ts = (k + 1023) div 1024 \<and> distinct ts \<and>
    pt = (if ts = [] then None else Some (last ts)) \<and>
    (\<forall>i < length ts. tables s pd (base + i) = pde_create M (ts ! i)) \<and>
    (\<forall>i \<ge> length ts. tables s pd (base + i) = 0) \<and> (\<forall>i < base. tables s pd i = 0) \<and>
    (\<forall>page < k. tables s (ts ! (page div 1024)) (page mod 1024) = kernel_pte M page) \<and>
    free (pages s) = A - set ts \<and> set ts \<subseteq> A \<and> pd \<notin> A"

lemma table_index:
  fixes k :: nat
  shows "k mod 1024 = 0 \<Longrightarrow> (k + 1023) div 1024 = k div 1024 \<and> (k + 1024) div 1024 = Suc (k div 1024)"
    and "k mod 1024 \<noteq> 0 \<Longrightarrow> (k + 1023) div 1024 = Suc (k div 1024) \<and> (k + 1024) div 1024 = Suc (k div 1024)"
    and "page < k \<Longrightarrow> page div 1024 < (k + 1023) div 1024"
    and "page div 1024 = k div 1024 \<Longrightarrow> page mod 1024 = k mod 1024 \<Longrightarrow> page = k"
proof -
  have k: "k = 1024 * (k div 1024) + k mod 1024" and m: "k mod 1024 < 1024" by simp_all
  show "(k + 1023) div 1024 = k div 1024 \<and> (k + 1024) div 1024 = Suc (k div 1024)" if "k mod 1024 = 0"
    proof (intro conjI div_nat_eqI)
    show "1024 * (k div 1024) \<le> k + 1023" "k + 1023 < 1024 * Suc (k div 1024)" "1024 * Suc (k div 1024) \<le> k + 1024"
      "k + 1024 < 1024 * Suc (Suc (k div 1024))" unfolding mult_Suc_right using k that by - linarith+
  qed
  show "(k + 1023) div 1024 = Suc (k div 1024) \<and> (k + 1024) div 1024 = Suc (k div 1024)" if "k mod 1024 \<noteq> 0"
    proof (intro conjI div_nat_eqI)
    show "1024 * Suc (k div 1024) \<le> k + 1023" "k + 1023 < 1024 * Suc (Suc (k div 1024))"
      "1024 * Suc (k div 1024) \<le> k + 1024" "k + 1024 < 1024 * Suc (Suc (k div 1024))" unfolding mult_Suc_right using k m that by - linarith+
  qed
  show "page div 1024 < (k + 1023) div 1024" if "page < k"
  proof -
    from that have "Suc (page div 1024) \<le> (k + 1023) div 1024"
      using div_le_mono [of "page + 1024" "k + 1023" 1024] by simp
    then show ?thesis by simp
  qed
  show "page = k" if "page div 1024 = k div 1024" "page mod 1024 = k mod 1024"
    using that by (metis div_mult_mod_eq)
qed

text \<open>A page that begins a table, and one that does not.\<close>

lemma mapped_new_table:
  assumes inv: "mapped M base free pd A k ts pt s" and k: "k mod 1024 = 0" and a: "a \<in> A" "a \<notin> set ts"
    and p: "free p = free (pages s) - {a}"
    and t: "t = ((tables s)(a := (\<lambda>_. 0)))(pd := (tables s pd)(base + k div 1024 := pde_create M a))"
  shows "mapped M base free pd A (Suc k) (ts @ [a]) (Some a)
    (s\<lparr>pages := p, tables := t(a := (t a)(k mod 1024 := kernel_pte M k))\<rparr>)"
proof -
  have l: "length ts = k div 1024" and pd: "pd \<notin> A" "set ts \<subseteq> A"
    using inv table_index(1) [OF k] by (simp_all add: mapped_def)
  have ne: "page < k \<Longrightarrow> ts ! (page div 1024) \<in> set ts" for page
    using table_index(3) [of page k] table_index(1) [OF k] l by simp
  have ne': "page < k \<Longrightarrow> ts ! (page div 1024) \<noteq> a \<and> ts ! (page div 1024) \<noteq> pd \<and> page div 1024 < length ts" for page
    using ne [of page] pd a table_index(3) [of page k] table_index(1) [OF k] l by (metis subsetD)
  show ?thesis
    using inv a pd p k table_index(1) [OF k] ne'
    by (auto simp: mapped_def t nth_append less_Suc_eq l)
qed

lemma mapped_same_table:
  assumes inv: "mapped M base free pd A k ts pt s" and k: "k mod 1024 \<noteq> 0"
  shows "mapped M base free pd A (Suc k) ts pt
    (s\<lparr>tables := (tables s)(last ts := (tables s (last ts))(k mod 1024 := kernel_pte M k))\<rparr>)"
proof -
  have l: "length ts = Suc (k div 1024)" and pd: "pd \<notin> A" "set ts \<subseteq> A" and d: "distinct ts"
    using inv table_index(2) [OF k] by (simp_all add: mapped_def)
  then have last: "last ts = ts ! (k div 1024)" and "ts ! (k div 1024) \<in> set ts"
    by (simp_all add: last_conv_nth flip: length_greater_0_conv)
  then have "last ts \<noteq> pd" using pd by auto
  moreover have "tables (s\<lparr>tables := (tables s)(last ts := (tables s (last ts))(k mod 1024 := kernel_pte M k))\<rparr>)
      (ts ! (page div 1024)) (page mod 1024) = kernel_pte M page" if "page < Suc k" for page
  proof (cases "page = k")
    case False
    with that have lt: "page < k" by simp
    then have "page div 1024 < length ts" using table_index(3) [of page k] table_index(2) [OF k] l by simp
    then have "ts ! (page div 1024) = last ts \<Longrightarrow> page mod 1024 \<noteq> k mod 1024"
      using d l last table_index(4) [of page k] False by (auto simp: nth_eq_iff_index_eq)
    with lt inv show ?thesis by (auto simp: mapped_def)
  qed (simp add: last)
  ultimately show ?thesis
    using inv table_index(2) [OF k] by (simp add: mapped_def)
qed

context page_alloc
begin

lemma get_table_page_runs:
  assumes "free (pages s) \<noteq> {}"
  shows "\<exists>a p. get_table_page E s = Inr (a, s\<lparr>pages := p, tables := (tables s)(a := (\<lambda>_. 0))\<rparr>) \<and> a \<in> free (pages s) \<and>
    free p = free (pages s) - {a}"
  using get_page [OF assms] by (auto simp: get_table_page_def)

lemma map_page_runs:
  assumes M: "mmu_ok M base" and k: "k < init_ram_pages M" and inv: "mapped M base free pd A k ts pt s"
    and room: "(k + 1024) div 1024 \<le> card A" and fin: "finite A"
  shows "\<exists>ts' pt' s'. map_page E M pd k (pt, s) = Inr (pt', s') \<and> mapped M base free pd A (Suc k) ts' pt' s' \<and>
    init_page_dir s' = init_page_dir s"
proof -
  let ?v = "ptov M (k * PGSIZE)"
  have idx: "pd_no M ?v = base + k div 1024" "pt_no M ?v = k mod 1024" and pde: "\<And>a. pde_create M a \<noteq> 0"
    using M k by (simp_all add: mmu_ok_def)
  show ?thesis
  proof (cases "k mod 1024 = 0")
    case True
    have l: "length ts = k div 1024" and d: "distinct ts" and z: "tables s pd (base + k div 1024) = 0"
      and fr: "free (pages s) = A - set ts" and sub: "set ts \<subseteq> A" and pd: "pd \<notin> A"
      using inv table_index(1) [OF True] by (simp_all add: mapped_def)
    have "card (set ts) < card A" using l d room by (simp add: distinct_card)
    then have "free (pages s) \<noteq> {}"
      using fr fin card_mono [of "set ts" A] by auto
    from get_table_page_runs [OF this] obtain a p where
      a: "get_table_page E s = Inr (a, s\<lparr>pages := p, tables := (tables s)(a := (\<lambda>_. 0))\<rparr>)" "a \<in> free (pages s)"
        "free p = free (pages s) - {a}" by blast
    with pd fr have "a \<noteq> pd" "a \<in> A" "a \<notin> set ts" by auto
    let ?t = "((tables s)(a := (\<lambda>_. 0)))(pd := (tables s pd)(base + k div 1024 := pde_create M a))"
    define s1 where "s1 = s\<lparr>pages := p, tables := ?t(a := (?t a)(k mod 1024 := kernel_pte M k))\<rparr>"
    have "mapped M base free pd A (Suc k) (ts @ [a]) (Some a) s1"
      unfolding s1_def by (rule mapped_new_table [OF inv True \<open>a \<in> A\<close> \<open>a \<notin> set ts\<close> a(3) refl])
    moreover from \<open>a \<noteq> pd\<close> have "map_page E M pd k (pt, s) = Inr (Some a, s1)"
      by (simp add: map_page_def Let_def idx z a(1) kernel_pte_def s1_def)
    moreover have "init_page_dir s1 = init_page_dir s" by (simp add: s1_def)
    ultimately show ?thesis by blast
  next
    case False
    have l: "length ts = Suc (k div 1024)" and e: "tables s pd (base + k div 1024) = pde_create M (ts ! (k div 1024))"
      and pt: "pt = (if ts = [] then None else Some (last ts))"
      using inv table_index(2) [OF False] by (simp_all add: mapped_def)
    then have pt': "pt = Some (last ts)" by auto
    define s1 where "s1 = s\<lparr>tables := (tables s)(last ts := (tables s (last ts))(k mod 1024 := kernel_pte M k))\<rparr>"
    have "mapped M base free pd A (Suc k) ts pt s1"
      unfolding s1_def by (rule mapped_same_table [OF inv False])
    moreover from pt' l have "map_page E M pd k (pt, s) = Inr (pt, s1)"
      by (simp add: map_page_def Let_def idx e pde kernel_pte_def s1_def)
    moreover have "init_page_dir s1 = init_page_dir s" by (simp add: s1_def)
    ultimately show ?thesis by blast
  qed
qed

lemma map_pages_run:
  assumes M: "mmu_ok M base" and n: "n \<le> init_ram_pages M" and inv: "mapped M base free pd A 0 [] None s"
    and room: "(n + 1023) div 1024 \<le> card A" and fin: "finite A"
  shows "\<exists>ts pt s'. res_fold (map_page E M pd) [0..<n] (None, s) = Inr (pt, s') \<and> mapped M base free pd A n ts pt s' \<and>
    init_page_dir s' = init_page_dir s"
  using n room
proof (induction n)
  case 0
  with inv show ?case by auto
next
  case (Suc n)
  then have "n < init_ram_pages M" "(n + 1023) div 1024 \<le> card A" and room: "(n + 1024) div 1024 \<le> card A" by simp_all
  with Suc obtain ts pt s1 where ih: "res_fold (map_page E M pd) [0..<n] (None, s) = Inr (pt, s1)"
    "mapped M base free pd A n ts pt s1" "init_page_dir s1 = init_page_dir s"
    by auto
  from map_page_runs [OF M \<open>n < _\<close> ih(2) room fin] obtain ts' pt' s' where
    "map_page E M pd n (pt, s1) = Inr (pt', s')" "mapped M base free pd A (Suc n) ts' pt' s'"
    "init_page_dir s' = init_page_dir s1" by blast
  with ih show ?case by (auto simp: res_fold_append)
qed

lemma paging_init_maps:
  assumes M: "mmu_ok M base"
    and room: "(init_ram_pages M + 1023) div 1024 < card (free (pages s))"
  shows "\<exists>s' ts. paging_init E M s = Inr s' \<and> cr3 s' = vtop M (init_page_dir s') \<and> init_page_dir s' \<in> free (pages s) \<and>
    mapped M base free (init_page_dir s') (free (pages s) - {init_page_dir s'}) (init_ram_pages M) ts
      (if ts = [] then None else Some (last ts)) s'"
proof -
  note fin = finite_free [of "pages s"]
  have "free (pages s) \<noteq> {}" using room by auto
  from get_table_page_runs [OF this] obtain pd p where
    pd: "get_table_page E s = Inr (pd, s\<lparr>pages := p, tables := (tables s)(pd := (\<lambda>_. 0))\<rparr>)" "pd \<in> free (pages s)"
      "free p = free (pages s) - {pd}" by blast
  let ?s = "s\<lparr>pages := p, tables := (tables s)(pd := (\<lambda>_. 0)), init_page_dir := pd\<rparr>" and ?A = "free (pages s) - {pd}"
  have "mapped M base free pd ?A 0 [] None ?s" using pd by (simp add: mapped_def)
  moreover have "(init_ram_pages M + 1023) div 1024 \<le> card ?A" using pd room fin by simp
  ultimately obtain ts pt s' where "res_fold (map_page E M pd) [0..<init_ram_pages M] (None, ?s) = Inr (pt, s')"
    "mapped M base free pd ?A (init_ram_pages M) ts pt s'" "init_page_dir s' = pd"
    using map_pages_run [OF M order_refl] fin by fastforce
  moreover then have "pt = (if ts = [] then None else Some (last ts))" by (simp add: mapped_def)
  ultimately show ?thesis
    using pd by (auto simp: paging_init_def mapped_def)
qed

end

text \<open>C28. When the allocator has a page for the directory and one for every 1024 pages of memory, \<open>paging_init\<close> ends with
  a directory of its own pages in which every page of memory is reached: the entry of the directory leads to a
  table, no two entries to the same one, and its entry maps the page, read-only exactly for the pages of the kernel's
  code.  All other entries of the directory are empty, no other page is taken, and the processor uses the new directory.\<close>

theorem paging_init_correct:
  assumes "page_alloc E free" and "mmu_ok M base"
    and "(init_ram_pages M + 1023) div 1024 < card (free (pages s))"
  shows "\<exists>s' ts. paging_init E M s = Inr s' \<and> cr3 s' = vtop M (init_page_dir s') \<and>
    length ts = (init_ram_pages M + 1023) div 1024 \<and> distinct (init_page_dir s' # ts) \<and>
    free (pages s') = free (pages s) - set (init_page_dir s' # ts) \<and>
    (\<forall>i. tables s' (init_page_dir s') i =
      (if base \<le> i \<and> i < base + length ts then pde_create M (ts ! (i - base)) else 0)) \<and>
    (\<forall>page < init_ram_pages M. tables s' (ts ! (page div 1024)) (page mod 1024) = kernel_pte M page)"
proof -
  from page_alloc.paging_init_maps [OF assms] obtain s' ts where s': "paging_init E M s = Inr s'"
    "cr3 s' = vtop M (init_page_dir s')" and m: "mapped M base free (init_page_dir s')
      (free (pages s) - {init_page_dir s'}) (init_ram_pages M) ts (if ts = [] then None else Some (last ts)) s'"
    by blast
  from m have "free (pages s') = free (pages s) - set (init_page_dir s' # ts)" "distinct (init_page_dir s' # ts)"
    by (auto simp: mapped_def)
  moreover from m have "tables s' (init_page_dir s') i =
      (if base \<le> i \<and> i < base + length ts then pde_create M (ts ! (i - base)) else 0)" for i
  proof (cases "base \<le> i")
    case True
    then obtain j where "i = base + j" using le_Suc_ex by blast
    then show ?thesis using m by (cases "j < length ts") (simp_all add: mapped_def)
  qed (simp add: mapped_def)
  ultimately show ?thesis
    using s' m by (intro exI [where x = s'] exI [where x = ts]) (simp add: mapped_def)
qed

section \<open>Example\<close>

text \<open>Three pages of memory mapped at 3 GB, the second of them code, with two free pages.\<close>

definition ref_mmu :: mmu where
  "ref_mmu = \<lparr>ptov = (\<lambda>p. p + 3221225472), vtop = (\<lambda>v. v - 3221225472), pd_no = (\<lambda>v. v div 4194304),
    pt_no = (\<lambda>v. v div 4096 mod 1024), pde_create = (\<lambda>a. or 1 (of_nat a)),
    pte_create_kernel = (\<lambda>v w. or (if w then 3 else 1) (of_nat (v - 3221225472))),
    text_start = 3221225472 + 4096, text_end = 3221225472 + 8192, init_ram_pages = 3\<rparr>"

lemma ref_mmu_ok: "mmu_ok ref_mmu 768"
proof -
  have "bit (or 1 w) 0" for w :: "32 word" by (simp add: bit_or_iff)
  then have "or 1 w \<noteq> 0" for w :: "32 word" by (metis bit_0_eq bot_apply bot_bool_def)
  moreover have "(page + 786432) mod 1024 = page" if "page < 3" for page :: nat
    using that by (auto simp: less_Suc_eq numeral_3_eq_3)
  ultimately show ?thesis by (auto simp: mmu_ok_def ref_mmu_def PGSIZE_def)
qed

theorem paging_init_correct_witness:
  "\<exists>s' t. paging_init ref_externs ref_mmu ((sched_example INTR_OFF 31)\<lparr>pages := [3221229568, 3221233664]\<rparr>) = Inr s' \<and>
    tables s' (init_page_dir s') 768 = pde_create ref_mmu t \<and> tables s' (init_page_dir s') 769 = 0 \<and>
    tables s' (init_page_dir s') 0 = 0 \<and>
    tables s' t 1 = 4097 \<and> tables s' t 2 = 8195"
proof -
  let ?s = "(sched_example INTR_OFF 31)\<lparr>pages := [3221229568, 3221233664]\<rparr>"
  have n: "init_ram_pages ref_mmu = 3" by (simp add: ref_mmu_def)
  have k: "kernel_pte ref_mmu 1 = 4097" "kernel_pte ref_mmu 2 = 8195"
    by (simp_all add: kernel_pte_def ref_mmu_def in_kernel_text_def PGSIZE_def)
  have "(init_ram_pages ref_mmu + 1023) div 1024 < card (set (pages ?s))" by (simp add: n)
  from paging_init_correct [OF ref_pages.page_alloc_axioms ref_mmu_ok this, unfolded n] obtain s' ts where
    r: "paging_init ref_externs ref_mmu ?s = Inr s'" and l: "length ts = (3 + 1023) div 1024"
    and d: "\<forall>i. tables s' (init_page_dir s') i =
      (if 768 \<le> i \<and> i < 768 + length ts then pde_create ref_mmu (ts ! (i - 768)) else 0)"
    and m: "\<forall>page < 3. tables s' (ts ! (page div 1024)) (page mod 1024) = kernel_pte ref_mmu page"
    by - (elim exE conjE, rule that)
  from l spec [OF d, of 768] spec [OF d, of 769] spec [OF d, of 0]
  have "tables s' (init_page_dir s') 768 = pde_create ref_mmu (ts ! 0)" "tables s' (init_page_dir s') 769 = 0" "tables s' (init_page_dir s') 0 = 0" by simp_all
  moreover from m have "tables s' (ts ! (1 div 1024)) (1 mod 1024) = kernel_pte ref_mmu 1"
    "tables s' (ts ! (2 div 1024)) (2 mod 1024) = kernel_pte ref_mmu 2" by (metis one_less_numeral_iff semiring_norm(77), simp)
  ultimately show ?thesis using r k by (intro exI [where x = s'] exI [where x = "ts ! 0"]) simp
qed

end
