(* ===== verification/Boot.thy ===== *)
theory Boot
  imports Conditions Threads Timer Command_Line Paging
begin

text \<open>
  The main program of the kernel, \<^verbatim>\<open>threads/init.c\<close>: \<open>main\<close> and the actions of the command line, and what
  holds of the functions that C declares as never returning.  Clearing the BSS segment, the console, the allocators,
  the devices, the interrupt table and the tests are not part of the repository (or are placed by the linker
  script); \<open>ext\<close> gives the meaning of these calls and \<open>run_test\<close> that of a test.
\<close>

section \<open>Actions\<close>

datatype boot_call =
    Bss_init
  | Shutdown_configure shutdown_type
  | Random_init "32 word"
  | Print string
  | Console_init
  | Greet nat
  | Palloc_init
  | Malloc_init
  | Intr_init
  | Kbd_init
  | Input_init
  | Serial_init_queue
  | Shutdown

type_synonym ('l, 'i, 'p) action = "string \<times> nat \<times> (string list \<Rightarrow> (('l, 'i, 'p) kstate, unit) kernel)"

definition run_task ::
    "(boot_call \<Rightarrow> (('l, 'i, 'p) kstate, unit) kernel) \<Rightarrow> (string \<Rightarrow> (('l, 'i, 'p) kstate, unit) kernel) \<Rightarrow>
      string list \<Rightarrow> (('l, 'i, 'p) kstate, unit) kernel" where
  "run_task ext run_test argv =
    (let task = argv ! 1
     in kseq [ext (Print (''Executing '' @ [CHR 0x27] @ task @ [CHR 0x27] @ '':'' @ [CHR 0x0A])),
              run_test task,
              ext (Print (''Execution of '' @ [CHR 0x27] @ task @ [CHR 0x27] @ '' complete.'' @ [CHR 0x0A]))])"

text \<open>The table of the supported actions, up to the entry without a name, and the search in it.\<close>

definition actions ::
    "(boot_call \<Rightarrow> (('l, 'i, 'p) kstate, unit) kernel) \<Rightarrow> (string \<Rightarrow> (('l, 'i, 'p) kstate, unit) kernel) \<Rightarrow>
      ('l, 'i, 'p) action list" where
  "actions ext run_test = [(''run'', 2, run_task ext run_test)]"

fun find_action :: "string \<Rightarrow> ('l, 'i, 'p) action list \<Rightarrow> ('l, 'i, 'p) action option" where
  "find_action arg [] = None"
| "find_action arg (a # as) = (if arg = fst a then Some a else find_action arg as)"

definition argv_at :: "string list \<Rightarrow> nat \<Rightarrow> string option" where
  "argv_at argv i = (if i < length argv then Some (argv ! i) else None)"

definition missing_argument :: "string list \<Rightarrow> nat \<Rightarrow> bool" where
  "missing_argument argv argc \<longleftrightarrow> list_ex (\<lambda>i. argv_at argv i = None) [1..<argc]"

lemma find_action_argc: "find_action arg (actions ext run_test) = Some (nm, argc, f) \<Longrightarrow> argc = 2 \<and> f = run_task ext run_test"
  by (auto simp: actions_def split: if_splits)

function run_actions ::
    "(boot_call \<Rightarrow> (('l, 'i, 'p) kstate, unit) kernel) \<Rightarrow> (string \<Rightarrow> (('l, 'i, 'p) kstate, unit) kernel) \<Rightarrow>
      string list \<Rightarrow> (('l, 'i, 'p) kstate, unit) kernel" where
  "run_actions ext run_test [] = kskip"
| "run_actions ext run_test (arg # args) =
    (case find_action arg (actions ext run_test) of
       None \<Rightarrow> (\<lambda>s. Panic (Unknown_action arg))
     | Some (nm, argc, f) \<Rightarrow>
         if missing_argument (arg # args) argc then (\<lambda>s. Panic (Missing_argument arg (int argc - 1)))
         else kthen (f (arg # args)) (run_actions ext run_test (drop argc (arg # args))))"
  by pat_completeness auto
termination
  by (relation "measure (\<lambda>(ext, run_test, argv). length argv)") (auto dest: find_action_argc)

section \<open>The main program\<close>

text \<open>The arguments, and what the options ask for.  \<open>m\<close> is the text of the command line that the loader stored, in an
  area of \<open>len\<close> bytes, \<open>argc\<close> the number of arguments and \<open>now\<close> the time of day.\<close>

definition command_line ::
    "nat \<Rightarrow> int \<Rightarrow> char list \<Rightarrow> 32 word \<Rightarrow> boot \<Rightarrow> (string \<times> string list \<times> boot) res" where
  "command_line len argc m now b =
    res_bind (read_command_line len argc m) (\<lambda>(argv, echo).
      res_bind (c_strs m argv) (\<lambda>args.
        res_bind (parse_options now args b) (\<lambda>(rest, b1). Inr (echo, rest, b1))))"

definition apply_boot ::
    "(boot_call \<Rightarrow> (('l, 'i, 'p) kstate, unit) kernel) \<Rightarrow> boot \<Rightarrow> (('l, 'i, 'p) kstate, unit) kernel" where
  "apply_boot ext b =
    kseq ((case shutdown_how b of None \<Rightarrow> [] | Some h \<Rightarrow> [ext (Shutdown_configure h)]) @
          [kmodify (\<lambda>s. s\<lparr>thread_mlfqs := opt_mlfqs b\<rparr>)] @ map (\<lambda>n. ext (Random_init n)) (random_seeds b))"

definition main_program ::
    "('l, 'i, 'p) externs \<Rightarrow> mmu \<Rightarrow> (boot_call \<Rightarrow> (('l, 'i, 'p) kstate, unit) kernel) \<Rightarrow>
      (string \<Rightarrow> (('l, 'i, 'p) kstate, unit) kernel) \<Rightarrow> addr \<Rightarrow> nat \<Rightarrow> int \<Rightarrow> char list \<Rightarrow> 32 word \<Rightarrow>
      (('l, 'i, 'p) kstate, unit) kernel" where
  "main_program E M ext run_test idle_started len argc m now =
    kthen (ext Bss_init)
      (kcall (\<lambda>s. command_line len argc m now \<lparr>opt_mlfqs = thread_mlfqs s, shutdown_how = None, random_seeds = []\<rparr>)
        (\<lambda>(echo, argv, b).
          kseq [ext (Print echo),
                apply_boot ext b,
                thread_init E,
                ext Console_init,
                ext (Greet (init_ram_pages M * PGSIZE div 1024)),
                ext Palloc_init,
                ext Malloc_init,
                katomic (paging_init E M),
                ext Intr_init,
                kmodify (timer_init E),
                ext Kbd_init,
                ext Input_init,
                thread_start E idle_started,
                ext Serial_init_queue,
                timer_calibrate E,
                ext (Print (''Boot complete.'' @ [CHR 0x0A])),
                run_actions ext run_test argv,
                ext Shutdown,
                thread_exit E]))"

section \<open>What the actions do\<close>

lemma missing_argument_2: "missing_argument argv 2 \<longleftrightarrow> length argv \<le> 1"
  by (simp add: missing_argument_def argv_at_def upt_rec list_ex_iff not_less)

lemma run_actions_simps:
  "run_actions ext run_test [] = kskip"
  "run_actions ext run_test (''run'' # t # args) =
    kthen (run_task ext run_test [''run'', t]) (run_actions ext run_test args)"
  "run_actions ext run_test [''run''] = (\<lambda>s. Panic (Missing_argument ''run'' 1))"
  "a \<noteq> ''run'' \<Longrightarrow> run_actions ext run_test (a # args) = (\<lambda>s. Panic (Unknown_action a))"
  by (simp_all add: actions_def missing_argument_2 run_task_def)

text \<open>A command line is a sequence of well-formed actions and a rest that is not one.\<close>

fun command_actions :: "string list \<Rightarrow> string list \<times> string list" where
  "command_actions (a # t # args) =
    (if a = ''run'' then (case command_actions args of (ts, rest) \<Rightarrow> (t # ts, rest)) else ([], a # t # args))"
| "command_actions args = ([], args)"

text \<open>C29. The actions of the command line are executed one after the other up to the first that is not well-formed: the tests
  named by the leading pairs \<open>run TEST\<close> run in order, each between its two messages.  What follows them is reported as an
  action without its argument when it is a single \<open>run\<close> and as an unknown action otherwise, and only after these
  tests have run; when nothing follows, \<open>run_actions\<close> returns.\<close>

theorem run_actions_correct:
  "run_actions ext run_test argv =
    (case command_actions argv of (tests, rest) \<Rightarrow>
       foldr (\<lambda>t. kthen (run_task ext run_test [''run'', t])) tests
        (case rest of [] \<Rightarrow> kskip
         | a # _ \<Rightarrow> \<lambda>s. Panic (if a = ''run'' then Missing_argument a 1 else Unknown_action a))) \<and>
    argv = concat (map (\<lambda>t. [''run'', t]) (fst (command_actions argv))) @ snd (command_actions argv) \<and>
    (case snd (command_actions argv) of [] \<Rightarrow> True | [a] \<Rightarrow> True | a # _ # _ \<Rightarrow> a \<noteq> ''run'')"
proof (induction argv rule: command_actions.induct [case_names Pair None One])
  case (Pair a t args)
  then show ?case by (cases "a = ''run''") (auto simp: run_actions_simps split: prod.splits simp del: run_actions.simps)
next
  case (One a)
  then show ?case by (cases "a = ''run''") (simp_all add: run_actions_simps del: run_actions.simps)
qed (simp add: run_actions_simps)

section \<open>Functions that never return\<close>

lemma thread_exit_no_return: "\<not> may_return (thread_exit E s) v s'"
proof -
  have "\<not> may_return (kdisable E (\<lambda>_. kseq [m, n, c, (\<lambda>s. Panic Not_reached)]) s) v s'"
    for m n c and s s' :: "('a, 'b, 'c) kstate"
    by (simp add: kdisable_def no_return_kthen)
  then show ?thesis unfolding thread_exit_def by (intro no_return_kseq) simp_all
qed

lemma idle_no_return: "\<not> may_return (idle E a s) v s'"
proof -
  have "\<not> may_return (kwhile (\<lambda>s. True) b s) v s'" for b and s s' :: "('a, 'b, 'c) kstate"
    by (auto simp: kwhile_def dest: may_return_kwhile_from)
  then show ?thesis unfolding idle_def by (intro no_return_kseq) simp_all
qed

text \<open>C27. The functions that C declares as never returning keep that promise whatever interrupts, other threads, the external calls and
  the functions that threads run do to the state: \<open>thread_exit\<close>, \<open>idle\<close>, \<open>kernel_thread\<close>, under whose frame no thread has a
  caller to return to, and \<open>main\<close>.\<close>

theorem no_return_functions:
  "\<not> may_return (thread_exit E s) v s' \<and> \<not> may_return (idle E idle_started s) v s' \<and>
    \<not> may_return (kernel_thread E run function aux s) v s' \<and>
    \<not> may_return (main_program E M ext run_test idle_started len argc m now s) v s'"
proof (intro conjI)
  show "\<not> may_return (kernel_thread E run function aux s) v s'"
    unfolding kernel_thread_def by (intro no_return_kseq) (simp_all add: thread_exit_no_return)
  have "\<not> may_return (kcall f (\<lambda>(echo, argv, b). kseq (ms echo argv b @ [thread_exit E])) s) v s'"
    for f ms and s s' :: "('a, 'b, 'c) kstate"
    by (auto simp: kcall_def split: sum.splits dest!: no_return_kseq [THEN notE, rotated -1] simp: thread_exit_no_return)
  from this [of "\<lambda>s. command_line len argc m now \<lparr>opt_mlfqs = thread_mlfqs s, shutdown_how = None, random_seeds = []\<rparr>"
      "\<lambda>echo argv b. [ext (Print echo), apply_boot ext b, thread_init E, ext Console_init,
        ext (Greet (init_ram_pages M * PGSIZE div 1024)), ext Palloc_init, ext Malloc_init,
        katomic (paging_init E M), ext Intr_init, kmodify (timer_init E), ext Kbd_init, ext Input_init,
        thread_start E idle_started, ext Serial_init_queue, timer_calibrate E,
        ext (Print (''Boot complete.'' @ [CHR 0x0A])), run_actions ext run_test argv, ext Shutdown]"]
  show "\<not> may_return (main_program E M ext run_test idle_started len argc m now s) v s'"
    unfolding main_program_def by (intro no_return_kthen) simp
qed (rule thread_exit_no_return idle_no_return)+

end
