(* ===== verification/Messages.thy ===== *)
theory Messages
  imports Boot
begin

text \<open>
  What the kernel prints about itself: the statistics of the threads (\<^verbatim>\<open>threads/thread.c\<close>) and of the timer
  (\<^verbatim>\<open>devices/timer.c\<close>), and the help on the command line (\<^verbatim>\<open>threads/init.c\<close>), in the configuration without user programs and
  file system.  \<open>ext\<close> gives the meaning of the calls of the console, as in \<open>Boot\<close>.
\<close>

section \<open>Statistics\<close>

text \<open>The conversion \<^verbatim>\<open>%lld\<close> of \<open>printf\<close>.\<close>

definition decimal :: "int \<Rightarrow> string" where
  "decimal i = (if i < 0 then CHR ''-'' # show_nat (nat (- i)) else show_nat (nat i))"

definition thread_print_stats ::
    "(boot_call \<Rightarrow> (('l, 'i, 'p) kstate, unit) kernel) \<Rightarrow> (('l, 'i, 'p) kstate, unit) kernel" where
  "thread_print_stats ext = kget (\<lambda>s. ''Thread: '' @ decimal (idle_ticks s) @ '' idle ticks, '' @
      decimal (kernel_ticks s) @ '' kernel ticks, '' @ decimal (user_ticks s) @ '' user ticks'' @ [CHR 0x0A])
    (\<lambda>line. ext (Print line))"

definition timer_print_stats ::
    "('l, 'i, 'p) externs \<Rightarrow> (boot_call \<Rightarrow> (('l, 'i, 'p) kstate, unit) kernel) \<Rightarrow> (('l, 'i, 'p) kstate, unit) kernel" where
  "timer_print_stats E ext =
    kticks E (\<lambda>t. kpause (ext (Print (''Timer: '' @ decimal t @ '' ticks'' @ [CHR 0x0A]))))"

section \<open>Help\<close>

definition usage_lines :: "string list" where
  "usage_lines =
    ['''',
     ''Command line syntax: [OPTION...] [ACTION...]'',
     ''Options must precede actions.'',
     ''Actions are executed in the order specified.'',
     '''',
     ''Available actions:'',
     ''  run TEST           Run TEST.'',
     '''',
     ''Options:'',
     ''  -h                 Print this help message and power off.'',
     ''  -q                 Power off VM after actions or on panic.'',
     ''  -r                 Reboot after actions.'',
     ''  -rs=SEED           Set random number seed to SEED.'',
     ''  -mlfqs             Use multi-level feedback queue scheduler.'']"

definition usage ::
    "(boot_call \<Rightarrow> (('l, 'i, 'p) kstate, unit) kernel) \<Rightarrow> (('l, 'i, 'p) kstate, unit) kernel" where
  "usage ext = kthen (ext (Print (concat (map (\<lambda>l. l @ [CHR 0x0A]) usage_lines)))) (\<lambda>s. Panic Power_off)"

text \<open>The help read as a user reads it: an indented line explains the word it starts with, an option if that
  starts with a dash and an action otherwise; what follows an equals sign is a value.\<close>

definition explained :: "string list \<Rightarrow> string list" where
  "explained ls = map (\<lambda>l. option_name (takeWhile (\<lambda>c. c \<noteq> CHR '' '') (drop 2 l))) (filter (\<lambda>l. take 2 l = ''  '') ls)"

definition help_options :: "string list" where
  "help_options = filter (\<lambda>w. take 1 w = ''-'') (explained usage_lines)"

definition help_actions :: "string list" where
  "help_actions = filter (\<lambda>w. take 1 w \<noteq> ''-'') (explained usage_lines)"

lemma help_words: "help_options = [''-h'', ''-q'', ''-r'', ''-rs'', ''-mlfqs'']" "help_actions = [''run'']"
  by (simp_all add: help_options_def help_actions_def explained_def usage_lines_def option_name_def)

text \<open>C39. The help is complete and correct: the options it explains are exactly those that \<open>parse_options\<close> knows, and the actions it
  explains are exactly those that \<open>run_actions\<close> knows.\<close>

theorem usage_is_complete:
  "(parse_option a b \<noteq> Inl (Unknown_option (option_name a)) \<longleftrightarrow> option_name a \<in> set help_options) \<and>
    (find_action w (actions ext run_test) \<noteq> None \<longleftrightarrow> w \<in> set help_actions)"
  by (auto simp: help_words parse_option_def Let_def actions_def split: option.splits)

end
