(* ===== verification/Machine.thy ===== *)
theory Machine
  imports Threads Conditions
begin

text \<open>
  The scheduler as a state machine.  A step is a piece of the kernel that runs without interruption: a call of a scheduler
  function up to the thread switch and the first instructions of the thread switched to, a call that does not
  switch, a timer tick, or other code that keeps the rules of the scheduler's lists.  Threads and interrupt handlers may make
  these steps in any order.  The invariant says how the status of the threads, the list of all threads and the run queue fit
  together.

  The rules are the preconditions of \<^verbatim>\<open>lib/kernel/list.c\<close>: an element is in at most one list, and an ordered insertion asks for
  a list that is in order.  The code does not always keep them, and then nothing can be said of the lists: a
  contended \<open>lock_acquire\<close> links \<open>elem\<close> into two lists, and a donation to a thread in the run queue can put the queue out of order.
  Such steps, and under the feedback scheduler a priority outside of the range of the queues, are not steps of the machine.
\<close>

section \<open>The invariant\<close>

definition live :: "('l, 'i, 'p) externs \<Rightarrow> ('l, 'i, 'p) kstate \<Rightarrow> thread_ptr set" where
  "live E s = {t. allelem_of t \<in> set (elems E s All_list)}"

text \<open>The threads that wait for the processor are exactly the ready ones; the idle thread is never queued.\<close>

definition accounted :: "('l, 'i, 'p) externs \<Rightarrow> ('l, 'i, 'p) kstate \<Rightarrow> bool" where
  "accounted E s \<longleftrightarrow> run_ok E s \<and> set (run_order E s) \<subseteq> live E s \<and>
    (\<forall>e \<in> set (elems E s All_list). member_of e = Allelem) \<and>
    (\<forall>t \<in> live E s. magic (threads s t) = THREAD_MAGIC \<and> status (threads s t) \<noteq> THREAD_DYING \<and>
      (thread_mlfqs s \<longrightarrow> PRI_MIN \<le> priority (threads s t) \<and> priority (threads s t) \<le> PRI_MAX) \<and>
      (t \<in> set (run_order E s) \<longleftrightarrow> status (threads s t) = THREAD_READY \<and> Some t \<noteq> idle_thread s)) \<and>
    (\<forall>i. idle_thread s = Some i \<longrightarrow> i \<in> live E s \<and> unlinked E (elem_of i) (lists s))"

definition sched_inv :: "('l, 'i, 'p) externs \<Rightarrow> ('l, 'i, 'p) kstate \<Rightarrow> bool" where
  "sched_inv E s \<longleftrightarrow> accounted E s \<and> running s \<in> live E s \<and> unlinked E (elem_of (running s)) (lists s) \<and>
    (\<forall>t \<in> live E s. status (threads s t) = THREAD_RUNNING \<longleftrightarrow> t = running s)"

text \<open>The same at a call of \<open>schedule\<close>: the caller has given up its status, and nobody is running.\<close>

definition parked :: "('l, 'i, 'p) externs \<Rightarrow> ('l, 'i, 'p) kstate \<Rightarrow> bool" where
  "parked E s \<longleftrightarrow> accounted E s \<and> level E s = INTR_OFF \<and> status (threads s (running s)) \<noteq> THREAD_RUNNING \<and>
    (\<forall>t \<in> live E s. status (threads s t) \<noteq> THREAD_RUNNING)"

lemma sched_inv_on_cpu: "sched_inv E s \<Longrightarrow> on_cpu s"
  by (auto simp: sched_inv_def accounted_def on_cpu_def)

lemma live_cong: "elems E s' All_list = elems E s All_list \<Longrightarrow> live E s' = live E s"
  by (simp add: live_def)

lemma queued_linked:
  assumes "run_ok E s" and "t \<in> set (run_order E s)"
  shows "\<not> unlinked E (elem_of t) (lists s)"
proof -
  obtain e l where e: "e \<in> set (elems E s l)" "list_entry e = t" "member_of e = Elem"
    using assms by (auto simp: run_order_def run_ok_def mlfqs_queue_def ready_queue_def mlfqs_ok_def
        ready_ok_def mlfqs_queues_ok_def split: if_splits)
  from e(2,3) have "elem_of t = e" by (cases e) simp
  with e(1) show ?thesis by (auto simp: unlinked_def)
qed

section \<open>Choosing the next thread\<close>

definition dispatched ::
    "('l, 'i, 'p) externs \<Rightarrow> thread_ptr \<Rightarrow> ('l, 'i, 'p) kstate \<Rightarrow> 'l \<Rightarrow> bool" where
  "dispatched E n s h \<longleftrightarrow> run_next E s = Some n \<and> n \<in> live E s \<and> run_order E (s\<lparr>lists := h\<rparr>) = tl (run_order E s) \<and>
    run_ok E (s\<lparr>lists := h\<rparr>) \<and> run_frame E n (lists s) h \<and> unlinked E (elem_of n) h"

lemma dispatched_inv:
  assumes p: "parked E s" and d: "dispatched E n s h"
    and s': "lists s' = h" "running s' = n" "threads s' = (threads s)(n := (threads s n)\<lparr>status := THREAD_RUNNING\<rparr>)"
      "idle_thread s' = idle_thread s" "thread_mlfqs s' = thread_mlfqs s"
  shows "sched_inv E s'"
proof -
  have q: "run_order E s' = tl (run_order E s)"
    using d s' run_order_cong [of s' "s\<lparr>lists := h\<rparr>" E] by (simp add: dispatched_def)
  have "run_ok E s' = run_ok E (s\<lparr>lists := h\<rparr>)" by (rule run_ok_cong) (auto simp: s')
  then have ok: "run_ok E s'" using d by (simp add: dispatched_def)
  have all: "elems E s' All_list = elems E s All_list" using d by (simp add: s' dispatched_def run_frame_def)
  then have live: "live E s' = live E s" by (rule live_cong)
  have n: "n \<in> live E s" "unlinked E (elem_of n) (lists s')" using d by (simp_all add: dispatched_def s')
  then have nq: "n \<notin> set (run_order E s')" using queued_linked [OF ok, of n] by auto
  have rest: "t \<in> set (run_order E s') \<longleftrightarrow> t \<in> set (run_order E s)" if "t \<noteq> n" for t
    using d that by (cases "run_order E s") (auto simp: q dispatched_def run_next_def)
  have acc: "accounted E s" and none: "\<forall>t \<in> live E s. status (threads s t) \<noteq> THREAD_RUNNING"
    using p by (simp_all add: parked_def)
  have idle: "unlinked E (elem_of i) (lists s')" if "idle_thread s = Some i" for i
    using that acc d n by (cases "i = n") (auto simp: accounted_def s' dispatched_def run_frame_def)
  have "set (run_order E s') \<subseteq> live E s" using acc q by (cases "run_order E s") (auto simp: accounted_def)
  then have "accounted E s'"
    using acc ok idle nq rest unfolding accounted_def live all by (auto simp: s')
  then show ?thesis using n none by (auto simp: sched_inv_def live s')
qed

context kernel_env
begin

lemma next_dispatched:
  assumes "accounted E s" and nxt: "run_next E s = Some n"
  shows "\<exists>h. next_thread_to_run E s = (Some n, s\<lparr>lists := h\<rparr>) \<and> dispatched E n s h"
proof -
  have ok: "run_ok E s" and sub: "set (run_order E s) \<subseteq> live E s"
    and idle: "idle_thread s = Some n \<Longrightarrow> n \<in> live E s \<and> unlinked E (elem_of n) (lists s)"
    using assms(1) by (simp_all add: accounted_def)
  show ?thesis
  proof (cases "run_order E s")
    case Nil
    then show ?thesis
      using run.dequeue_empty [OF ok Nil] nxt idle ok
      by (intro exI [of _ "lists s"]) (simp add: run_next_def dispatched_def run_frame_def)
  next
    case (Cons t ts)
    then show ?thesis using run.dequeue_front [OF ok Cons] nxt sub by (auto simp: run_next_def dispatched_def)
  qed
qed

text \<open>What \<open>schedule\<close> does in a parked state: it stops the kernel when there is no thread to run, goes on with the caller when
  that is the next thread, and switches otherwise.\<close>

lemma schedule_parked:
  assumes p: "parked E s"
  shows "case run_next E s of
      None \<Rightarrow> schedule E s = Panic Assert_is_thread
    | Some n \<Rightarrow> \<exists>h. dispatched E n s h \<and> schedule E s =
        (if n = running s
         then Done () ((upd_thread n (status_update (\<lambda>_. THREAD_RUNNING)) (s\<lparr>lists := h\<rparr>))\<lparr>thread_ticks := 0\<rparr>)
         else Switch (running s) n (s\<lparr>lists := h\<rparr>) (\<lambda>prev. katomic (thread_schedule_tail E (Some prev))))"
proof (cases "run_next E s")
  case None
  then have "run_order E s = []" "idle_thread s = None" by (simp_all add: run_next_def split: list.splits)
  moreover have "run_ok E s" using p by (simp add: parked_def accounted_def)
  ultimately have "next_thread_to_run E s = (None, s)" using run.dequeue_empty by simp
  then show ?thesis using None p by (simp add: schedule_def running_thread_def Let_def parked_def)
next
  case (Some n)
  have acc: "accounted E s" and off: "level E s = INTR_OFF" and st: "status (threads s (running s)) \<noteq> THREAD_RUNNING"
    using p by (simp_all add: parked_def)
  from next_dispatched [OF acc Some] obtain h where h: "next_thread_to_run E s = (Some n, s\<lparr>lists := h\<rparr>)" "dispatched E n s h"
    by blast
  then have "magic (threads s n) = THREAD_MAGIC" using acc by (simp add: accounted_def dispatched_def)
  with h off st show ?thesis unfolding Some
    by (auto intro!: exI [of _ h] simp: schedule_def thread_schedule_tail_def running_thread_def katomic_def Let_def)
qed

end

section \<open>The calls of \<open>schedule\<close>\<close>

text \<open>Code that does the same as other code when no interrupt comes in.\<close>

definition runs_as :: "('s, 'a) outcome \<Rightarrow> ('s, 'a) outcome \<Rightarrow> bool" where
  "runs_as m m' \<longleftrightarrow> (\<forall>v s. returns m v s = returns m' v s) \<and> (\<forall>p n s r. switches m p n s r = switches m' p n s r) \<and>
    (\<forall>e. panics m e = panics m' e)"

text \<open>The first code goes on as the second after pauses that no interrupt can use.\<close>

inductive quiet :: "('l, 'i, 'p) externs \<Rightarrow> (('l, 'i, 'p) kstate, 'a) outcome \<Rightarrow> (('l, 'i, 'p) kstate, 'a) outcome \<Rightarrow> bool"
  for E :: "('l, 'i, 'p) externs" where
  quiet_refl: "quiet E m m"
| quiet_pause: "level E s = INTR_OFF \<Longrightarrow> quiet E (k s) m \<Longrightarrow> quiet E (Pause s k) m"

lemma quiet_runs_as: "quiet E m m' \<Longrightarrow> runs_as m m'"
  by (induction rule: quiet.induct) (simp_all add: runs_as_def)

lemma runs_as_pause: "runs_as (k s) m \<Longrightarrow> runs_as (Pause s k) m"
  by (simp add: runs_as_def)

text \<open>\<open>thread_yield\<close> and \<open>thread_exit\<close> from where they turn interrupts off.\<close>

definition yield_rest :: "('l, 'i, 'p) externs \<Rightarrow> thread_ptr \<Rightarrow> (('l, 'i, 'p) kstate, unit) kernel" where
  "yield_rest E cur = kdisable E (\<lambda>old_level.
    kseq [katomic (\<lambda>s. if Some cur \<noteq> idle_thread s then run_insert E cur s else Inr s),
          kmodify (upd_thread cur (status_update (\<lambda>_. THREAD_READY))), schedule E, kset_level E old_level])"

definition exit_rest :: "('l, 'i, 'p) externs \<Rightarrow> (('l, 'i, 'p) kstate, unit) kernel" where
  "exit_rest E = kdisable E (\<lambda>_.
    kseq [kcall thread_current (\<lambda>cur. kmodify (upd_lists (list_remove E (allelem_of cur)))),
          kcall thread_current (\<lambda>cur. kmodify (upd_thread cur (status_update (\<lambda>_. THREAD_DYING)))),
          schedule E, (\<lambda>s. Panic Not_reached)])"

lemma yield_exit_rest:
  assumes "on_cpu s" and "\<not> intr_context E (cpu s)"
  shows "thread_yield E s = Pause s (yield_rest E (running s))" "thread_exit E s = Pause s (exit_rest E)"
  using assms by (simp_all add: thread_yield_def thread_exit_def yield_rest_def exit_rest_def kcall_def kassert_def kthen_def)

text \<open>A change of lists by which the element of no thread but \<open>t\<close> gets onto a list.\<close>

definition relinked :: "('l, 'i, 'p) externs \<Rightarrow> thread_ptr \<Rightarrow> ('l, 'i, 'p) kstate \<Rightarrow> 'l \<Rightarrow> bool" where
  "relinked E t s h \<longleftrightarrow> linked_once E h \<and> (\<forall>l. run_list l \<or> l = All_list \<longrightarrow> list_elems E l h = elems E s l) \<and>
    (\<forall>u. u \<noteq> t \<longrightarrow> unlinked E (elem_of u) (lists s) \<longrightarrow> unlinked E (elem_of u) h)"

lemma relinked_run:
  assumes "relinked E t s h" and "run_ok E s"
  shows "run_order E (s\<lparr>lists := h\<rparr>) = run_order E s" "run_ok E (s\<lparr>lists := h\<rparr>)" "live E (s\<lparr>lists := h\<rparr>) = live E s"
  using assms run_queue_frame [of E h s] run_ok_linked [of E s] by (simp_all add: relinked_def live_def)

text \<open>What giving up the processor leaves of the accounts, by the new status and the new run queue.\<close>

lemma parkedI:
  assumes inv: "sched_inv E s" and off: "level E s1 = INTR_OFF" and run: "running s1 = running s" "idle_thread s1 = idle_thread s"
      "thread_mlfqs s1 = thread_mlfqs s"
    and th: "threads s1 = (threads s)(running s := (threads s (running s))\<lparr>status := st\<rparr>)"
    and st: "st = THREAD_READY \<or> st = THREAD_BLOCKED" and all: "elems E s1 All_list = elems E s All_list"
    and ok: "run_ok E s1" and idle: "\<And>i. idle_thread s = Some i \<Longrightarrow> unlinked E (elem_of i) (lists s1)"
    and q: "set (run_order E s1) = (if st = THREAD_READY \<and> Some (running s) \<noteq> idle_thread s
      then insert (running s) (set (run_order E s)) else set (run_order E s))"
  shows "parked E s1"
proof -
  have c: "running s \<in> live E s" and others: "\<forall>t \<in> live E s. t \<noteq> running s \<longrightarrow> status (threads s t) \<noteq> THREAD_RUNNING"
    and acc: "accounted E s" and un: "unlinked E (elem_of (running s)) (lists s)"
    using inv by (auto simp: sched_inv_def)
  then have nq: "running s \<notin> set (run_order E s)" using queued_linked [of E s "running s"] by (auto simp: accounted_def)
  note live = live_cong [OF all]
  have "set (run_order E s1) \<subseteq> live E s" using acc c by (auto simp: q accounted_def split: if_splits)
  moreover have "t \<in> set (run_order E s1) \<longleftrightarrow> status (threads s1 t) = THREAD_READY \<and> Some t \<noteq> idle_thread s1"
    if "t \<in> live E s" for t
    using that acc st nq by (auto simp: q th run accounted_def)
  ultimately have "accounted E s1"
    using acc ok idle st unfolding accounted_def live all by (auto simp: th run)
  then show ?thesis using off others st by (auto simp: parked_def live th run)
qed

context kernel_env
begin

lemma yield_parks:
  assumes inv: "sched_inv E s" and nint: "\<not> intr_context E (cpu s)"
  shows "\<exists>s1. parked E s1 \<and> running s1 = running s \<and> idle_thread s1 = idle_thread s \<and> thread_mlfqs s1 = thread_mlfqs s \<and>
    threads s1 = (threads s)(running s := (threads s (running s))\<lparr>status := THREAD_READY\<rparr>) \<and>
    run_order E s1 = (if Some (running s) = idle_thread s then run_order E s
      else ins_before (higher s) (running s) (run_order E s)) \<and> live E s1 = live E s \<and>
    intr_context E (cpu s1) = intr_context E (cpu s) \<and>
    quiet E (yield_rest E (running s) s) (kbind (schedule E s1) (\<lambda>_. kset_level E (level E s))) \<and>
    runs_as (thread_yield E s) (kbind (schedule E s1) (\<lambda>_. kset_level E (level E s)))"
proof -
  let ?c = "running s"
  let ?off = "upd_cpu (\<lambda>i. snd (intr_disable E i))"
  have cpu: "on_cpu s" by (rule sched_inv_on_cpu [OF inv])
  have acc: "accounted E s" and c: "?c \<in> live E s" and un: "unlinked E (elem_of ?c) (lists s)"
    using inv by (simp_all add: sched_inv_def)
  then have ok: "run_ok E s" and fits: "run_fits E ?c s"
    by (auto simp: accounted_def run_fits_def ready_fits_def mlfqs_fits_def)
  have as: "runs_as (thread_yield E s) m" if "quiet E (yield_rest E ?c s) m" for m
    using runs_as_pause [of "yield_rest E ?c" s] quiet_runs_as [OF that] by (simp add: yield_exit_rest [OF cpu nint])
  show ?thesis
  proof (cases "Some ?c = idle_thread s")
    case True
    define s1 where "s1 = upd_thread ?c (status_update (\<lambda>_. THREAD_READY)) (?off s)"
    have q: "run_order E s1 = run_order E s" "run_ok E s1" "elems E s1 All_list = elems E s All_list"
      using ok by (simp_all add: s1_def)
    have "parked E s1"
      by (rule parkedI [OF inv, where st = THREAD_READY])
        (use q acc True in \<open>auto simp: s1_def intr_laws accounted_def\<close>)
    moreover have qt: "quiet E (yield_rest E ?c s) (kbind (schedule E s1) (\<lambda>_. kset_level E (level E s)))"
      using True by (simp add: yield_rest_def kernel_defs kdisable_def intr_laws s1_def quiet_pause quiet_refl)
    moreover note as [OF qt]
    ultimately show ?thesis using q True live_cong [OF q(3)] by (intro exI [of _ s1]) (simp add: s1_def upd_thread_def upd_cpu_def intr_laws)
  next
    case False
    from yield_enqueues [OF ok fits] obtain h where h: "run_insert E ?c (?off s) = Inr (?off (s\<lparr>lists := h\<rparr>))"
      "run_order E (s\<lparr>lists := h\<rparr>) = ins_before (higher s) ?c (run_order E s)" "run_ok E (s\<lparr>lists := h\<rparr>)"
      "run_frame E ?c (lists s) h" by blast
    define s1 where "s1 = upd_thread ?c (status_update (\<lambda>_. THREAD_READY)) (?off (s\<lparr>lists := h\<rparr>))"
    have q: "run_order E s1 = ins_before (higher s) ?c (run_order E s)" "run_ok E s1" "elems E s1 All_list = elems E s All_list"
      using h(2-) by (simp_all add: s1_def run_frame_def)
    have "unlinked E (elem_of i) h" if "idle_thread s = Some i" for i
      using that False acc h(4) by (auto simp: accounted_def run_frame_def)
    then have "parked E s1"
      by (intro parkedI [OF inv, where st = THREAD_READY]) (use q False in \<open>auto simp: s1_def intr_laws\<close>)
    moreover have qt: "quiet E (yield_rest E ?c s) (kbind (schedule E s1) (\<lambda>_. kset_level E (level E s)))"
      using False h(1) by (simp add: yield_rest_def kernel_defs kdisable_def intr_laws s1_def quiet_pause quiet_refl)
    moreover note as [OF qt]
    ultimately show ?thesis using q False live_cong [OF q(3)] by (intro exI [of _ s1]) (simp add: s1_def upd_thread_def upd_cpu_def intr_laws)
  qed
qed

lemma block_parks:
  assumes inv: "sched_inv E s" and h: "relinked E (running s) s h"
    and idle: "Some (running s) = idle_thread s \<Longrightarrow> unlinked E (elem_of (running s)) h"
    and nint: "\<not> intr_context E (cpu s)" and off: "level E s = INTR_OFF"
  shows "\<exists>s1. parked E s1 \<and> running s1 = running s \<and> idle_thread s1 = idle_thread s \<and> thread_mlfqs s1 = thread_mlfqs s \<and>
    threads s1 = (threads s)(running s := (threads s (running s))\<lparr>status := THREAD_BLOCKED\<rparr>) \<and>
    run_order E s1 = run_order E s \<and> live E s1 = live E s \<and> quiet E (thread_block E (s\<lparr>lists := h\<rparr>)) (schedule E s1)"
proof -
  let ?c = "running s"
  have cpu: "on_cpu s" by (rule sched_inv_on_cpu [OF inv])
  have acc: "accounted E s" and ok: "run_ok E s" using inv by (simp_all add: sched_inv_def accounted_def)
  define s1 where "s1 = upd_thread ?c (status_update (\<lambda>_. THREAD_BLOCKED)) (s\<lparr>lists := h\<rparr>)"
  have q: "run_order E s1 = run_order E s" "run_ok E s1" "elems E s1 All_list = elems E s All_list"
    using relinked_run [OF h ok] h by (simp_all add: s1_def relinked_def)
  have "unlinked E (elem_of i) h" if "idle_thread s = Some i" for i
    using that idle h acc by (cases "i = ?c") (auto simp: accounted_def relinked_def)
  then have "parked E s1"
    by (intro parkedI [OF inv, where st = THREAD_BLOCKED]) (use q off in \<open>auto simp: s1_def\<close>)
  moreover have "quiet E (thread_block E (s\<lparr>lists := h\<rparr>)) (schedule E s1)"
    using cpu nint off by (simp add: thread_block_def kernel_defs s1_def on_cpu_def quiet_pause quiet_refl)
  ultimately show ?thesis using q live_cong [OF q(3)] by (intro exI [of _ s1]) (simp add: s1_def upd_thread_def)
qed

lemma exit_parks:
  assumes inv: "sched_inv E s" and idle: "Some (running s) \<noteq> idle_thread s" and nint: "\<not> intr_context E (cpu s)"
  shows "\<exists>s1. parked E s1 \<and> running s1 = running s \<and> idle_thread s1 = idle_thread s \<and> thread_mlfqs s1 = thread_mlfqs s \<and>
    threads s1 = (threads s)(running s := (threads s (running s))\<lparr>status := THREAD_DYING\<rparr>) \<and>
    run_order E s1 = run_order E s \<and> live E s1 = live E s - {running s} \<and> intr_context E (cpu s1) = intr_context E (cpu s) \<and>
    quiet E (exit_rest E s) (kbind (schedule E s1) (\<lambda>_ s. Panic Not_reached)) \<and>
    runs_as (thread_exit E s) (kbind (schedule E s1) (\<lambda>_ s. Panic Not_reached))"
proof -
  let ?c = "running s"
  let ?h = "list_remove E (allelem_of ?c) (lists s)"
  have cpu: "on_cpu s" by (rule sched_inv_on_cpu [OF inv])
  have acc: "accounted E s" and ok: "run_ok E s" and un: "unlinked E (elem_of ?c) (lists s)"
    and a: "allelem_of ?c \<in> set (elems E s All_list)"
    using inv by (simp_all add: sched_inv_def accounted_def live_def)
  note once = run_ok_linked [OF ok] and el = elems_remove_once [OF run_ok_linked [OF ok] a]
  define s1 where "s1 = upd_thread ?c (status_update (\<lambda>_. THREAD_DYING))
    (upd_lists (list_remove E (allelem_of ?c)) (upd_cpu (\<lambda>i. snd (intr_disable E i)) s))"
  have q: "run_order E s1 = run_order E s" "run_ok E s1"
    using run_queue_remove_other [OF _ ok a] ok by (simp_all add: s1_def upd_lists_def upd_set_lists)
  have live: "live E s1 = live E s - {?c}" and all: "set (elems E s1 All_list) \<subseteq> set (elems E s All_list)"
    using once by (auto simp: live_def s1_def el set_remove1_eq linked_once_def)
  have un': "unlinked E e ?h" if "unlinked E e (lists s)" for e
    using that set_remove1_subset [of "allelem_of ?c"] by (fastforce simp: unlinked_def el)
  have "?c \<notin> set (run_order E s)" using queued_linked [OF ok, of ?c] un by auto
  then have "accounted E s1"
    using acc q idle un' all unfolding accounted_def live by (auto simp: s1_def)
  moreover have "\<forall>t \<in> live E s1. status (threads s1 t) \<noteq> THREAD_RUNNING"
    using inv unfolding live by (auto simp: sched_inv_def s1_def)
  ultimately have "parked E s1" by (simp add: parked_def) (simp add: s1_def intr_laws)
  moreover have qt: "quiet E (exit_rest E s) (kbind (schedule E s1) (\<lambda>_ s. Panic Not_reached))"
    using cpu by (simp add: exit_rest_def kernel_defs kdisable_def s1_def on_cpu_def intr_laws quiet_pause quiet_refl)
  moreover have "runs_as (thread_exit E s) (kbind (schedule E s1) (\<lambda>_ s. Panic Not_reached))"
    using runs_as_pause [of "exit_rest E" s] quiet_runs_as [OF qt] by (simp add: yield_exit_rest [OF cpu nint])
  ultimately show ?thesis using q live by (intro exI [of _ s1]) (simp add: s1_def upd_thread_def upd_cpu_def intr_laws)
qed

end

section \<open>Steps\<close>

text \<open>Thread \<open>p\<close> has switched to \<open>n\<close>, which goes on in \<open>thread_schedule_tail\<close>.\<close>

definition switch_to ::
    "('l, 'i, 'p) externs \<Rightarrow> thread_ptr \<Rightarrow> thread_ptr \<Rightarrow> ('l, 'i, 'p) kstate \<Rightarrow> ('l, 'i, 'p) kstate res" where
  "switch_to E p n s = thread_schedule_tail E (Some p) (s\<lparr>running := n\<rparr>)"

text \<open>New priorities that leave the run queue in order: the ready list is still sorted, the threads of the 64 queues are still on
  the queue of their priority.\<close>

definition in_order :: "('l, 'i, 'p) externs \<Rightarrow> ('l, 'i, 'p) kstate \<Rightarrow> ('l, 'i, 'p) kstate \<Rightarrow> bool" where
  "in_order E s s' \<longleftrightarrow>
    (if thread_mlfqs s then \<forall>t \<in> set (run_order E s). priority (threads s' t) = priority (threads s t)
     else sorted_wrt (\<lambda>t u. priority (threads s' u) \<le> priority (threads s' t)) (run_order E s))"

text \<open>Code outside of the scheduler that keeps the rules: it may change any data but those of the scheduler, and priorities
  as long as the run queue stays in order.\<close>

definition untouched :: "('l, 'i, 'p) externs \<Rightarrow> ('l, 'i, 'p) kstate \<Rightarrow> ('l, 'i, 'p) kstate \<Rightarrow> bool" where
  "untouched E s s' \<longleftrightarrow> running s' = running s \<and> idle_thread s' = idle_thread s \<and> thread_mlfqs s' = thread_mlfqs s \<and>
    linked_once E (lists s') \<and> (\<forall>l. run_list l \<or> l = All_list \<longrightarrow> elems E s' l = elems E s l) \<and>
    (\<forall>u. unlinked E (elem_of u) (lists s) \<longrightarrow> unlinked E (elem_of u) (lists s')) \<and>
    in_order E s s' \<and>
    (\<forall>t \<in> live E s. status (threads s' t) = status (threads s t) \<and> magic (threads s' t) = magic (threads s t) \<and>
      (priority (threads s' t) = priority (threads s t) \<or>
        (thread_mlfqs s \<longrightarrow> PRI_MIN \<le> priority (threads s' t) \<and> priority (threads s' t) \<le> PRI_MAX)))"

inductive sched_step :: "('l, 'i, 'p) externs \<Rightarrow> ('l, 'i, 'p) kstate \<Rightarrow> ('l, 'i, 'p) kstate \<Rightarrow> bool"
  for E :: "('l, 'i, 'p) externs" where
  step_keep: "returns (thread_yield E s) () s' \<Longrightarrow> sched_step E s s'"
| step_yield: "switches (thread_yield E s) p n s1 r \<Longrightarrow> switch_to E p n s1 = Inr s' \<Longrightarrow> sched_step E s s'"
| step_block: "relinked E (running s) s h \<Longrightarrow>
    (if Some (running s) = idle_thread s then unlinked E (elem_of (running s)) h else True) \<Longrightarrow>
    switches (thread_block E (s\<lparr>lists := h\<rparr>)) p n s1 r \<Longrightarrow> switch_to E p n s1 = Inr s' \<Longrightarrow> sched_step E s s'"
| step_idle: "returns (thread_block E s) () s' \<Longrightarrow> sched_step E s s'"
| step_exit: "Some (running s) \<noteq> idle_thread s \<Longrightarrow> switches (thread_exit E s) p n s1 r \<Longrightarrow> switch_to E p n s1 = Inr s' \<Longrightarrow>
    sched_step E s s'"
| step_unblock: "relinked E t s h \<Longrightarrow> unlinked E (elem_of t) h \<Longrightarrow> t \<in> live E s \<Longrightarrow> Some t \<noteq> idle_thread s \<Longrightarrow>
    (if thread_mlfqs s then mlfqs_inputs_ok (threads s t) else True) \<Longrightarrow>
    thread_unblock E t (s\<lparr>lists := h\<rparr>) = Inr s' \<Longrightarrow> sched_step E s s'"
| step_create: "unlinked E (allelem_of t) (lists s) \<Longrightarrow> unlinked E (elem_of t) (lists s) \<Longrightarrow>
    mlfqs_inputs_ok (threads s (running s)) \<Longrightarrow> init_thread E t nm prio s = Inr s' \<Longrightarrow> sched_step E s s'"
| step_tick: "thread_tick E s = Inr s' \<Longrightarrow> sched_step E s s'"
| step_recalculate: "thread_mlfqs s \<Longrightarrow> \<forall>t \<in> live E s. mlfqs_inputs_ok (threads s t) \<Longrightarrow>
    mlfqs_update_priority_all E s = Inr s' \<Longrightarrow> sched_step E s s'"
| step_become_idle: "idle_thread s = None \<Longrightarrow> sched_step E s (s\<lparr>idle_thread := Some (running s)\<rparr>)"
| step_other: "untouched E s s' \<Longrightarrow> sched_step E s s'"

lemma switched_in_fields [simp]:
  "idle_thread (switched_in E prev s) = idle_thread s" "thread_mlfqs (switched_in E prev s) = thread_mlfqs s"
  by (simp_all add: switched_in_def Let_def)

lemma dispatched_order:
  assumes "dispatched E n s h" and "lists s' = h" "thread_mlfqs s' = thread_mlfqs s"
  shows "run_order E s' = tl (run_order E s)"
  using assms run_order_cong [of s' "s\<lparr>lists := h\<rparr>" E] by (simp add: dispatched_def)

text \<open>The processor has gone from the parked state \<open>s\<close> to thread \<open>n\<close>.\<close>

definition handed_over ::
    "('l, 'i, 'p) externs \<Rightarrow> ('l, 'i, 'p) kstate \<Rightarrow> thread_ptr \<Rightarrow> ('l, 'i, 'p) kstate \<Rightarrow> bool" where
  "handed_over E s n s' \<longleftrightarrow> sched_inv E s' \<and> running s' = n \<and> run_order E s' = tl (run_order E s) \<and>
    threads s' = (threads s)(n := (threads s n)\<lparr>status := THREAD_RUNNING\<rparr>) \<and> cpu s' = cpu s \<and>
    idle_thread s' = idle_thread s \<and> thread_mlfqs s' = thread_mlfqs s"

lemma sched_inv_cpu [simp]: "sched_inv E (upd_cpu f s) = sched_inv E s"
  by (simp add: sched_inv_def accounted_def live_def)

context kernel_env
begin

lemma schedule_done:
  assumes p: "parked E s1" and d: "schedule E s1 = Done u s2"
  shows "handed_over E s1 (running s1) s2 \<and> run_next E s1 = Some (running s1)"
proof -
  from schedule_parked [OF p] d obtain h where h: "dispatched E (running s1) s1 h"
    "s2 = (upd_thread (running s1) (status_update (\<lambda>_. THREAD_RUNNING)) (s1\<lparr>lists := h\<rparr>))\<lparr>thread_ticks := 0\<rparr>"
    by (auto split: option.splits if_splits)
  from dispatched_inv [OF p h(1), of s2] dispatched_order [OF h(1), of s2] h show ?thesis
    by (simp add: handed_over_def dispatched_def)
qed

lemma schedule_switch:
  assumes p: "parked E s1" and d: "schedule E s1 = Switch q n s2 r" and s': "switch_to E q n s2 = Inr s'"
  shows "handed_over E s1 n s' \<and> q = running s1 \<and> n \<noteq> q \<and> run_next E s1 = Some n"
proof -
  from schedule_parked [OF p] d obtain h where h: "dispatched E n s1 h" "q = running s1" "n \<noteq> q" "s2 = s1\<lparr>lists := h\<rparr>"
    by (auto split: option.splits if_splits)
  have "level E s2 = INTR_OFF" using p by (simp add: parked_def h(4))
  then have "s' = switched_in E q (s2\<lparr>running := n\<rparr>)"
    using s' thread_schedule_tail_switched [of E "s2\<lparr>running := n\<rparr>" q] h(3) by (simp add: switch_to_def)
  with dispatched_inv [OF p h(1), of s'] dispatched_order [OF h(1), of s'] h show ?thesis
    by (simp add: handed_over_def dispatched_def)
qed

text \<open>The two ways a call of \<open>schedule\<close> that only restores the interrupt level afterwards can end.\<close>

lemma switches_schedule:
  assumes p: "parked E s1" and sw: "switches (kbind (schedule E s1) f) q n s2 r"
    and f: "\<And>s q n s' r. \<not> switches (f () s) q n s' r"
  shows "\<exists>r'. schedule E s1 = Switch q n s2 r'"
  using schedule_parked [OF p] sw f by (auto split: option.splits if_splits)

lemma returns_schedule:
  assumes p: "parked E s1" and rt: "returns (kbind (schedule E s1) f) v s'"
  shows "\<exists>s2. schedule E s1 = Done () s2 \<and> returns (f () s2) v s'"
  using schedule_parked [OF p] rt by (auto split: option.splits if_splits)

lemma yield_keep_inv:
  assumes inv: "sched_inv E s" and nint: "\<not> intr_context E (cpu s)" and rt: "returns (thread_yield E s) () s'"
  shows "sched_inv E s' \<and> running s' = running s \<and> thread_mlfqs s' = thread_mlfqs s"
proof -
  from yield_parks [OF inv nint] obtain s1 where s1: "parked E s1" "running s1 = running s" "thread_mlfqs s1 = thread_mlfqs s"
    "runs_as (thread_yield E s) (kbind (schedule E s1) (\<lambda>_. kset_level E (level E s)))" by blast
  with rt have "returns (kbind (schedule E s1) (\<lambda>_. kset_level E (level E s))) () s'" by (simp add: runs_as_def)
  from returns_schedule [OF s1(1) this] obtain s2 where "schedule E s1 = Done () s2" "s' = upd_cpu (intr_set_level E (level E s)) s2"
    by (auto simp: kset_level_def kmodify_def)
  with schedule_done [OF s1(1), of "()" s2] s1(2,3) show ?thesis by (simp add: handed_over_def)
qed

lemma yield_switch_inv:
  assumes inv: "sched_inv E s" and nint: "\<not> intr_context E (cpu s)" and sw: "switches (thread_yield E s) p n s1 r"
    and s': "switch_to E p n s1 = Inr s'"
  shows "sched_inv E s' \<and> running s' = n \<and> thread_mlfqs s' = thread_mlfqs s"
proof -
  from yield_parks [OF inv nint] obtain s2 where s2: "parked E s2"
    "thread_mlfqs s2 = thread_mlfqs s" "runs_as (thread_yield E s) (kbind (schedule E s2) (\<lambda>_. kset_level E (level E s)))" by blast
  with sw have "switches (kbind (schedule E s2) (\<lambda>_. kset_level E (level E s))) p n s1 r" by (simp add: runs_as_def)
  from switches_schedule [OF s2(1) this] obtain r' where "schedule E s2 = Switch p n s1 r'"
    by (auto simp: kset_level_def kmodify_def)
  from schedule_switch [OF s2(1) this s'] s2(2) show ?thesis by (simp add: handed_over_def)
qed

lemma not_in_handler:
  "switches (thread_yield E s) p n s1 r \<Longrightarrow> \<not> intr_context E (cpu s)"
  "returns (thread_yield E s) v s' \<Longrightarrow> \<not> intr_context E (cpu s)"
  "switches (thread_block E s) p n s1 r \<Longrightarrow> \<not> intr_context E (cpu s) \<and> level E s = INTR_OFF"
  "returns (thread_block E s) v s' \<Longrightarrow> \<not> intr_context E (cpu s) \<and> level E s = INTR_OFF"
  "switches (thread_exit E s) p n s1 r \<Longrightarrow> \<not> intr_context E (cpu s)"
  by (auto simp: thread_yield_def thread_block_def thread_exit_def kernel_defs split: sum.splits if_splits)

lemma block_switch_inv:
  assumes inv: "sched_inv E s" and h: "relinked E (running s) s h"
    and idle: "Some (running s) = idle_thread s \<Longrightarrow> unlinked E (elem_of (running s)) h"
    and sw: "switches (thread_block E (s\<lparr>lists := h\<rparr>)) p n s1 r" and s': "switch_to E p n s1 = Inr s'"
  shows "sched_inv E s' \<and> running s' = n \<and> thread_mlfqs s' = thread_mlfqs s"
proof -
  from not_in_handler(3) [OF sw] have "\<not> intr_context E (cpu s)" "level E s = INTR_OFF" by simp_all
  from block_parks [OF inv h idle this] obtain s2 where s2: "parked E s2"
    "thread_mlfqs s2 = thread_mlfqs s" "runs_as (thread_block E (s\<lparr>lists := h\<rparr>)) (schedule E s2)" using quiet_runs_as by blast
  with sw have "switches (schedule E s2) p n s1 r" by (simp add: runs_as_def)
  then have "schedule E s2 = Switch p n s1 r"
    using schedule_parked [OF s2(1)] by (auto split: option.splits if_splits)
  from schedule_switch [OF s2(1) this s'] s2(2) show ?thesis by (simp add: handed_over_def)
qed

lemma idle_block_inv:
  assumes inv: "sched_inv E s" and rt: "returns (thread_block E s) () s'"
  shows "sched_inv E s' \<and> thread_mlfqs s' = thread_mlfqs s"
proof -
  from not_in_handler(4) [OF rt] have off: "\<not> intr_context E (cpu s)" "level E s = INTR_OFF" by simp_all
  have "relinked E (running s) s (lists s)" "unlinked E (elem_of (running s)) (lists s)"
    using inv run_ok_linked [of E s] by (auto simp: relinked_def sched_inv_def accounted_def)
  from block_parks [OF inv this off] obtain s2 where s2: "parked E s2" "thread_mlfqs s2 = thread_mlfqs s" "runs_as (thread_block E s) (schedule E s2)"
    using quiet_runs_as by auto
  with rt have "returns (schedule E s2) () s'" by (simp add: runs_as_def)
  then have "schedule E s2 = Done () s'"
    using schedule_parked [OF s2(1)] by (auto split: option.splits if_splits)
  from schedule_done [OF s2(1) this] s2(2) show ?thesis by (simp add: handed_over_def)
qed

lemma exit_switch_inv:
  assumes inv: "sched_inv E s" and idle: "Some (running s) \<noteq> idle_thread s"
    and sw: "switches (thread_exit E s) p n s1 r" and s': "switch_to E p n s1 = Inr s'"
  shows "sched_inv E s' \<and> running s' = n \<and> thread_mlfqs s' = thread_mlfqs s"
proof -
  from exit_parks [OF inv idle not_in_handler(5) [OF sw]] obtain s2 where s2: "parked E s2"
    "thread_mlfqs s2 = thread_mlfqs s" "runs_as (thread_exit E s) (kbind (schedule E s2) (\<lambda>_ s. Panic Not_reached))" by blast
  with sw have "switches (kbind (schedule E s2) (\<lambda>_ s. Panic Not_reached)) p n s1 r" by (simp add: runs_as_def)
  from switches_schedule [OF s2(1) this] obtain r' where "schedule E s2 = Switch p n s1 r'" by auto
  from schedule_switch [OF s2(1) this s'] s2(2) show ?thesis by (simp add: handed_over_def)
qed

end

section \<open>Every step keeps the invariant\<close>

text \<open>A step that neither changes who runs nor how often the other threads are accounted for.\<close>

lemma sched_invI:
  assumes inv: "sched_inv E s" and run: "running s' = running s" "idle_thread s' = idle_thread s" "thread_mlfqs s' = thread_mlfqs s"
    and ok: "run_ok E s'" and q: "set (run_order E s') = set (run_order E s)" and all: "elems E s' All_list = elems E s All_list"
    and un: "\<And>t. unlinked E (elem_of t) (lists s) \<Longrightarrow> unlinked E (elem_of t) (lists s')"
    and th: "\<And>t. t \<in> live E s \<Longrightarrow> status (threads s' t) = status (threads s t) \<and> magic (threads s' t) = magic (threads s t)"
    and pr: "\<And>t. t \<in> live E s \<Longrightarrow> thread_mlfqs s \<Longrightarrow> PRI_MIN \<le> priority (threads s' t) \<and> priority (threads s' t) \<le> PRI_MAX"
  shows "sched_inv E s'"
  using inv ok th pr un by (auto simp: sched_inv_def accounted_def live_cong [OF all] all run q)

context kernel_env
begin

lemma tick_inv:
  assumes inv: "sched_inv E s" and s': "thread_tick E s = Inr s'"
  shows "sched_inv E s'"
proof -
  have eq: "running s' = running s" "idle_thread s' = idle_thread s" "thread_mlfqs s' = thread_mlfqs s" "lists s' = lists s"
    "\<forall>t. status (threads s' t) = status (threads s t) \<and> magic (threads s' t) = magic (threads s t) \<and>
      priority (threads s' t) = priority (threads s t)"
    using s' by (auto simp: thread_tick_def res_simps Let_def upd_thread_def upd_cpu_def split: if_splits)
  have ok: "run_ok E s" using inv by (simp add: sched_inv_def accounted_def)
  show ?thesis
    by (rule sched_invI [OF inv])
      (use eq ok inv run_ok_cong [of s' s E] run_order_cong [of s' s E] in \<open>auto simp: sched_inv_def accounted_def\<close>)
qed

lemma in_orderI:
  assumes "run_ok E s" and "\<And>t. t \<in> set (run_order E s) \<Longrightarrow> priority (threads s' t) = priority (threads s t)"
  shows "in_order E s s'"
proof -
  have "sorted_wrt (\<lambda>t u. priority (threads s' u) \<le> priority (threads s' t)) (run_order E s)"
    using run.ok_sorted [OF assms(1)] assms(2)
    by (elim sorted_wrt_mono_rel [rotated]) (auto simp: higher_def not_less)
  then show ?thesis using assms(2) by (simp add: in_order_def)
qed

lemma run_ok_in_order:
  assumes ok: "run_ok E s" and o: "in_order E s s'" and once: "linked_once E (lists s')"
    and el: "\<And>l. run_list l \<Longrightarrow> elems E s' l = elems E s l" and mode: "thread_mlfqs s' = thread_mlfqs s"
  shows "run_ok E s'"
proof (cases "thread_mlfqs s")
  case True
  have "priority (threads s' (list_entry e)) = priority (threads s (list_entry e))"
    if "e \<in> set (elems E s (Mlfqs_list i))" "i \<in> {PRI_MIN..PRI_MAX}" for e i
    using o that True by (auto simp: in_order_def run_order_def mlfqs_queue_def)
  with True ok once show ?thesis by (auto simp: run_ok_def mlfqs_ok_def mlfqs_queues_ok_def mode el)
next
  case False
  with ok o once show ?thesis
    by (simp add: run_ok_def ready_ok_def mode el in_order_def run_order_def sorted_less_priority ready_queue_def higher_def not_less)
qed

lemma other_inv:
  assumes inv: "sched_inv E s" and u: "untouched E s s'"
  shows "sched_inv E s'"
proof -
  have acc: "accounted E s" and ok: "run_ok E s" using inv by (simp_all add: sched_inv_def accounted_def)
  have once: "linked_once E (lists s')" and el: "\<And>l. run_list l \<Longrightarrow> elems E s' l = elems E s l"
    and mode: "thread_mlfqs s' = thread_mlfqs s" using u by (simp_all add: untouched_def)
  note fr = run_queue_frame [OF once run_ok_linked [OF ok] el]
  have q: "run_order E s' = run_order E s" using fr(1) run_order_cong [of s' "s\<lparr>lists := lists s'\<rparr>" E] mode by simp
  have "run_ok E s'" using run_ok_in_order [OF ok _ once el mode] u by (simp add: untouched_def)
  moreover have "thread_mlfqs s \<Longrightarrow> t \<in> live E s \<Longrightarrow> PRI_MIN \<le> priority (threads s' t) \<and> priority (threads s' t) \<le> PRI_MAX" for t
    using u acc by (auto simp: untouched_def accounted_def)
  ultimately show ?thesis
    by (intro sched_invI [OF inv]) (use u q in \<open>auto simp: untouched_def\<close>)
qed

lemma become_idle_inv:
  assumes inv: "sched_inv E s" and none: "idle_thread s = None"
  shows "sched_inv E (s\<lparr>idle_thread := Some (running s)\<rparr>)"
proof -
  let ?s = "s\<lparr>idle_thread := Some (running s)\<rparr>"
  have "run_order E ?s = run_order E s" "run_ok E ?s = run_ok E s" by (rule run_order_cong run_ok_cong; simp)+
  then show ?thesis using inv none by (auto simp: sched_inv_def accounted_def live_def)
qed

lemma unblock_inv:
  assumes inv: "sched_inv E s" and h: "relinked E t s h" "unlinked E (elem_of t) h" and t: "t \<in> live E s"
    and idle: "Some t \<noteq> idle_thread s" and inputs: "thread_mlfqs s \<Longrightarrow> mlfqs_inputs_ok (threads s t)"
    and s': "thread_unblock E t (s\<lparr>lists := h\<rparr>) = Inr s'"
  shows "sched_inv E s' \<and> thread_mlfqs s' = thread_mlfqs s"
proof -
  let ?s = "s\<lparr>lists := h\<rparr>"
  have acc: "accounted E s" and ok: "run_ok E s" using inv by (simp_all add: sched_inv_def accounted_def)
  note rel = relinked_run [OF h(1) ok]
  have blocked: "magic (threads s t) = THREAD_MAGIC" "status (threads s t) = THREAD_BLOCKED"
    using s' by (auto simp: thread_unblock_def Let_def ensure_eq_Inr)
  then have "unblock_ok E t ?s" using h(2) idle inputs by (simp add: unblock_ok_def wakeable_def)
  from thread_unblock_enqueues [OF this rel(2)] s' obtain h' c where
    q: "run_order E s' = ins_before (higher s') t (run_order E s)" "run_ok E s'" and
    eq: "s' = ?s\<lparr>lists := h', cpu := c, threads := (threads s)(t := readied ?s t)\<rparr>" "run_frame E t h h'"
    by (auto simp: rel(1))
  have all: "elems E s' All_list = elems E s All_list" using eq h(1) by (simp add: run_frame_def relinked_def)
  note live = live_cong [OF all]
  have c: "t \<noteq> running s" using inv t blocked by (auto simp: sched_inv_def)
  have un: "unlinked E (elem_of u) (lists s')" if "u \<noteq> t" "unlinked E (elem_of u) (lists s)" for u
    using that h(1) eq(2) by (simp add: eq(1) run_frame_def relinked_def)
  have st: "status (readied ?s t) = THREAD_READY" "magic (readied ?s t) = THREAD_MAGIC"
    and pr: "thread_mlfqs s \<Longrightarrow> PRI_MIN \<le> priority (readied ?s t) \<and> priority (readied ?s t) \<le> PRI_MAX"
    using blocked mlfqs_priority_spec_range [of "threads s t"] by (simp_all add: readied_def)
  have "accounted E s'"
    using acc q t st pr idle un unfolding accounted_def live all by (auto simp: eq(1))
  then show ?thesis using inv c un st unfolding sched_inv_def live by (auto simp: eq(1))
qed

lemma create_inv:
  assumes inv: "sched_inv E s" and a: "unlinked E (allelem_of t) (lists s)" and e: "unlinked E (elem_of t) (lists s)"
    and inputs: "mlfqs_inputs_ok (threads s (running s))" and s': "init_thread E t nm prio s = Inr s'"
  shows "sched_inv E s' \<and> thread_mlfqs s' = thread_mlfqs s"
proof -
  have acc: "accounted E s" and ok: "run_ok E s" and c: "running s \<in> live E s" using inv by (simp_all add: sched_inv_def accounted_def)
  have cpu: "on_cpu s" by (rule sched_inv_on_cpu [OF inv])
  have nt: "t \<notin> live E s" using a by (simp add: live_def unlinked_def)
  have "Some t \<noteq> idle_thread s" using acc nt by (auto simp: accounted_def)
  then have par: "parent_ok s t" using cpu inputs nt c by (auto simp: parent_ok_def)
  have prio: "PRI_MIN \<le> prio" "prio \<le> PRI_MAX" using s' by (auto simp: init_thread_def ensure_eq_Inr)
  define h where "h = list_push_back E All_list (allelem_of t) (list_init E (Locks_held t) (lists s))"
  note li = create_lists [OF ok a h_def]
  from init_thread_runs [OF prio par, of nm] s' obtain cp where
    eq: "s' = s\<lparr>lists := h, cpu := cp, threads := (threads s)(t := new_thread s t nm prio)\<rparr>"
    by (auto simp: h_def)
  have q: "run_order E s' = run_order E s" using li(3) run_order_cong [of s' "s\<lparr>lists := h\<rparr>" E] by (simp add: eq)
  have "run_ok E s' = run_ok E (s\<lparr>lists := h\<rparr>)" by (rule run_ok_cong) (use li(4) e in \<open>auto simp: eq\<close>)
  then have ok': "run_ok E s'" using li(2) by simp
  have live: "live E s' = insert t (live E s)" by (auto simp: live_def eq li(1))
  have un: "unlinked E (elem_of u) (lists s')" if "unlinked E (elem_of u) (lists s)" for u using li(4) that by (simp add: eq)
  have nq: "t \<notin> set (run_order E s)" using acc nt by (auto simp: accounted_def)
  have th: "thread_ok (new_thread s t nm prio)" by (rule new_thread_ok [OF prio par])
  have "accounted E s'"
    using acc q ok' un nq nt th unfolding accounted_def live by (auto simp: eq thread_ok_def li(1))
  then show ?thesis using inv un nt c unfolding sched_inv_def live by (auto simp: eq)
qed

lemma mset_run_order:
  assumes "thread_mlfqs s"
  shows "mset (run_order E s) = image_mset list_entry (mset (mlfqs_queued E s))"
proof -
  have "mset (concat (map g (rev is))) = mset (concat (map g is))" for g :: "int \<Rightarrow> list_elem list" and "is"
    by (induction "is") simp_all
  then show ?thesis using assms by (simp add: run_order_def mlfqs_queue_def mlfqs_queued_def mset_map del: mset_concat)
qed

lemma recalculate_runs:
  assumes inv: "sched_inv E s" and mode: "thread_mlfqs s" and inputs: "\<forall>t \<in> live E s. mlfqs_inputs_ok (threads s t)"
    and off: "level E s = INTR_OFF"
  shows "\<exists>s'. mlfqs_update_priority_all E s = Inr s' \<and> s' = s\<lparr>threads := threads s', lists := lists s'\<rparr> \<and>
    (\<forall>t. threads s' t = (if t \<in> live E s \<and> Some t \<noteq> idle_thread s
      then (threads s t)\<lparr>priority := mlfqs_priority_spec (threads s t)\<rparr> else threads s t)) \<and>
    sched_inv E s' \<and> mset (run_order E s') = mset (run_order E s) \<and>
    (\<forall>l. l \<noteq> Temp_list \<longrightarrow> l \<notin> range Mlfqs_list \<longrightarrow> elems E s' l = elems E s l)"
proof -
  have acc: "accounted E s" and ok: "run_ok E s" using inv by (simp_all add: sched_inv_def accounted_def)
  have mem: "\<forall>e \<in> set (elems E s All_list). e = allelem_of (list_entry e)"
    using acc by (auto simp: accounted_def intro: list_elem.expand)
  have entries: "list_entry ` set (elems E s All_list) = live E s"
    using mem by (force simp: live_def)
  have once: "linked_once E (lists s)" and qs: "mlfqs_queues_ok E s"
    using ok mode by (simp_all add: run_ok_def mlfqs_ok_def)
  have "\<forall>e \<in> set (mlfqs_queued E s). list_entry e \<in> set (run_order E s)"
    using mset_eq_setD [of "run_order E s" "map list_entry (mlfqs_queued E s)"] mset_run_order [OF mode] by auto
  then have q: "\<forall>e \<in> set (mlfqs_queued E s). member_of e = Elem \<and> Some (list_entry e) \<noteq> idle_thread s \<and>
      list_entry e \<in> list_entry ` set (elems E s All_list)"
    using acc qs unfolding entries by (auto simp: accounted_def mlfqs_queues_ok_def set_mlfqs_queued)
  have "\<forall>e \<in> set (elems E s All_list). mlfqs_inputs_ok (threads s (list_entry e))"
    using inputs by (simp flip: entries)
  from mlfqs_update_all_runs [OF off once this q] obtain ths h where
    run: "mlfqs_update_priority_all E s = Inr (s\<lparr>threads := ths, lists := h\<rparr>)"
    and ths: "\<forall>t. ths t = (if t \<in> live E s \<and> Some t \<noteq> idle_thread s
      then (threads s t)\<lparr>priority := mlfqs_priority_spec (threads s t)\<rparr> else threads s t)"
    and h: "linked_once E h" "mlfqs_queues_ok E (s\<lparr>threads := ths, lists := h\<rparr>)"
      "mset (mlfqs_queued E (s\<lparr>threads := ths, lists := h\<rparr>)) = mset (mlfqs_queued E s)"
      "\<forall>l. l \<noteq> Temp_list \<longrightarrow> l \<notin> range Mlfqs_list \<longrightarrow> list_elems E l h = elems E s l"
      "\<forall>e. unlinked E e (lists s) \<longrightarrow> unlinked E e h"
    unfolding entries by (elim exE conjE) (rule that)
  define s' where "s' = s\<lparr>threads := ths, lists := h\<rparr>"
  have mode': "thread_mlfqs s'" using mode by (simp add: s'_def)
  have order: "mset (run_order E s') = mset (run_order E s)"
    using h(3) unfolding mset_run_order [OF mode] mset_run_order [OF mode'] by (simp add: s'_def)
  have "run_ok E s'" using h(1,2) mode' by (simp add: run_ok_def mlfqs_ok_def s'_def)
  moreover have "PRI_MIN \<le> priority (threads s' t) \<and> priority (threads s' t) \<le> PRI_MAX" if "t \<in> live E s" for t
    using that acc mode mlfqs_priority_spec_range [of "threads s t"] by (auto simp: s'_def ths accounted_def)
  moreover have "list_elems E All_list h = elems E s All_list" using h(4) by auto
  ultimately have "sched_inv E s'"
    using mset_eq_setD [OF order] h(5) ths by (intro sched_invI [OF inv]) (auto simp: s'_def)
  with run ths order h(4) show ?thesis by (intro exI [of _ s']) (simp add: s'_def)
qed

lemma recalculate_inv:
  assumes inv: "sched_inv E s" and mode: "thread_mlfqs s" and inputs: "\<forall>t \<in> live E s. mlfqs_inputs_ok (threads s t)"
    and s': "mlfqs_update_priority_all E s = Inr s'"
  shows "sched_inv E s' \<and> thread_mlfqs s' = thread_mlfqs s"
proof -
  have "level E s = INTR_OFF"
    using s' by (auto simp: mlfqs_update_priority_all_def thread_foreach_def res_bind_def ensure_def split: sum.splits if_splits)
  from recalculate_runs [OF inv mode inputs this] s' obtain ths h where "s' = s\<lparr>threads := ths, lists := h\<rparr>" "sched_inv E s'"
    by auto
  then show ?thesis by simp
qed

lemma sched_step_keeps:
  assumes "sched_step E s s'" and inv: "sched_inv E s"
  shows "sched_inv E s' \<and> thread_mlfqs s' = thread_mlfqs s"
  using assms(1)
proof cases
  case step_keep
  then show ?thesis using yield_keep_inv [OF inv not_in_handler(2)] by blast
next
  case (step_yield p n s1 r)
  then show ?thesis using yield_switch_inv [OF inv not_in_handler(1)] by blast
next
  case (step_block h p n s1 r)
  then show ?thesis using block_switch_inv [OF inv step_block(1) _ step_block(3,4)] by simp
next
  case step_idle
  then show ?thesis by (rule idle_block_inv [OF inv])
next
  case (step_exit p n s1 r)
  then show ?thesis using exit_switch_inv [OF inv step_exit] by simp
next
  case (step_unblock t h)
  then show ?thesis by (intro unblock_inv [OF inv]) simp_all
next
  case (step_create t nm prio)
  then show ?thesis by (rule create_inv [OF inv])
next
  case step_tick
  then have "thread_mlfqs s' = thread_mlfqs s"
    by (auto simp: thread_tick_def res_simps Let_def upd_thread_def upd_cpu_def split: if_splits)
  with step_tick show ?thesis using tick_inv [OF inv] by blast
next
  case step_recalculate
  then show ?thesis by (rule recalculate_inv [OF inv])
next
  case step_become_idle
  then show ?thesis using become_idle_inv [OF inv] by simp
next
  case step_other
  then show ?thesis using other_inv [OF inv] by (simp add: untouched_def)
qed

lemmas sched_step_inv = sched_step_keeps [THEN conjunct1]

text \<open>The mode of the scheduler never changes.\<close>

lemma steps_mode:
  assumes "(sched_step E)\<^sup>*\<^sup>* s s1" and "sched_inv E s"
  shows "sched_inv E s1 \<and> thread_mlfqs s1 = thread_mlfqs s"
  using assms by induction (use sched_step_keeps in metis)+

lemma steps_inv:
  assumes "(sched_step E)\<^sup>*\<^sup>* s s1" and "sched_inv E s"
  shows "sched_inv E s1"
  using assms by induction (auto intro: sched_step_inv)

text \<open>Changes of the interrupt state and of other data are steps.\<close>

lemma other_step:
  assumes inv: "sched_inv E s" and same: "running s' = running s" "idle_thread s' = idle_thread s" "thread_mlfqs s' = thread_mlfqs s"
    "lists s' = lists s" "\<And>t. status (threads s' t) = status (threads s t) \<and> magic (threads s' t) = magic (threads s t) \<and>
      priority (threads s' t) = priority (threads s t)"
  shows "sched_step E s s'"
proof (rule step_other)
  have "run_ok E s" using inv by (simp add: sched_inv_def accounted_def)
  then show "untouched E s s'" using same in_orderI [of s s'] run_ok_linked [of E s] by (simp add: untouched_def)
qed

lemma cpu_step: "sched_inv E s \<Longrightarrow> sched_step E s (upd_cpu g s)"
  by (rule other_step) simp_all

end

section \<open>What is not a step\<close>

lemma donate_chain_frame:
  "donate_chain fr to s = Some s' \<Longrightarrow> \<exists>f. s' = s\<lparr>threads := (\<lambda>t. (threads s t)\<lparr>priority := f t\<rparr>)\<rparr>"
proof (induction rule: donate_chain.raw_induct [rotated, consumes 1, case_names turn])
  case (turn chain fr to s s')
  let ?s1 = "upd_thread to (priority_update (\<lambda>_. priority (threads s fr))) s"
  have same: "\<exists>f. s = s\<lparr>threads := (\<lambda>t. (threads s t)\<lparr>priority := f t\<rparr>)\<rparr>"
    by (rule exI [of _ "\<lambda>t. priority (threads s t)"]) simp
  have "(threads s)(to := (threads s to)\<lparr>priority := priority (threads s fr)\<rparr>) =
      (\<lambda>t. (threads s t)\<lparr>priority := ((\<lambda>t. priority (threads s t))(to := priority (threads s fr))) t\<rparr>)" by auto
  then have one: "\<exists>f. ?s1 = s\<lparr>threads := (\<lambda>t. (threads s t)\<lparr>priority := f t\<rparr>)\<rparr>"
    by (intro exI [of _ "(\<lambda>t. priority (threads s t))(to := priority (threads s fr))"]) (simp add: upd_thread_def)
  then obtain f where f: "?s1 = s\<lparr>threads := (\<lambda>t. (threads s t)\<lparr>priority := f t\<rparr>)\<rparr>" by blast
  have more: "\<exists>f. s' = s\<lparr>threads := (\<lambda>t. (threads s t)\<lparr>priority := f t\<rparr>)\<rparr>" if "chain to h ?s1 = Some s'" for h
  proof -
    from turn(1) [OF that] obtain g where g: "s' = ?s1\<lparr>threads := (\<lambda>t. (threads ?s1 t)\<lparr>priority := g t\<rparr>)\<rparr>" by blast
    have "threads ?s1 t = (threads s t)\<lparr>priority := f t\<rparr>" for t by (subst f) simp
    then show ?thesis using g by (intro exI [of _ g]) (simp add: upd_thread_def)
  qed
  have "s' = s \<or> s' = ?s1 \<or> (\<exists>h. chain to h ?s1 = Some s')"
    using turn(2) by (auto simp: Let_def split: if_splits option.splits)
  then show ?case
  proof (elim disjE exE)
    assume "s' = s"
    then show ?thesis using same by (rule ssubst)
  next
    assume "s' = ?s1"
    then show ?thesis using one by (rule ssubst)
  qed (rule more)
qed

text \<open>A donation keeps the invariant exactly when it leaves the run queue in order, and then it is a step of the machine.\<close>

context kernel_env
begin

lemma donation_keeps_invariant:
  assumes inv: "sched_inv E s" and mode: "\<not> thread_mlfqs s" and d: "donate_priority fr to s = Inr s'"
  shows "sched_inv E s' \<longleftrightarrow> in_order E s s'" "in_order E s s' \<Longrightarrow> sched_step E s s'"
proof -
  from d have "donate_chain fr to s = Some s'" by (simp add: donate_priority_def of_option_def split: option.splits)
  from donate_chain_frame [OF this] obtain f where s': "s' = s\<lparr>threads := (\<lambda>t. (threads s t)\<lparr>priority := f t\<rparr>)\<rparr>" by blast
  have ok: "run_ok E s" using inv by (simp add: sched_inv_def accounted_def)
  have step: "untouched E s s'" if "in_order E s s'"
    using that run_ok_linked [OF ok] mode by (simp add: untouched_def s')
  then show "in_order E s s' \<Longrightarrow> sched_step E s s'" by (rule step_other)
  have "run_order E s' = run_order E s" by (rule run_order_cong) (simp_all add: s')
  moreover have "sorted_wrt (\<lambda>t u. priority (threads s' u) \<le> priority (threads s' t)) (run_order E s')" if "sched_inv E s'"
    using run.ok_sorted [of s'] that by (simp add: sched_inv_def accounted_def higher_def not_less)
  ultimately show "sched_inv E s' \<longleftrightarrow> in_order E s s'"
    using other_inv [OF inv step] mode by (auto simp: in_order_def)
qed

text \<open>A thread of the feedback scheduler that has set its priority out of the range of the queues stops the kernel when it yields.\<close>

lemma yield_out_of_range:
  assumes cpu: "on_cpu s" and nint: "\<not> intr_context E (cpu s)" and idle: "Some (running s) \<noteq> idle_thread s"
    and mode: "thread_mlfqs s" and p: "priority (threads s (running s)) \<notin> {PRI_MIN..PRI_MAX}"
  shows "panics (thread_yield E s) Out_of_bounds"
  using assms by (auto simp: yield_exit_rest yield_rest_def kdisable_def kernel_defs run_insert_def mlfqs_insert_def Let_def ensure_def)

end

end
