(* ===== verification/Reachability.thy ===== *)
theory Reachability
  imports Machine
begin

text \<open>
  What holds in the states the scheduler can reach from its start by steps of the machine, in whatever order threads and
  interrupts make them: the invariant, that giving up the processor does not stop the kernel, and that threads of equal
  priority take turns.  The machine has no step for code that breaks the rules of the lists; that the restriction is needed is shown
  by \<open>donation_keeps_invariant\<close> and \<open>yield_out_of_range\<close> of \<open>Machine\<close>.
\<close>

section \<open>Rounds\<close>

text \<open>One call of \<open>thread_yield\<close> by whoever is running, and the running thread followed by the run queue.\<close>

definition yield_step :: "('l, 'i, 'p) externs \<Rightarrow> ('l, 'i, 'p) kstate \<Rightarrow> ('l, 'i, 'p) kstate \<Rightarrow> bool" where
  "yield_step E s s' \<longleftrightarrow> returns (thread_yield E s) () s' \<or>
    (\<exists>p n s1 r. switches (thread_yield E s) p n s1 r \<and> switch_to E p n s1 = Inr s')"

definition turn :: "('l, 'i, 'p) externs \<Rightarrow> ('l, 'i, 'p) kstate \<Rightarrow> thread_ptr list" where
  "turn E s = running s # run_order E s"

text \<open>All threads that want to run have the priority of the running one.\<close>

definition equals :: "('l, 'i, 'p) externs \<Rightarrow> ('l, 'i, 'p) kstate \<Rightarrow> bool" where
  "equals E s \<longleftrightarrow> \<not> intr_context E (cpu s) \<and> idle_thread s \<noteq> Some (running s) \<and>
    (\<forall>t \<in> set (run_order E s). priority (threads s t) = priority (threads s (running s)))"

section \<open>Reachable states\<close>

text \<open>What \<open>thread_init\<close> starts from: interrupts off, nothing linked that it is going to link.\<close>

definition boot_ok :: "('l, 'i, 'p) externs \<Rightarrow> ('l, 'i, 'p) kstate \<Rightarrow> bool" where
  "boot_ok E s \<longleftrightarrow> level E s = INTR_OFF \<and> \<not> intr_context E (cpu s) \<and> linked_once E (lists s) \<and>
    unlinked E (allelem_of (running s)) (lists s) \<and> unlinked E (lock_elem_of tid_lock) (lists s) \<and>
    unlinked E (elem_of (running s)) (lists s) \<and> idle_thread s = None"

inductive orderly_reachable :: "('l, 'i, 'p) externs \<Rightarrow> ('l, 'i, 'p) kstate \<Rightarrow> bool"
  for E :: "('l, 'i, 'p) externs" where
  reach_boot: "boot_ok E s0 \<Longrightarrow> returns (thread_init E s0) () s \<Longrightarrow> orderly_reachable E s"
| reach_step: "orderly_reachable E s \<Longrightarrow> sched_step E s s' \<Longrightarrow> orderly_reachable E s'"

context kernel_env
begin

lemma boot_inv:
  assumes b: "boot_ok E s0" and rt: "returns (thread_init E s0) () s"
  shows "sched_inv E s"
proof -
  from b thread_init_runs [of s0] obtain s' where s': "returns (thread_init E s0) () s'" "on_cpu s'" "running s' = running s0"
    "idle_thread s' = None" "thread_ok (threads s' (running s0))" "elems E s' All_list = [allelem_of (running s0)]"
    "run_order E s' = []" "run_ok E s'"
    and un: "\<forall>e. e \<noteq> allelem_of (running s0) \<longrightarrow> unlinked E e (lists s0) \<longrightarrow> unlinked E e (lists s')"
    by (auto simp: boot_ok_def)
  have "unlinked E (elem_of (running s0)) (lists s')" using un b by (simp add: boot_ok_def)
  moreover have "s = s'" using returns_unique [OF s'(1) rt] by simp
  ultimately show ?thesis using s' by (auto simp: sched_inv_def accounted_def live_def on_cpu_def thread_ok_def)
qed

lemma reachable_inv: "orderly_reachable E s \<Longrightarrow> sched_inv E s"
  by (induction rule: orderly_reachable.induct) (blast intro: boot_inv sched_step_inv)+

text \<open>No thread is queued twice: the front of the queue is unlinked when it is taken.\<close>

lemma distinct_run_order: "run_ok E s \<Longrightarrow> distinct (run_order E s)"
proof (induction "run_order E s" arbitrary: s)
  case (Cons t ts)
  from run.dequeue_front [OF Cons.prems Cons.hyps(2) [symmetric]] obtain h where
    h: "run_order E (s\<lparr>lists := h\<rparr>) = ts" "run_ok E (s\<lparr>lists := h\<rparr>)" "unlinked E (elem_of t) h" by blast
  then have "t \<notin> set ts" using queued_linked [OF h(2), of t] by auto
  moreover have "distinct ts" using Cons.hyps(1) [of "s\<lparr>lists := h\<rparr>"] h by simp
  ultimately show ?case by (simp flip: Cons.hyps(2))
qed (metis distinct.simps(1))

lemma sched_inv_facts:
  assumes "sched_inv E s"
  shows "on_cpu s \<and> {t \<in> live E s. status (threads s t) = THREAD_RUNNING} = {running s} \<and>
    set (run_order E s) = {t \<in> live E s. status (threads s t) = THREAD_READY \<and> Some t \<noteq> idle_thread s} \<and>
    distinct (run_order E s) \<and> sorted_wrt (\<lambda>t u. priority (threads s u) \<le> priority (threads s t)) (run_order E s) \<and>
    (\<forall>t \<in> live E s. magic (threads s t) = THREAD_MAGIC \<and> status (threads s t) \<noteq> THREAD_DYING)"
  using assms run.ok_sorted [of s] distinct_run_order [of s]
  by (auto simp: sched_inv_def accounted_def on_cpu_def higher_def not_less)

section \<open>Giving up the processor never stops the kernel\<close>

lemma schedule_not_panic:
  assumes p: "parked E s" and idle: "idle_thread s \<noteq> None"
  shows "\<not> panics (kbind (schedule E s) (\<lambda>_. kset_level E lv)) e" "\<not> panics (schedule E s) e"
  using schedule_parked [OF p] idle
  by (auto simp: run_next_def kset_level_def kmodify_def split: list.splits if_splits)

lemma no_panic:
  assumes inv: "sched_inv E s" and idle: "idle_thread s \<noteq> None" and nint: "\<not> intr_context E (cpu s)"
  shows "\<not> panics (thread_yield E s) e" "level E s = INTR_OFF \<Longrightarrow> \<not> panics (thread_block E s) e"
    "Some (running s) \<noteq> idle_thread s \<Longrightarrow> \<not> panics (thread_exit E s) e"
proof -
  from yield_parks [OF inv nint] obtain s1 where s1: "parked E s1" "idle_thread s1 = idle_thread s"
    "runs_as (thread_yield E s) (kbind (schedule E s1) (\<lambda>_. kset_level E (level E s)))" by blast
  then show "\<not> panics (thread_yield E s) e" using schedule_not_panic [OF s1(1)] idle by (simp add: runs_as_def)
next
  assume off: "level E s = INTR_OFF"
  have "relinked E (running s) s (lists s)" "unlinked E (elem_of (running s)) (lists s)"
    using inv run_ok_linked [of E s] by (auto simp: relinked_def sched_inv_def accounted_def)
  from block_parks [OF inv this nint off] obtain s1 where s1: "parked E s1" "idle_thread s1 = idle_thread s"
    "runs_as (thread_block E s) (schedule E s1)"
    using quiet_runs_as by auto
  then show "\<not> panics (thread_block E s) e" using schedule_not_panic [OF s1(1)] idle by (simp add: runs_as_def)
next
  assume run: "Some (running s) \<noteq> idle_thread s"
  from exit_parks [OF inv run nint] obtain s1 where s1: "parked E s1" "running s1 = running s" "idle_thread s1 = idle_thread s"
    "live E s1 = live E s - {running s}" "runs_as (thread_exit E s) (kbind (schedule E s1) (\<lambda>_ s. Panic Not_reached))" by blast
  have "run_next E s1 \<noteq> Some (running s)"
    using s1(1,3,4) run by (auto simp: run_next_def parked_def accounted_def split: list.splits)
  then have "\<not> panics (kbind (schedule E s1) (\<lambda>_ s. Panic Not_reached)) e"
    using schedule_parked [OF s1(1)] idle s1(2,3) by (auto simp: run_next_def split: list.splits if_splits)
  then show "\<not> panics (thread_exit E s) e" using s1(5) by (simp add: runs_as_def)
qed

section \<open>Taking turns\<close>

text \<open>One call of \<open>thread_yield\<close> by whoever is running.\<close>

lemma yield_step_inv:
  assumes "yield_step E s s'" and "sched_inv E s"
  shows "sched_inv E s'"
  using assms sched_step_inv by (auto simp: yield_step_def intro: sched_step.step_keep sched_step.step_yield)

text \<open>A round among threads of one priority: who runs now, followed by the run queue.\<close>

lemma yield_rotates:
  assumes inv: "sched_inv E s" and r: "equals E s"
  shows "\<exists>s'. yield_step E s s'" and "yield_step E s s' \<Longrightarrow> equals E s' \<and> turn E s' = rotate1 (turn E s) \<and> thread_mlfqs s' = thread_mlfqs s"
proof -
  let ?c = "running s" and ?m = "\<lambda>s1. kbind (schedule E s1) (\<lambda>_. kset_level E (level E s))"
  have nint: "\<not> intr_context E (cpu s)" and idle: "idle_thread s \<noteq> Some ?c"
    and eq: "\<forall>t \<in> set (run_order E s). priority (threads s t) = priority (threads s ?c)"
    using r by (simp_all add: equals_def)
  from yield_parks [OF inv nint] obtain s1 where s1: "parked E s1" "running s1 = ?c" "idle_thread s1 = idle_thread s"
    "thread_mlfqs s1 = thread_mlfqs s" "threads s1 = (threads s)(?c := (threads s ?c)\<lparr>status := THREAD_READY\<rparr>)"
    "run_order E s1 = ins_before (higher s) ?c (run_order E s)" "intr_context E (cpu s1) = intr_context E (cpu s)"
    and run: "runs_as (thread_yield E s) (?m s1)"
    using idle by auto
  have "ins_before (higher s) ?c (run_order E s) = run_order E s @ [?c]"
    using ins_before_append [of "run_order E s" "higher s" ?c "[]"] eq by (simp add: higher_def)
  then have q: "run_order E s1 = run_order E s @ [?c]" using s1(6) by simp
  define n where "n = hd (run_order E s @ [?c])"
  have nxt: "run_next E s1 = Some n" by (cases "run_order E s") (simp_all add: run_next_def q n_def)
  have over: "equals E s2 \<and> turn E s2 = rotate1 (turn E s) \<and> thread_mlfqs s2 = thread_mlfqs s"
    if h: "handed_over E s1 n s2" for s2
  proof -
    have pr: "priority (threads s2 t) = priority (threads s t)" for t using h s1(5) by (simp add: handed_over_def)
    have n: "n = ?c \<or> n \<in> set (run_order E s)" by (cases "run_order E s") (simp_all add: n_def)
    have o: "set (run_order E s2) \<subseteq> insert ?c (set (run_order E s))"
      using h q by (cases "run_order E s") (auto simp: handed_over_def)
    have "n \<noteq> i" if "idle_thread s = Some i" for i
      using that n idle sched_inv_facts [OF inv] by auto
    then have "equals E s2"
      using h s1 nint n o eq pr by (auto simp: equals_def handed_over_def)
    then show ?thesis using h q s1(4) by (simp add: turn_def handed_over_def n_def)
  qed
  have other: "equals E (upd_cpu (intr_set_level E lv) s2) \<longleftrightarrow> equals E s2"
    "turn E (upd_cpu (intr_set_level E lv) s2) = turn E s2" for lv and s2 :: "('l, 'i, 'p) kstate"
    by (simp_all add: equals_def turn_def intr_laws)
  show "equals E s' \<and> turn E s' = rotate1 (turn E s) \<and> thread_mlfqs s' = thread_mlfqs s" if "yield_step E s s'"
    using that unfolding yield_step_def
  proof (elim disjE exE conjE)
    assume "returns (thread_yield E s) () s'"
    then have "returns (?m s1) () s'" using run by (simp add: runs_as_def)
    from returns_schedule [OF s1(1) this] obtain s2 where d: "schedule E s1 = Done () s2"
      and s': "s' = upd_cpu (intr_set_level E (level E s)) s2" by (auto simp: kset_level_def kmodify_def)
    have "handed_over E s1 n s2" using schedule_done [OF s1(1) d] nxt by auto
    from over [OF this] show ?thesis by (simp add: s' other)
  next
    fix p n' s2 r assume "switches (thread_yield E s) p n' s2 r" and s': "switch_to E p n' s2 = Inr s'"
    then have "switches (?m s1) p n' s2 r" using run by (simp add: runs_as_def)
    from switches_schedule [OF s1(1) this] obtain r' where d: "schedule E s1 = Switch p n' s2 r'"
      by (auto simp: kset_level_def kmodify_def)
    have "handed_over E s1 n s'" using schedule_switch [OF s1(1) d s'] nxt by auto
    from over [OF this] show ?thesis .
  qed
  from schedule_parked [OF s1(1)] nxt obtain h where d: "schedule E s1 = (if n = running s1
      then Done () ((upd_thread n (status_update (\<lambda>_. THREAD_RUNNING)) (s1\<lparr>lists := h\<rparr>))\<lparr>thread_ticks := 0\<rparr>)
      else Switch (running s1) n (s1\<lparr>lists := h\<rparr>) (\<lambda>prev. katomic (thread_schedule_tail E (Some prev))))" by auto
  show "\<exists>s'. yield_step E s s'"
  proof (cases "n = running s1")
    case True
    then show ?thesis using d run by (auto simp: yield_step_def runs_as_def kset_level_def kmodify_def)
  next
    case False
    have "switch_to E (running s1) n (s1\<lparr>lists := h\<rparr>) = Inr (switched_in E (running s1) (s1\<lparr>lists := h, running := n\<rparr>))"
      using False s1(1) thread_schedule_tail_switched [of E "s1\<lparr>lists := h, running := n\<rparr>" "running s1"]
      by (simp add: switch_to_def parked_def)
    then show ?thesis using False d run by (auto simp: yield_step_def runs_as_def)
  qed
qed

lemma yields_rotate:
  assumes "sched_inv E s" and "equals E s"
  shows "(\<exists>s'. (yield_step E ^^ k) s s') \<and> (\<forall>s'. (yield_step E ^^ k) s s' \<longrightarrow> sched_inv E s' \<and> equals E s' \<and>
    turn E s' = rotate k (turn E s))"
proof (induction k)
  case (Suc k)
  then obtain s1 where s1: "(yield_step E ^^ k) s s1" "sched_inv E s1" "equals E s1" by blast
  from yield_rotates(1) [OF s1(2,3)] obtain s2 where "yield_step E s1 s2" by blast
  with s1(1) have "(yield_step E ^^ Suc k) s s2" by auto
  moreover have "sched_inv E s' \<and> equals E s' \<and> turn E s' = rotate (Suc k) (turn E s)" if "(yield_step E ^^ Suc k) s s'" for s'
  proof -
    from that obtain u where u: "(yield_step E ^^ k) s u" "yield_step E u s'" by auto
    with Suc have "sched_inv E u" "equals E u" "turn E u = rotate k (turn E s)" by blast+
    with yield_rotates(2) [OF _ _ u(2)] yield_step_inv [OF u(2)] show ?thesis by simp
  qed
  ultimately show ?case by blast
qed (use assms in auto)

end

section \<open>The guarantees\<close>

text \<open>C1. As long as the kernel keeps the rules of the scheduler's lists after \<open>thread_init\<close>, in whatever order threads and interrupt handlers
  make their steps, exactly one of the threads on the list of all threads is marked as running, the one that runs; the run queue
  holds the threads that are ready, each once, except the idle thread, in the order of their priorities; no dying thread is left
  on the list, and no stack has overwritten its thread's magic number.  The rules (\<open>orderly_reachable\<close>) leave out what the code does in
  three cases: a \<open>lock_acquire\<close> of a held lock, which puts \<open>elem\<close> in two lists; a donation that puts the ready list out of order, by raising
  a ready thread above one queued before it; and, under the feedback scheduler, new priorities of queued threads outside of the
  recalculation, priorities outside of the range of the queues, and values of \<open>nice\<close> and \<open>recent_cpu\<close> for which the formula
  overflows.  A donation that leaves the ready list in order is included.\<close>

theorem scheduler_invariant:
  assumes "kernel_env E" and "orderly_reachable E s"
  shows "on_cpu s \<and> {t \<in> live E s. status (threads s t) = THREAD_RUNNING} = {running s} \<and>
    set (run_order E s) = {t \<in> live E s. status (threads s t) = THREAD_READY \<and> Some t \<noteq> idle_thread s} \<and>
    distinct (run_order E s) \<and> sorted_wrt (\<lambda>t u. priority (threads s u) \<le> priority (threads s t)) (run_order E s) \<and>
    (\<forall>t \<in> live E s. magic (threads s t) = THREAD_MAGIC \<and> status (threads s t) \<noteq> THREAD_DYING)"
  by (rule kernel_env.sched_inv_facts [OF assms(1) kernel_env.reachable_inv [OF assms]])

text \<open>C5. In every state with an idle thread that is reached by steps that keep the rules of the scheduler's lists (in the sense of C1: no
  contended \<open>lock_acquire\<close>, no donation that puts the ready list out of order, and under the feedback scheduler no priority outside of
  the range of the queues), a thread outside of an interrupt handler can yield, block (with interrupts off) and, unless it is the
  idle thread, exit without any of the assertions on the way failing: there is always a thread to switch to, and it is a proper
  one.\<close>

theorem scheduler_never_stuck:
  assumes "kernel_env E" and "orderly_reachable E s" and "idle_thread s \<noteq> None" and "\<not> intr_context E (cpu s)"
  shows "\<not> panics (thread_yield E s) e \<and> (level E s = INTR_OFF \<longrightarrow> \<not> panics (thread_block E s) e) \<and>
    (Some (running s) \<noteq> idle_thread s \<longrightarrow> \<not> panics (thread_exit E s) e)"
  using kernel_env.no_panic [OF assms(1) kernel_env.reachable_inv [OF assms(1,2)] assms(3,4)] by blast

text \<open>C4. Round robin: in a state reached in this way, when all ready threads have the priority of the running one, \<open>k\<close> calls of \<open>thread_yield\<close>, each by the thread that runs
  then, go through, and bring the processor to the thread at position \<open>k\<close> of the round that starts with the running thread
  and continues with the queue.  So each of \<open>n\<close> waiting threads runs within \<open>n\<close> yields, and the first
  one again after one more.\<close>

theorem round_robin:
  assumes "kernel_env E" and "orderly_reachable E s" and "equals E s"
  shows "(\<exists>s'. (yield_step E ^^ k) s s') \<and>
    (\<forall>s'. (yield_step E ^^ k) s s' \<longrightarrow> running s' = turn E s ! (k mod length (turn E s)) \<and>
      run_order E s' = tl (rotate k (turn E s)))"
proof -
  have rot: "(\<exists>s'. (yield_step E ^^ k) s s') \<and> (\<forall>s'. (yield_step E ^^ k) s s' \<longrightarrow> turn E s' = rotate k (turn E s))"
    using kernel_env.yields_rotate [OF assms(1) kernel_env.reachable_inv [OF assms(1,2)] assms(3), of k] by blast
  have "hd (rotate k (turn E s)) = turn E s ! (k mod length (turn E s))" by (rule hd_rotate_conv_nth) (simp add: turn_def)
  moreover have "running s' = hd (turn E s')" "run_order E s' = tl (turn E s')" for s' by (simp_all add: turn_def)
  ultimately show ?thesis using rot by metis
qed

section \<open>Example\<close>

text \<open>After the boot the thread \<open>main\<close> creates a thread at address 8192, which becomes ready.\<close>

definition boot_example :: ref_kstate where
  "boot_example = (ref_state False INTR_OFF (\<lambda>_. ref_thread THREAD_BLOCKED 0) (\<lambda>_. []))\<lparr>idle_thread := None\<rparr>"

lemma boot_example_ok: "boot_ok ref_externs boot_example"
  by (simp add: boot_ok_def boot_example_def linked_once_def unlinked_def)

lemma boot_example_runs:
  "\<exists>s. orderly_reachable ref_externs s \<and> running s = 1 \<and> run_order ref_externs s = [8192] \<and> idle_thread s = None \<and>
    priority (threads s 8192) = priority (threads s 1) \<and> \<not> intr_context ref_externs (cpu s) \<and> \<not> thread_mlfqs s"
proof -
  from boot_example_ok ref.thread_init_runs [of boot_example] obtain s where init: "returns (thread_init ref_externs boot_example) () s"
    and s: "running s = 1" "run_order ref_externs s = []" "priority (threads s 1) = PRI_DEFAULT" "\<not> thread_mlfqs s" "idle_thread s = None"
      "run_ok ref_externs s" and inputs: "mlfqs_inputs_ok (threads s 1)"
    and all: "elems ref_externs s All_list = [allelem_of 1]" and ctx: "\<not> intr_context ref_externs (cpu s)"
    and un: "\<And>e. e \<noteq> allelem_of 1 \<Longrightarrow> unlinked ref_externs e (lists s)"
    by (auto simp: boot_ok_def boot_example_def unlinked_def thread_ok_def)
  note r0 = orderly_reachable.reach_boot [OF boot_example_ok init]
  have par: "parent_ok s 8192" and pri: "PRI_MIN \<le> PRI_DEFAULT" "PRI_DEFAULT \<le> PRI_MAX" using s by (simp_all add: parent_ok_def kernel_consts)
  define h where "h = list_push_back ref_externs All_list (allelem_of 8192) (list_init ref_externs (Locks_held 8192) (lists s))"
  from ref.init_thread_runs [OF pri par, of "''worker''", folded h_def] obtain c where
    c: "init_thread ref_externs 8192 ''worker'' PRI_DEFAULT s = Inr (s\<lparr>lists := h, cpu := c,
      threads := (threads s)(8192 := new_thread s 8192 ''worker'' PRI_DEFAULT)\<rparr>)" "\<not> intr_context ref_externs c"
    using ctx by auto
  define s1 where "s1 = s\<lparr>lists := h, cpu := c, threads := (threads s)(8192 := new_thread s 8192 ''worker'' PRI_DEFAULT)\<rparr>"
  have "sched_step ref_externs s s1"
    using un s inputs c(1) by (intro sched_step.step_create [where t = 8192 and nm = "''worker''" and prio = PRI_DEFAULT])
      (simp_all add: s1_def)
  with r0 have r1: "orderly_reachable ref_externs s1" by (rule orderly_reachable.reach_step)
  have "unlinked ref_externs (allelem_of 8192) (lists s)" by (rule un) simp
  note li = ref.create_lists [OF s(6) this h_def]
  have un1: "unlinked ref_externs (elem_of 8192) (lists s1)" using li(4) un by (simp add: s1_def)
  have inv1: "sched_inv ref_externs s1" by (rule ref.reachable_inv [OF r1])
  have new: "thread_ok (new_thread s 8192 ''worker'' PRI_DEFAULT)" by (rule new_thread_ok [OF pri par])
  have live: "8192 \<in> live ref_externs s1" by (simp add: live_def s1_def li(1) del: ref_externs_simps)
  have q1: "run_order ref_externs s1 = []" using li(3) s(2) run_order_cong [of s1 "s\<lparr>lists := h\<rparr>" ref_externs] by (simp add: s1_def)
  have "unblock_ok ref_externs 8192 s1" using un1 new s by (simp add: unblock_ok_def wakeable_def s1_def)
  from ref.thread_unblock_enqueues [OF this] inv1 obtain s2 h2 c2 where s2: "thread_unblock ref_externs 8192 s1 = Inr s2"
    "run_order ref_externs s2 = [8192]" "s2 = s1\<lparr>lists := h2, cpu := c2, threads := (threads s1)(8192 := readied s1 8192)\<rparr>"
    "intr_context ref_externs c2 = intr_context ref_externs (cpu s1)"
    by (auto simp: q1 sched_inv_def accounted_def)
  have "relinked ref_externs 8192 s1 (lists s1)" using inv1 run_ok_linked by (auto simp: relinked_def sched_inv_def accounted_def)
  moreover have "idle_thread s1 = None" "mlfqs_inputs_ok (threads s1 8192)" using s new by (simp_all add: s1_def thread_ok_def)
  ultimately have "sched_step ref_externs s1 s2"
    using un1 live s2(1) by (intro sched_step.step_unblock [where t = 8192 and h = "lists s1"]) simp_all
  with r1 have "orderly_reachable ref_externs s2" by (rule orderly_reachable.reach_step)
  moreover have "priority (new_thread s 8192 ''worker'' PRI_DEFAULT) = PRI_DEFAULT" using s by (simp add: new_thread_def)
  ultimately show ?thesis using s2(2,4) c(2) s
    by (intro exI [of _ s2]) (simp add: s2(3), simp add: s1_def readied_def)
qed

theorem scheduler_invariant_witness:
  "\<exists>s. orderly_reachable ref_externs s \<and> run_order ref_externs s = [8192] \<and>
    {t \<in> live ref_externs s. status (threads s t) = THREAD_RUNNING} = {1} \<and> status (threads s 8192) = THREAD_READY"
proof -
  from boot_example_runs obtain s where s: "orderly_reachable ref_externs s" "running s = 1" "run_order ref_externs s = [8192]" by blast
  with scheduler_invariant [OF ref.kernel_env_axioms s(1)] show ?thesis by (intro exI [of _ s]) auto
qed

theorem scheduler_never_stuck_witness:
  "\<exists>s. orderly_reachable ref_externs s \<and> running s = 1 \<and> idle_thread s = Some 1 \<and> run_order ref_externs s = [8192] \<and>
    (\<forall>e. \<not> panics (thread_yield ref_externs s) e)"
proof -
  from boot_example_runs obtain s where s: "orderly_reachable ref_externs s" "running s = 1" "run_order ref_externs s = [8192]"
    "idle_thread s = None" "\<not> intr_context ref_externs (cpu s)" by blast
  let ?s = "s\<lparr>idle_thread := Some (running s)\<rparr>"
  have r: "orderly_reachable ref_externs ?s"
    by (rule orderly_reachable.reach_step [OF s(1) sched_step.step_become_idle [OF s(4)]])
  have "run_order ref_externs ?s = run_order ref_externs s" by (rule run_order_cong) simp_all
  then show ?thesis using scheduler_never_stuck [OF ref.kernel_env_axioms r] s r by (intro exI [of _ ?s]) simp
qed

theorem round_robin_witness:
  "\<exists>s s'. orderly_reachable ref_externs s \<and> running s = 1 \<and> (yield_step ref_externs ^^ 3) s s' \<and> running s' = 8192"
proof -
  from boot_example_runs obtain s where s: "orderly_reachable ref_externs s" "running s = 1" "run_order ref_externs s = [8192]"
    "equals ref_externs s" by (auto simp: equals_def)
  have "(3 :: nat) mod Suc (Suc 0) = 1" by presburger
  with round_robin [OF ref.kernel_env_axioms s(1,4), of 3] s show ?thesis by (auto simp: turn_def)
qed

end
