(* ===== verification/Advanced_Timer.thy ===== *)
theory Advanced_Timer
  imports Machine Timer
begin

text \<open>
  The timer interrupt under the multi-level feedback queue scheduler: besides what it does under the priority scheduler,
  every fourth tick recalculates the priorities and tests for preemption, and every second \<open>recent_cpu\<close> and \<open>load_avg\<close> are
  brought up to date, in this order.  Each part keeps the invariant of \<open>Machine\<close>.
\<close>

section \<open>Waking\<close>

text \<open>The due threads exist, and the idle thread is not among them.\<close>

definition wakes_live :: "('l, 'i, 'p) externs \<Rightarrow> int \<Rightarrow> ('l, 'i, 'p) kstate \<Rightarrow> bool" where
  "wakes_live E now s \<longleftrightarrow> (\<forall>e \<in> set (elems E s Sleep_list). due s now e \<longrightarrow>
    list_entry e \<in> live E s \<and> Some (list_entry e) \<noteq> idle_thread s)"

context kernel_env
begin

lemma ticked_steps:
  assumes inv: "sched_inv E s" and tk: "ticks_ok 1 s"
  shows "(sched_step E)\<^sup>*\<^sup>* s (ticked E s)"
proof -
  have "sched_step E s (s\<lparr>ticks := ticks s + 1\<rparr>)" by (rule other_step [OF inv]) simp_all
  moreover have "sched_step E (s\<lparr>ticks := ticks s + 1\<rparr>) (ticked E s)"
    by (rule step_tick) (rule thread_tick_ticked [OF sched_inv_on_cpu [OF inv] tk])
  ultimately show ?thesis by (meson converse_rtranclp_into_rtranclp r_into_rtranclp)
qed

text \<open>The loop that wakes the due threads makes one step for each of them.\<close>

lemma wake_loop_steps:
  assumes "elems E s Sleep_list = es" and "wake_ready E now s" and "wakes_live E now s" and "sched_inv E s"
  shows "\<exists>s'. returns (kwhile (sleeper_due E now) (wake_sleeper E) s) () s' \<and> (sched_step E)\<^sup>*\<^sup>* s s'"
  using assms
proof (induction es arbitrary: s)
  case Nil
  then show ?case by (intro exI [of _ s]) (auto simp: sleeper_due_def list_empty_iff intro: returns_kwhileI)
next
  case (Cons e es)
  have sl: "sleepers_ok E s" using Cons.prems by (simp add: wake_ready_def)
  show ?case
  proof (cases "sleeper_due E now s")
    case False
    then show ?thesis by (intro exI [of _ s]) (auto intro: returns_kwhileI)
  next
    case True
    with sleeper_due_front [OF sl True] Cons.prems(1) have d: "due s now e" by simp
    let ?t = "list_entry e" and ?h = "snd (list_pop_front E Sleep_list (lists s))"
    from wake_turn [OF Cons.prems(2,1) d] obtain s1 where run: "returns (wake_sleeper E s) () s1"
      and ub: "thread_unblock E ?t (s\<lparr>lists := ?h\<rparr>) = Inr s1" and ready: "wake_ready E now s1"
      and es: "elems E s1 Sleep_list = es" and all: "elems E s1 All_list = elems E s All_list"
      and eq: "s1 = s\<lparr>lists := lists s1, cpu := cpu s1, threads := (threads s)(?t := readied s ?t)\<rparr>" by blast
    have ok: "unblock_ok E ?t s" and live: "?t \<in> live E s" and idle: "Some ?t \<noteq> idle_thread s"
      using Cons.prems(1-3) d by (simp_all add: wake_ready_def wakes_live_def)
    have "e = sleep_elem_of ?t" using Cons.prems(1) sl by (cases e) (simp add: sleepers_ok_def)
    then have front: "elems E s Sleep_list = sleep_elem_of ?t # es" using Cons.prems(1) by simp
    have once: "linked_once E (lists s)" using Cons.prems(2) run_ok_linked by (auto simp: wake_ready_def)
    have un: "unlinked E (elem_of u) ?h = unlinked E (elem_of u) (lists s)" for u
      by (rule unlinked_pop_front_other [OF front]) simp
    have "relinked E ?t s ?h" "unlinked E (elem_of ?t) ?h"
      using linked_once_pop_front [OF once front] elems_pop_front [OF front] un ok
      by (auto simp: relinked_def unblock_ok_def)
    from step_unblock [OF this live idle _ ub] ok have st: "sched_step E s s1" by (simp add: unblock_ok_def wakeable_def)
    have th: "threads s1 = (threads s)(?t := readied s ?t)" "idle_thread s1 = idle_thread s" by (subst eq, simp)+
    have "wakes_live E now s1"
      using Cons.prems(1,3) live_cong [OF all] by (auto simp: wakes_live_def es th due_def readied_def split: if_splits)
    from Cons.IH [OF es ready this sched_step_inv [OF st Cons.prems(4)]] obtain s' where
      "returns (kwhile (sleeper_due E now) (wake_sleeper E) s1) () s'" "(sched_step E)\<^sup>*\<^sup>* s1 s'" by blast
    moreover from this(2) have "(sched_step E)\<^sup>*\<^sup>* s s'" by (rule converse_rtranclp_into_rtranclp [of "sched_step E", OF st])
    ultimately show ?thesis
      using run True returns_kwhileI [of "sleeper_due E now" s "wake_sleeper E"] by auto
  qed
qed

lemma wakeup_steps:
  assumes inv: "sched_inv E s" and ready: "wake_ready E (ticks s) s" and live: "wakes_live E (ticks s) s"
  shows "\<exists>s'. returns (timer_wakeup E s) () s' \<and> (sched_step E)\<^sup>*\<^sup>* s s'"
proof -
  define s0 where "s0 = upd_cpu (\<lambda>i. intr_set_level E (level E s) (snd (intr_disable E i))) s"
  have st: "sched_step E s s0" unfolding s0_def by (rule cpu_step [OF inv])
  have "wakeup_less s0 = wakeup_less s" "due s0 now = due s now" for now
    by (simp_all add: wakeup_less_def Let_def due_def s0_def fun_eq_iff)
  then have "wake_ready E (ticks s) s0" "wakes_live E (ticks s) s0"
    using ready live by (simp_all add: wake_ready_def wakes_live_def s0_def intr_laws sleepers_ok_def unblock_ok_def wakeable_def live_def)
  from wake_loop_steps [OF refl this sched_step_inv [OF st inv]] obtain s' where
    "returns (kwhile (sleeper_due E (ticks s)) (wake_sleeper E) s0) () s'" "(sched_step E)\<^sup>*\<^sup>* s0 s'" by blast
  moreover from this(2) have "(sched_step E)\<^sup>*\<^sup>* s s'" by (rule converse_rtranclp_into_rtranclp [of "sched_step E", OF st])
  ultimately show ?thesis by (intro exI [of _ s']) (simp add: timer_wakeup_def kticks_def timer_ticks_eq kpause_def s0_def)
qed

text \<open>The handler up to the end of the wake-up routine, in either mode.\<close>

lemma tick_wake_steps:
  assumes inv: "sched_inv E s" and tk: "ticks_ok 1 s" and i: "is_i64 (ticks s + 1)" and ctx: "intr_context E (cpu s)"
    and sl: "sleepers_ok E s"
    and u: "\<forall>e \<in> set (elems E s Sleep_list). due s (ticks s + 1) e \<longrightarrow>
      unblock_ok E (list_entry e) s \<and> list_entry e \<in> live E s \<and> Some (list_entry e) \<noteq> idle_thread s"
  shows "\<exists>s1. woken E (ticks s + 1) (ticked E s) s1 \<and> (sched_step E)\<^sup>*\<^sup>* s s1 \<and>
    (\<forall>m s''. returns (m s1) () s'' \<longrightarrow> returns (kthen (kmodify (\<lambda>s. s\<lparr>ticks := i64 (ticks s + 1)\<rparr>))
      (kthen (katomic (thread_tick E)) (kthen (timer_wakeup E) m)) s) () s'')"
proof -
  have cpu: "on_cpu s" by (rule sched_inv_on_cpu [OF inv])
  have ok: "run_ok E s" using inv by (simp add: sched_inv_def accounted_def)
  have u': "\<forall>e \<in> set (elems E s Sleep_list). due s (ticks s + 1) e \<longrightarrow> unblock_ok E (list_entry e) s" using u by blast
  obtain s1 where run: "returns (timer_wakeup E (ticked E s)) () s1" and w: "woken E (ticks s + 1) (ticked E s) s1"
    and m: "\<forall>m s''. returns (m s1) () s'' \<longrightarrow> returns (kthen (kmodify (\<lambda>s. s\<lparr>ticks := i64 (ticks s + 1)\<rparr>))
      (kthen (katomic (thread_tick E)) (kthen (timer_wakeup E) m)) s) () s''"
    using tick_wakes [OF cpu tk i ctx ok sl u'] by blast
  note st = ticked_steps [OF inv tk]
  have due: "due (ticked E s) now = due s now" for now by (simp add: due_def fun_eq_iff)
  have "wakeup_less (ticked E s) = wakeup_less s" by (simp add: wakeup_less_def Let_def fun_eq_iff)
  moreover have "run_ok E (ticked E s)" using steps_inv [OF st inv] by (simp add: sched_inv_def accounted_def)
  ultimately have "wake_ready E (ticks (ticked E s)) (ticked E s)" "wakes_live E (ticks (ticked E s)) (ticked E s)"
    using u unblock_ok_ticked(1) [OF cpu] ctx sl
    by (simp_all add: wake_ready_def wakes_live_def due sleepers_ok_def ticked_cpu live_def)
  from wakeup_steps [OF steps_inv [OF st inv] this] obtain s' where
    s': "returns (timer_wakeup E (ticked E s)) () s'" "(sched_step E)\<^sup>*\<^sup>* (ticked E s) s'" by blast
  have "s' = s1" using returns_unique [OF run s'(1)] by simp
  with s'(2) st have "(sched_step E)\<^sup>*\<^sup>* s s1" by (simp add: rtranclp_trans)
  with w m show ?thesis by blast
qed

text \<open>The whole handler under the priority scheduler.\<close>

lemma priority_interrupt_steps:
  assumes mode: "\<not> thread_mlfqs s" and inv: "sched_inv E s" and tk: "ticks_ok 1 s" and i: "is_i64 (ticks s + 1)"
    and ctx: "intr_context E (cpu s)" and sl: "sleepers_ok E s"
    and u: "\<forall>e \<in> set (elems E s Sleep_list). due s (ticks s + 1) e \<longrightarrow>
      unblock_ok E (list_entry e) s \<and> list_entry e \<in> live E s \<and> Some (list_entry e) \<noteq> idle_thread s"
  shows "\<exists>s'. returns (timer_interrupt E s) () s' \<and> (sched_step E)\<^sup>*\<^sup>* s s'"
proof -
  from tick_wake_steps [OF inv tk i ctx sl u] obtain s1 where w: "woken E (ticks s + 1) (ticked E s) s1"
    and st: "(sched_step E)\<^sup>*\<^sup>* s s1"
    and m: "\<forall>m s''. returns (m s1) () s'' \<longrightarrow> returns (kthen (kmodify (\<lambda>s. s\<lparr>ticks := i64 (ticks s + 1)\<rparr>))
      (kthen (katomic (thread_tick E)) (kthen (timer_wakeup E) m)) s) () s''" by blast
  have "\<forall>e \<in> set (elems E s Sleep_list). due s (ticks s + 1) e \<longrightarrow> unblock_ok E (list_entry e) s" using u by blast
  from tick_result(4) [OF sched_inv_on_cpu [OF inv] this sl w] mode have "\<not> thread_mlfqs s1" by simp
  then have "returns (kif thread_mlfqs m kskip s1) () s1" for m by (simp add: kernel_defs)
  then have "returns (timer_interrupt E s) () s1" using m unfolding timer_interrupt_def kseq.simps by blast
  with st show ?thesis by blast
qed

end

section \<open>Every second\<close>

definition decays_ok :: "thread \<Rightarrow> bool" where
  "decays_ok th \<longleftrightarrow> \<bar>recent_cpu th\<bar> \<le> 2147155967 \<and> NICE_MIN \<le> nice th \<and> nice th \<le> NICE_MAX"

lemma update_recent_cpus:
  assumes "\<forall>e \<in> set es. decays_ok (threads s (list_entry e))" and "distinct (map list_entry es)"
    and "0 \<le> load_avg s" "load_avg s \<le> 65535 * F"
  shows "\<exists>ths. res_fold (\<lambda>e. mlfqs_update_recent_cpu (list_entry e)) es s = Inr (s\<lparr>threads := ths\<rparr>) \<and>
    (\<forall>t. ths t = (if t \<in> list_entry ` set es \<and> Some t \<noteq> idle_thread s
      then (threads s t)\<lparr>recent_cpu := recent_cpu_spec (load_avg s) (threads s t)\<rparr> else threads s t))"
  using assms
proof (induction es arbitrary: s)
  case Nil
  then show ?case by (intro exI [of _ "threads s"]) simp
next
  case (Cons e es)
  define t where "t = list_entry e"
  define s1 where "s1 = (if Some t = idle_thread s then s
    else upd_thread t (recent_cpu_update (\<lambda>_. recent_cpu_spec (load_avg s) (threads s t))) s)"
  have first: "mlfqs_update_recent_cpu t s = Inr s1"
    using Cons.prems mlfqs_update_recent_cpu_eq [of t s]
    by (auto simp: s1_def t_def decays_ok_def mlfqs_update_recent_cpu_def)
  have fresh: "t \<notin> list_entry ` set es" using Cons.prems(2) by (simp add: t_def)
  have s1: "idle_thread s1 = idle_thread s" "load_avg s1 = load_avg s" "u \<noteq> t \<Longrightarrow> threads s1 u = threads s u" for u
    by (simp_all add: s1_def)
  have "\<forall>e \<in> set es. decays_ok (threads s1 (list_entry e))" using Cons.prems(1) fresh s1(3) by (metis image_eqI list.set_intros(2))
  then obtain ths where "res_fold (\<lambda>e. mlfqs_update_recent_cpu (list_entry e)) es s1 = Inr (s1\<lparr>threads := ths\<rparr>)"
    and ths: "\<And>u. ths u = (if u \<in> list_entry ` set es \<and> Some u \<noteq> idle_thread s
      then (threads s1 u)\<lparr>recent_cpu := recent_cpu_spec (load_avg s) (threads s1 u)\<rparr> else threads s1 u)"
    using Cons.IH [of s1] Cons.prems by (auto simp: s1)
  moreover have "s1\<lparr>threads := ths\<rparr> = s\<lparr>threads := ths\<rparr>" by (simp add: s1_def upd_thread_def)
  ultimately have "res_fold (\<lambda>e. mlfqs_update_recent_cpu (list_entry e)) (e # es) s = Inr (s\<lparr>threads := ths\<rparr>)"
    using first by (simp add: t_def)
  moreover have "ths u = (if u \<in> list_entry ` set (e # es) \<and> Some u \<noteq> idle_thread s
      then (threads s u)\<lparr>recent_cpu := recent_cpu_spec (load_avg s) (threads s u)\<rparr> else threads s u)" for u
    using fresh by (subst ths) (auto simp: s1_def simp flip: t_def)
  ultimately show ?case by blast
qed

text \<open>The number of threads that want to run, the running one included.\<close>

definition demand :: "('l, 'i, 'p) externs \<Rightarrow> ('l, 'i, 'p) kstate \<Rightarrow> int" where
  "demand E s = int (length (run_order E s)) + (if Some (running s) = idle_thread s then 0 else 1)"

definition load_avg_spec :: "int \<Rightarrow> int \<Rightarrow> int" where
  "load_avg_spec la r = (16110 * la) div F + 273 * r"

lemma load_avg_spec_bounds:
  assumes "0 \<le> la" and "la \<le> N * F" and "0 \<le> r" and "r \<le> N"
  shows "0 \<le> load_avg_spec la r \<and> load_avg_spec la r \<le> N * F"
proof -
  have "(16110 * la) div 16384 \<le> 16110 * N"
    using assms(2) zdiv_mono1 [of "16110 * la" "16110 * N * 16384" 16384] by simp
  moreover have "0 \<le> (16110 * la) div 16384" using assms(1) by (simp add: pos_imp_zdiv_nonneg_iff)
  ultimately show ?thesis using assms by (simp add: load_avg_spec_def)
qed

context kernel_env
begin

lemma rcpu_la_runs:
  assumes inv: "sched_inv E s" and mode: "thread_mlfqs s" and off: "level E s = INTR_OFF"
    and dec: "\<forall>t \<in> live E s. decays_ok (threads s t)" and la: "0 \<le> load_avg s" "load_avg s \<le> N * F"
    and n: "demand E s \<le> N" "N \<le> 65535"
  shows "\<exists>s'. mlfqs_update_rcpu_la E s = Inr s' \<and> s' = s\<lparr>threads := threads s', load_avg := load_avg_spec (load_avg s) (demand E s)\<rparr> \<and>
    (\<forall>t. threads s' t = (if t \<in> live E s \<and> Some t \<noteq> idle_thread s
      then (threads s t)\<lparr>recent_cpu := recent_cpu_spec (load_avg s) (threads s t)\<rparr> else threads s t)) \<and> sched_inv E s'"
proof -
  have acc: "accounted E s" and ok: "run_ok E s" using inv by (simp_all add: sched_inv_def accounted_def)
  have mem: "e = allelem_of (list_entry e)" if "e \<in> set (elems E s All_list)" for e
    using acc that by (auto simp: accounted_def intro: list_elem.expand)
  have entries: "list_entry ` set (elems E s All_list) = live E s" using mem by (force simp: live_def)
  have "distinct (elems E s All_list)" using run_ok_linked [OF ok] by (simp add: linked_once_def)
  then have dist: "distinct (map list_entry (elems E s All_list))"
    by (simp add: distinct_map inj_on_def) (metis mem)
  have "\<forall>e \<in> set (elems E s All_list). decays_ok (threads s (list_entry e))" using dec by (simp flip: entries)
  moreover have "N * F \<le> 65535 * F" using n(2) by simp
  then have "load_avg s \<le> 65535 * F" using la(2) by linarith
  ultimately obtain ths where step: "res_fold (\<lambda>e. mlfqs_update_recent_cpu (list_entry e)) (elems E s All_list) s =
      Inr (s\<lparr>threads := ths\<rparr>)"
    and ths: "\<And>t. ths t = (if t \<in> live E s \<and> Some t \<noteq> idle_thread s
      then (threads s t)\<lparr>recent_cpu := recent_cpu_spec (load_avg s) (threads s t)\<rparr> else threads s t)"
    using update_recent_cpus [OF _ dist la(1)] unfolding entries by blast
  define s1 where "s1 = s\<lparr>threads := ths\<rparr>"
  have len: "length (mlfqs_queued E s1) = length (run_order E s)"
    using arg_cong [OF mset_run_order [OF mode], of size] by (simp add: s1_def mlfqs_queued_def)
  have short: "length (run_order E s) < 2147483647" using n by (simp add: demand_def split: if_splits)
  have "on_cpu s1" using sched_inv_on_cpu [OF inv] by (simp add: on_cpu_def s1_def ths)
  then have ready: "mlfqs_ready_threads E s1 = Inr (demand E s)"
    using mlfqs_ready_threads_counts [OF list_lib_axioms, of s1] short by (simp add: len demand_def) (simp add: s1_def)
  have "mlfqs_update_load_avg E s1 = Inr (s1\<lparr>load_avg := load_avg_spec (load_avg s) (demand E s)\<rparr>)"
    using mlfqs_update_load_avg_eq [OF ready, of N] la n by (simp add: s1_def load_avg_spec_def demand_def)
  then have run: "mlfqs_update_rcpu_la E s = Inr (s1\<lparr>load_avg := load_avg_spec (load_avg s) (demand E s)\<rparr>)"
    using off step by (simp add: mlfqs_update_rcpu_la_def thread_foreach_def s1_def)
  have "untouched E s (s1\<lparr>load_avg := load_avg_spec (load_avg s) (demand E s)\<rparr>)"
    using run_ok_linked [OF ok] by (auto simp: untouched_def s1_def ths intro: in_orderI [OF ok])
  from other_inv [OF inv this] run show ?thesis
    by (intro exI [of _ "s1\<lparr>load_avg := load_avg_spec (load_avg s) (demand E s)\<rparr>"]) (simp add: s1_def ths)
qed

end

section \<open>The two periodic parts of the handler\<close>

definition fourth_tick :: "('l, 'i, 'p) externs \<Rightarrow> (('l, 'i, 'p) kstate, unit) kernel" where
  "fourth_tick E = kticks E (\<lambda>t. if t smod 4 = 0
    then kseq [katomic (mlfqs_update_priority_all E), mlfqs_check_preemption E] else kskip)"

definition each_second :: "('l, 'i, 'p) externs \<Rightarrow> (('l, 'i, 'p) kstate, unit) kernel" where
  "each_second E = kticks E (\<lambda>t. if t smod TIMER_FREQ = 0 then katomic (mlfqs_update_rcpu_la E) else kskip)"

text \<open>What the handler may rely on once the due threads are awake.\<close>

definition in_handler :: "('l, 'i, 'p) externs \<Rightarrow> ('l, 'i, 'p) kstate \<Rightarrow> bool" where
  "in_handler E s \<longleftrightarrow> sched_inv E s \<and> thread_mlfqs s \<and> level E s = INTR_OFF \<and> intr_context E (cpu s)"

definition same_time :: "('l, 'i, 'p) externs \<Rightarrow> ('l, 'i, 'p) kstate \<Rightarrow> ('l, 'i, 'p) kstate \<Rightarrow> bool" where
  "same_time E s s' \<longleftrightarrow> ticks s' = ticks s \<and> running s' = running s \<and> idle_thread s' = idle_thread s \<and>
    elems E s' Sleep_list = elems E s Sleep_list \<and> live E s' = live E s \<and> mset (run_order E s') = mset (run_order E s)"

context kernel_env
begin

lemma fourth_tick_runs:
  assumes h: "in_handler E s" and inputs: "\<forall>t \<in> live E s. mlfqs_inputs_ok (threads s t)"
  shows "\<exists>s'. returns (fourth_tick E s) () s' \<and> in_handler E s' \<and> (sched_step E)\<^sup>*\<^sup>* s s' \<and> same_time E s s' \<and> load_avg s' = load_avg s \<and>
    (\<forall>t. threads s' t = (if ticks s smod 4 = 0 \<and> t \<in> live E s \<and> Some t \<noteq> idle_thread s
      then (threads s t)\<lparr>priority := mlfqs_priority_spec (threads s t)\<rparr> else threads s t)) \<and>
    (intr_yield_pending E (cpu s') \<longleftrightarrow> intr_yield_pending E (cpu s) \<or> (ticks s smod 4 = 0 \<and> preempted E s'))"
proof -
  define s0 where "s0 = upd_cpu (\<lambda>i. intr_set_level E (level E s) (snd (intr_disable E i))) s"
  have s0: "in_handler E s0" "threads s0 = threads s" "ticks s0 = ticks s" "live E s0 = live E s" "idle_thread s0 = idle_thread s"
    "running s0 = running s" "load_avg s0 = load_avg s" "elems E s0 l = elems E s l" "run_order E s0 = run_order E s"
    "intr_yield_pending E (cpu s0) = intr_yield_pending E (cpu s)" for l
    using h by (simp_all add: s0_def in_handler_def intr_laws live_def)
  have st0: "sched_step E s s0" unfolding s0_def by (rule cpu_step) (use h in \<open>simp add: in_handler_def\<close>)
  then have st0': "(sched_step E)\<^sup>*\<^sup>* s s0" by simp
  have body: "fourth_tick E s = (if ticks s smod 4 = 0
      then kseq [katomic (mlfqs_update_priority_all E), mlfqs_check_preemption E] else kskip) s0"
    by (simp add: fourth_tick_def kticks_def timer_ticks_eq s0_def kpause_def)
  show ?thesis
  proof (cases "ticks s smod 4 = 0")
    case False
    then have "returns (fourth_tick E s) () s0" by (simp add: body kskip_def)
    then show ?thesis using s0 st0' False by (intro exI [of _ s0]) (auto simp: same_time_def)
  next
    case True
    have inv: "sched_inv E s0" and mode: "thread_mlfqs s0" and off: "level E s0 = INTR_OFF" and ctx: "intr_context E (cpu s0)"
      using s0(1) by (simp_all add: in_handler_def)
    have "\<forall>t \<in> live E s0. mlfqs_inputs_ok (threads s0 t)" unfolding s0(2,4) by (rule inputs)
    from recalculate_runs [OF inv mode this off] obtain s1 where
      run: "mlfqs_update_priority_all E s0 = Inr s1" and eq: "s1 = s0\<lparr>threads := threads s1, lists := lists s1\<rparr>"
      and th: "\<forall>t. threads s1 t = (if t \<in> live E s \<and> Some t \<noteq> idle_thread s
        then (threads s t)\<lparr>priority := mlfqs_priority_spec (threads s t)\<rparr> else threads s t)"
      and inv1: "sched_inv E s1" and order: "mset (run_order E s1) = mset (run_order E s)"
      and el: "\<forall>l. l \<noteq> Temp_list \<longrightarrow> l \<notin> range Mlfqs_list \<longrightarrow> elems E s1 l = elems E s l"
      unfolding s0(2,4,5,8,9) by (elim exE conjE) (rule that)
    have s1: "cpu s1 = cpu s0" "running s1 = running s" "thread_mlfqs s1" "ticks s1 = ticks s" "idle_thread s1 = idle_thread s"
      "load_avg s1 = load_avg s" using s0 mode by (subst eq, simp)+
    have "elems E s1 All_list = elems E s All_list" "elems E s1 Sleep_list = elems E s Sleep_list" using el by auto
    then have same: "same_time E s s1" using s1 order live_cong [of E s1 s] by (simp add: same_time_def)
    have pos: "PRI_MIN \<le> priority (threads s1 (running s1))" and ok: "run_ok E s1"
      using inv1 s1(3) by (auto simp: sched_inv_def accounted_def)
    have ctx1: "intr_context E (cpu s1)" "level E s1 = INTR_OFF" using ctx off by (simp_all add: s1(1))
    define s2 where "s2 = (if preempted E s1 then upd_cpu (intr_yield_on_return E) s1 else s1)"
    have "returns (preemption_check E s1) () s2"
      using preemption_check_runs [OF sched_inv_on_cpu [OF inv1] ok pos] ctx1(1) by (simp add: s2_def)
    then have "returns (mlfqs_check_preemption E s1) () s2" using s1(3) by (simp add: preemption_check_def kernel_defs)
    then have "returns (fourth_tick E s) () s2" using True run by (simp add: body kernel_defs)
    moreover have "in_handler E s2" using inv1 s1(3) ctx1 by (simp add: in_handler_def s2_def intr_laws)
    moreover have "same_time E s s2" using same by (auto simp: same_time_def s2_def live_def)
    moreover have "preempted E s2 = preempted E s1" by (simp add: preempted_def s2_def)
    moreover have "intr_yield_pending E (cpu s2) \<longleftrightarrow> intr_yield_pending E (cpu s) \<or> preempted E s1"
      using s0 by (simp add: s2_def s1(1) intr_laws)
    moreover have "sched_step E s0 s1" by (rule step_recalculate [OF mode _ run]) (use inputs s0 in simp)
    then have "(sched_step E)\<^sup>*\<^sup>* s s1" using st0' by simp
    then have "(sched_step E)\<^sup>*\<^sup>* s s2" using cpu_step [OF inv1] by (auto simp: s2_def intro: rtranclp.rtrancl_into_rtrancl)
    ultimately show ?thesis using True th s1 by (intro exI [of _ s2]) (simp add: s2_def)
  qed
qed

lemma each_second_runs:
  assumes h: "in_handler E s" and dec: "\<forall>t \<in> live E s. decays_ok (threads s t)" and la: "0 \<le> load_avg s" "load_avg s \<le> N * F"
    and n: "demand E s \<le> N" "N \<le> 65535"
  shows "\<exists>s'. returns (each_second E s) () s' \<and> in_handler E s' \<and> (sched_step E)\<^sup>*\<^sup>* s s' \<and> same_time E s s' \<and> run_order E s' = run_order E s \<and>
    load_avg s' = (if ticks s smod TIMER_FREQ = 0 then load_avg_spec (load_avg s) (demand E s) else load_avg s) \<and>
    (\<forall>t. threads s' t = (if ticks s smod TIMER_FREQ = 0 \<and> t \<in> live E s \<and> Some t \<noteq> idle_thread s
      then (threads s t)\<lparr>recent_cpu := recent_cpu_spec (load_avg s) (threads s t)\<rparr> else threads s t)) \<and>
    intr_yield_pending E (cpu s') = intr_yield_pending E (cpu s)"
proof -
  define s0 where "s0 = upd_cpu (\<lambda>i. intr_set_level E (level E s) (snd (intr_disable E i))) s"
  have s0: "in_handler E s0" "threads s0 = threads s" "ticks s0 = ticks s" "live E s0 = live E s" "idle_thread s0 = idle_thread s"
    "running s0 = running s" "load_avg s0 = load_avg s" "elems E s0 l = elems E s l" "run_order E s0 = run_order E s"
    "intr_yield_pending E (cpu s0) = intr_yield_pending E (cpu s)" "demand E s0 = demand E s" for l
    using h by (simp_all add: s0_def in_handler_def intr_laws live_def demand_def)
  have st0: "sched_step E s s0" unfolding s0_def by (rule cpu_step) (use h in \<open>simp add: in_handler_def\<close>)
  then have st0': "(sched_step E)\<^sup>*\<^sup>* s s0" by simp
  have body: "each_second E s = (if ticks s smod TIMER_FREQ = 0 then katomic (mlfqs_update_rcpu_la E) else kskip) s0"
    by (simp add: each_second_def kticks_def timer_ticks_eq s0_def kpause_def)
  show ?thesis
  proof (cases "ticks s smod TIMER_FREQ = 0")
    case False
    then have "returns (each_second E s) () s0" by (simp add: body kskip_def)
    then show ?thesis using s0 st0' False by (intro exI [of _ s0]) (simp add: same_time_def)
  next
    case True
    have inv: "sched_inv E s0" and mode: "thread_mlfqs s0" and off: "level E s0 = INTR_OFF" and ctx: "intr_context E (cpu s0)"
      using s0(1) by (simp_all add: in_handler_def)
    have "\<forall>t \<in> live E s0. decays_ok (threads s0 t)" "0 \<le> load_avg s0" "load_avg s0 \<le> N * F" "demand E s0 \<le> N"
      unfolding s0(2,4,7,11) using dec la n by blast+
    from rcpu_la_runs [OF inv mode off this n(2)] obtain s1 where
      run: "mlfqs_update_rcpu_la E s0 = Inr s1"
      and eq: "s1 = s0\<lparr>threads := threads s1, load_avg := load_avg_spec (load_avg s) (demand E s)\<rparr>"
      and th: "\<forall>t. threads s1 t = (if t \<in> live E s \<and> Some t \<noteq> idle_thread s
        then (threads s t)\<lparr>recent_cpu := recent_cpu_spec (load_avg s) (threads s t)\<rparr> else threads s t)"
      and inv1: "sched_inv E s1" unfolding s0(2,4,5,7,11) by (elim exE conjE) (rule that)
    have s1: "cpu s1 = cpu s0" "running s1 = running s" "thread_mlfqs s1" "ticks s1 = ticks s" "idle_thread s1 = idle_thread s"
      "load_avg s1 = load_avg_spec (load_avg s) (demand E s)" "lists s1 = lists s0" using s0 mode by (subst eq, simp)+
    have order: "run_order E s1 = run_order E s"
      unfolding s0(9) [symmetric] by (rule run_order_cong) (simp_all add: s1 mode)
    have "returns (each_second E s) () s1" using True run by (simp add: body kernel_defs)
    moreover have "in_handler E s1" using inv1 s1(3) off ctx by (simp add: in_handler_def s1(1))
    moreover have "same_time E s s1" using s0 s1 order live_cong [of E s1 s0] by (simp add: same_time_def)
    moreover have "sched_step E s0 s1" by (rule other_step [OF inv]) (simp_all add: s1 s0 mode th)
    then have "(sched_step E)\<^sup>*\<^sup>* s s1" using st0' by simp
    ultimately show ?thesis using True th s1 s0 order by (intro exI [of _ s1]) simp
  qed
qed

end

section \<open>The interrupt\<close>

text \<open>What the handler starts from: interrupts off, the invariant, no overflow ahead, the due threads asleep, at most \<open>N\<close> threads
  that want to run.\<close>

definition advanced_ok :: "('l, 'i, 'p) externs \<Rightarrow> int \<Rightarrow> ('l, 'i, 'p) kstate \<Rightarrow> bool" where
  "advanced_ok E N s \<longleftrightarrow> in_handler E s \<and> ticks_ok 1 s \<and> is_i64 (ticks s + 1) \<and> sleepers_ok E s \<and>
    (\<forall>e \<in> set (elems E s Sleep_list). due s (ticks s + 1) e \<longrightarrow> unblock_ok E (list_entry e) s \<and> list_entry e \<in> live E s) \<and>
    (\<forall>t \<in> live E s. decays_ok (threads s t) \<and> decays_ok (threads (ticked E s) t)) \<and>
    0 \<le> load_avg s \<and> load_avg s \<le> N * F \<and> N \<le> 65535 \<and>
    demand E s + int (length (filter (due s (ticks s + 1)) (elems E s Sleep_list))) \<le> N"

text \<open>The data of a thread after the interrupt: woken if due or charged if running; then, every fourth tick, a new
  priority; and only then, every second, a new \<open>recent_cpu\<close>.\<close>

definition after_tick :: "('l, 'i, 'p) externs \<Rightarrow> ('l, 'i, 'p) kstate \<Rightarrow> thread_ptr \<Rightarrow> thread" where
  "after_tick E s t =
    (let th = (if sleep_elem_of t \<in> set (elems E s Sleep_list) \<and> wakeup_tick (threads s t) \<le> ticks s + 1 then readied s t
               else if t = running s then (threads s t)\<lparr>recent_cpu := recent_cpu (threads s t) + F\<rparr> else threads s t);
         th = (if (ticks s + 1) smod 4 = 0 then th\<lparr>priority := mlfqs_priority_spec th\<rparr> else th)
     in if (ticks s + 1) smod TIMER_FREQ = 0 then th\<lparr>recent_cpu := recent_cpu_spec (load_avg s) th\<rparr> else th)"

lemma decays_inputs: "decays_ok th \<Longrightarrow> mlfqs_inputs_ok th"
  by (auto simp: decays_ok_def mlfqs_inputs_ok_def is_i32_def)

lemma decays_readied: "decays_ok (threads s t) \<Longrightarrow> decays_ok (readied s t)"
  by (simp add: decays_ok_def readied_def)

lemma recent_cpu_spec_priority [simp]: "recent_cpu_spec la (priority_update f th) = recent_cpu_spec la th"
  by (simp add: recent_cpu_spec_def recent_cpu_part_def)

lemma decays_priority [simp]: "decays_ok (priority_update f th) = decays_ok th"
  by (simp add: decays_ok_def)

context kernel_env
begin

text \<open>After the due threads have been woken.\<close>

lemma advanced_woken:
  assumes h: "advanced_ok E N s"
  shows "\<exists>s1. woken E (ticks s + 1) (ticked E s) s1 \<and> in_handler E s1 \<and> (sched_step E)\<^sup>*\<^sup>* s s1 \<and> ticks s1 = ticks s + 1 \<and> running s1 = running s \<and>
    idle_thread s1 = idle_thread s \<and> live E s1 = live E s \<and> load_avg s1 = load_avg s \<and> demand E s1 \<le> N \<and>
    (\<forall>t \<in> live E s. decays_ok (threads s1 t)) \<and>
    (\<forall>t. threads s1 t = (if sleep_elem_of t \<in> set (elems E s Sleep_list) \<and> wakeup_tick (threads s t) \<le> ticks s + 1
      then readied s t else threads (ticked E s) t)) \<and>
    (\<forall>m s''. returns (m s1) () s'' \<longrightarrow> returns (kthen (kmodify (\<lambda>s. s\<lparr>ticks := i64 (ticks s + 1)\<rparr>))
      (kthen (katomic (thread_tick E)) (kthen (timer_wakeup E) m)) s) () s'')"
proof -
  have inv: "sched_inv E s" and mode: "thread_mlfqs s" and off: "level E s = INTR_OFF" and ctx: "intr_context E (cpu s)"
    and tk: "ticks_ok 1 s" and i: "is_i64 (ticks s + 1)" and sl: "sleepers_ok E s"
    and u: "\<forall>e \<in> set (elems E s Sleep_list). due s (ticks s + 1) e \<longrightarrow> unblock_ok E (list_entry e) s"
    and ul: "\<forall>e \<in> set (elems E s Sleep_list). due s (ticks s + 1) e \<longrightarrow> list_entry e \<in> live E s"
    and dec: "\<forall>t \<in> live E s. decays_ok (threads s t) \<and> decays_ok (threads (ticked E s) t)"
    and n: "demand E s + int (length (filter (due s (ticks s + 1)) (elems E s Sleep_list))) \<le> N"
    using h by (simp_all add: advanced_ok_def in_handler_def)
  have cpu: "on_cpu s" by (rule sched_inv_on_cpu [OF inv])
  have ok: "run_ok E s" using inv by (simp add: sched_inv_def accounted_def)
  have u': "\<forall>e \<in> set (elems E s Sleep_list). due s (ticks s + 1) e \<longrightarrow>
      unblock_ok E (list_entry e) s \<and> list_entry e \<in> live E s \<and> Some (list_entry e) \<noteq> idle_thread s"
    using u ul mode by (auto simp: unblock_ok_def wakeable_def)
  from tick_wake_steps [OF inv tk i ctx sl u'] obtain s1 where w: "woken E (ticks s + 1) (ticked E s) s1"
    and st: "(sched_step E)\<^sup>*\<^sup>* s s1"
    and m: "\<forall>m s''. returns (m s1) () s'' \<longrightarrow> returns (kthen (kmodify (\<lambda>s. s\<lparr>ticks := i64 (ticks s + 1)\<rparr>))
      (kthen (katomic (thread_tick E)) (kthen (timer_wakeup E) m)) s) () s''" by blast
  note res = tick_result [OF cpu u sl w]
  have same: "elems E (ticked E s) l = elems E s l" "due (ticked E s) = due s" for l
    by (simp_all add: due_def fun_eq_iff ticked_def charged_def Let_def)
  have inv1: "sched_inv E s1" by (rule steps_inv [OF st inv])
  have lev: "level E s1 = INTR_OFF" "intr_context E (cpu s1)" using w off ctx by (simp_all add: woken_def ticked_cpu)
  have "elems E s1 All_list = elems E s All_list" using w by (simp add: woken_def)
  then have live1: "live E s1 = live E s" by (rule live_cong)
  have order: "run_order E (ticked E s) = run_order E s" by (rule run_order_cong) simp_all
  have "mset (run_order E s1) = mset (run_order E s @ map list_entry (filter (due s (ticks s + 1)) (elems E s Sleep_list)))"
    using w by (simp add: woken_def same order)
  from mset_eq_length [OF this]
  have "length (run_order E s1) = length (run_order E s) + length (filter (due s (ticks s + 1)) (elems E s Sleep_list))" by simp
  then have n1: "demand E s1 \<le> N" using n res(3,5) by (simp add: demand_def)
  have "load_avg s1 = load_avg s" by (rule res(7))
  moreover have "\<forall>t \<in> live E s. decays_ok (threads s1 t)" using dec decays_readied by (auto simp: res(6))
  ultimately show ?thesis using w m st inv1 mode lev live1 n1 res by (intro exI [of _ s1]) (simp add: in_handler_def)
qed

end

lemma timer_interrupt_advanced:
  "timer_interrupt E = kseq [kmodify (\<lambda>s. s\<lparr>ticks := i64 (ticks s + 1)\<rparr>), katomic (thread_tick E), timer_wakeup E,
    kif thread_mlfqs (kthen (fourth_tick E) (each_second E)) kskip]"
  by (simp add: timer_interrupt_def fourth_tick_def each_second_def)

lemma after_tick_eq:
  assumes "on_cpu s" and "Some t \<noteq> idle_thread s" and "thread_mlfqs s"
    and "th = (if sleep_elem_of t \<in> set (elems E s Sleep_list) \<and> wakeup_tick (threads s t) \<le> ticks s + 1
      then readied s t else threads (ticked E s) t)"
  shows "after_tick E s t =
    (let th = (if (ticks s + 1) smod 4 = 0 then th\<lparr>priority := mlfqs_priority_spec th\<rparr> else th)
     in if (ticks s + 1) smod TIMER_FREQ = 0 then th\<lparr>recent_cpu := recent_cpu_spec (load_avg s) th\<rparr> else th)"
proof -
  have "threads (ticked E s) t = (if t = running s then (threads s t)\<lparr>recent_cpu := recent_cpu (threads s t) + F\<rparr> else threads s t)"
    using assms(2,3) by (auto simp: ticked_def charged_def Let_def upd_thread_def)
  then show ?thesis by (simp add: after_tick_def assms(4) Let_def)
qed

context kernel_env
begin

lemma advanced_interrupt_runs:
  assumes h: "advanced_ok E N s"
  shows "\<exists>s'. returns (timer_interrupt E s) () s' \<and> (sched_step E)\<^sup>*\<^sup>* s s' \<and> sched_inv E s' \<and> ticks s' = ticks s + 1 \<and>
    running s' = running s \<and> idle_thread s' = idle_thread s \<and>
    elems E s' Sleep_list = filter (\<lambda>e. ticks s + 1 < wakeup_tick (threads s (list_entry e))) (elems E s Sleep_list) \<and>
    mset (run_order E s') = mset (run_order E s) + mset (map list_entry (filter (due s (ticks s + 1)) (elems E s Sleep_list))) \<and>
    (\<forall>t \<in> live E s. Some t \<noteq> idle_thread s \<longrightarrow> threads s' t = after_tick E s t) \<and>
    load_avg s' = (if (ticks s + 1) smod TIMER_FREQ = 0 then load_avg_spec (load_avg s) (demand E s') else load_avg s) \<and>
    0 \<le> load_avg s' \<and> load_avg s' \<le> N * F \<and>
    (intr_yield_pending E (cpu s') \<longleftrightarrow> intr_yield_pending E (cpu s) \<or> TIME_SLICE \<le> thread_ticks s + 1 \<or>
      ((ticks s + 1) smod 4 = 0 \<and> (\<exists>t \<in> set (run_order E s'). priority (threads s' (running s)) < priority (threads s' t))))"
proof -
  have inv: "sched_inv E s" and mode: "thread_mlfqs s" and la: "0 \<le> load_avg s" "load_avg s \<le> N * F" "N \<le> 65535"
    using h by (simp_all add: advanced_ok_def in_handler_def)
  obtain s1 where w: "woken E (ticks s + 1) (ticked E s) s1" and h1: "in_handler E s1" and
    st1: "(sched_step E)\<^sup>*\<^sup>* s s1" and
    s1: "ticks s1 = ticks s + 1" "running s1 = running s" "idle_thread s1 = idle_thread s" "live E s1 = live E s" "load_avg s1 = load_avg s"
    and n1: "demand E s1 \<le> N" and dec: "\<forall>t \<in> live E s. decays_ok (threads s1 t)"
    and th1: "\<forall>t. threads s1 t = (if sleep_elem_of t \<in> set (elems E s Sleep_list) \<and> wakeup_tick (threads s t) \<le> ticks s + 1
      then readied s t else threads (ticked E s) t)"
    and m: "\<forall>m s''. returns (m s1) () s'' \<longrightarrow> returns (kthen (kmodify (\<lambda>s. s\<lparr>ticks := i64 (ticks s + 1)\<rparr>))
      (kthen (katomic (thread_tick E)) (kthen (timer_wakeup E) m)) s) () s''"
    using advanced_woken [OF h] by (elim exE conjE) (rule that)
  have "\<forall>t \<in> live E s1. mlfqs_inputs_ok (threads s1 t)" using dec decays_inputs s1(4) by blast
  from fourth_tick_runs [OF h1 this] obtain s2 where r2: "returns (fourth_tick E s1) () s2" and h2: "in_handler E s2"
    and st2: "(sched_step E)\<^sup>*\<^sup>* s1 s2"
    and same2: "same_time E s1 s2" and la2: "load_avg s2 = load_avg s1"
    and th2: "\<forall>t. threads s2 t = (if ticks s1 smod 4 = 0 \<and> t \<in> live E s1 \<and> Some t \<noteq> idle_thread s1
      then (threads s1 t)\<lparr>priority := mlfqs_priority_spec (threads s1 t)\<rparr> else threads s1 t)"
    and p2: "intr_yield_pending E (cpu s2) \<longleftrightarrow> intr_yield_pending E (cpu s1) \<or> (ticks s1 smod 4 = 0 \<and> preempted E s2)"
    by (elim exE conjE) (rule that)
  have s2: "ticks s2 = ticks s + 1" "running s2 = running s" "idle_thread s2 = idle_thread s" "live E s2 = live E s"
    using same2 s1 by (simp_all add: same_time_def)
  have "length (run_order E s2) = length (run_order E s1)" using same2 by (intro mset_eq_length) (simp add: same_time_def)
  then have n2: "demand E s2 \<le> N" using n1 s1 s2 by (simp add: demand_def)
  have dec2: "\<forall>t \<in> live E s2. decays_ok (threads s2 t)" using dec by (simp add: th2 s1 s2)
  have la': "0 \<le> load_avg s2" "load_avg s2 \<le> N * F" using la la2 s1(5) by simp_all
  from each_second_runs [OF h2 dec2 la' n2 la(3)] obtain s3 where r3: "returns (each_second E s2) () s3" and h3: "in_handler E s3"
    and st3: "(sched_step E)\<^sup>*\<^sup>* s2 s3"
    and same3: "same_time E s2 s3" and order3: "run_order E s3 = run_order E s2"
    and la3: "load_avg s3 = (if ticks s2 smod TIMER_FREQ = 0 then load_avg_spec (load_avg s2) (demand E s2) else load_avg s2)"
    and th3: "\<forall>t. threads s3 t = (if ticks s2 smod TIMER_FREQ = 0 \<and> t \<in> live E s2 \<and> Some t \<noteq> idle_thread s2
      then (threads s2 t)\<lparr>recent_cpu := recent_cpu_spec (load_avg s2) (threads s2 t)\<rparr> else threads s2 t)"
    and p3: "intr_yield_pending E (cpu s3) = intr_yield_pending E (cpu s2)"
    by (elim exE conjE) (rule that)
  have s3: "ticks s3 = ticks s + 1" "running s3 = running s" "idle_thread s3 = idle_thread s" and demand: "demand E s3 = demand E s2"
    using same3 s2 order3 by (simp_all add: same_time_def demand_def)
  have "returns (kif thread_mlfqs (kthen (fourth_tick E) (each_second E)) kskip s1) () s3"
    using h1 returns_kbindI [OF r2, of "\<lambda>_. each_second E"] r3 by (simp add: in_handler_def kernel_defs)
  then have run: "returns (timer_interrupt E s) () s3" using m unfolding timer_interrupt_advanced kseq.simps by blast
  have th: "threads s3 t = after_tick E s t" if "t \<in> live E s" "Some t \<noteq> idle_thread s" for t
    unfolding after_tick_eq [OF sched_inv_on_cpu [OF inv] that(2) mode spec [OF th1, of t]]
    using that by (simp add: th3 th2 s1 s2 la2 Let_def)
  have due: "due (ticked E s) (ticks s + 1) = due s (ticks s + 1)" by (simp add: due_def fun_eq_iff)
  have order: "run_order E (ticked E s) = run_order E s" by (rule run_order_cong) simp_all
  have q: "elems E s3 Sleep_list = filter (\<lambda>e. ticks s + 1 < wakeup_tick (threads s (list_entry e))) (elems E s Sleep_list)"
    "mset (run_order E s3) = mset (run_order E s) + mset (map list_entry (filter (due s (ticks s + 1)) (elems E s Sleep_list)))"
    using same2 same3 w by (simp_all add: same_time_def woken_def due order) (simp add: due_def not_le)
  have r0: "0 \<le> demand E s2" by (simp add: demand_def)
  have "0 \<le> load_avg s3 \<and> load_avg s3 \<le> N * F"
    using la load_avg_spec_bounds [OF la(1,2) r0 n2] by (simp add: la3 la2 s1(5))
  moreover have "intr_yield_pending E (cpu s1) \<longleftrightarrow> intr_yield_pending E (cpu s) \<or> TIME_SLICE \<le> thread_ticks s + 1"
    using w by (simp add: woken_def ticked_cpu)
  moreover have "preempted E s2 \<longleftrightarrow> (\<exists>t \<in> set (run_order E s3). priority (threads s3 (running s)) < priority (threads s3 t))"
  proof -
    have "run_ok E s2" using h2 by (simp add: in_handler_def sched_inv_def accounted_def)
    moreover have "priority (threads s3 t) = priority (threads s2 t)" for t by (simp add: th3)
    ultimately show ?thesis using preempted_iff [of s2] by (simp add: order3 s2(2) higher_def)
  qed
  moreover have "(sched_step E)\<^sup>*\<^sup>* s s3" using st1 st2 st3 by (meson rtranclp_trans)
  ultimately show ?thesis using run h3 s3 q th p3 p2 la3 la2 s1 s2 demand
    by (intro exI [of _ s3]) (simp add: in_handler_def)
qed

end

text \<open>C3. A timer interrupt under the feedback scheduler, with at most \<open>N\<close> threads wanting to run.  The due threads are woken and join
  the run queue; every fourth tick each thread but the idle one gets the priority of the formula, before
  \<open>recent_cpu\<close> decays and the load average is renewed, which happens every second and from the number of threads that are ready after the
  wake-ups.  No arithmetic overflows, the load average stays below \<open>N\<close>, the invariant of the scheduler is kept, and the running
  thread is asked to give way exactly when it was before, its time slice is used up, or, at a fourth tick, a ready thread has a
  higher priority.\<close>

theorem timer_interrupt_advanced_correct:
  assumes "kernel_env E" and "advanced_ok E N s"
  shows "\<exists>s'. returns (timer_interrupt E s) () s' \<and> (sched_step E)\<^sup>*\<^sup>* s s' \<and> sched_inv E s' \<and> ticks s' = ticks s + 1 \<and>
    running s' = running s \<and> idle_thread s' = idle_thread s \<and>
    elems E s' Sleep_list = filter (\<lambda>e. ticks s + 1 < wakeup_tick (threads s (list_entry e))) (elems E s Sleep_list) \<and>
    mset (run_order E s') = mset (run_order E s) + mset (map list_entry (filter (due s (ticks s + 1)) (elems E s Sleep_list))) \<and>
    (\<forall>t \<in> live E s. Some t \<noteq> idle_thread s \<longrightarrow> threads s' t = after_tick E s t) \<and>
    load_avg s' = (if (ticks s + 1) smod TIMER_FREQ = 0 then load_avg_spec (load_avg s) (demand E s') else load_avg s) \<and>
    0 \<le> load_avg s' \<and> load_avg s' \<le> N * F \<and>
    (intr_yield_pending E (cpu s') \<longleftrightarrow> intr_yield_pending E (cpu s) \<or> TIME_SLICE \<le> thread_ticks s + 1 \<or>
      ((ticks s + 1) smod 4 = 0 \<and> (\<exists>t \<in> set (run_order E s'). priority (threads s' (running s)) < priority (threads s' t))))"
  by (rule kernel_env.advanced_interrupt_runs [OF assms])

section \<open>Example\<close>

text \<open>Tick 99: thread 1, with \<open>nice\<close> 5, runs, thread 2 is ready, thread 4 sleeps until tick 100.\<close>

definition advanced_example :: ref_kstate where
  "advanced_example = (ref_state True INTR_OFF
    ((\<lambda>_. ref_thread THREAD_BLOCKED 31)(1 := (ref_thread THREAD_RUNNING 31)\<lparr>nice := 5\<rparr>, 2 := ref_thread THREAD_READY 31,
      4 := (ref_thread THREAD_BLOCKED 31)\<lparr>wakeup_tick := 100\<rparr>))
    ((\<lambda>_. [])(Mlfqs_list 31 := [elem_of 2], Sleep_list := [sleep_elem_of 4],
      All_list := [allelem_of 1, allelem_of 2, allelem_of 4, allelem_of 9])))
    \<lparr>ticks := 99, cpu := \<lparr>flag_level = INTR_OFF, flag_context = True, flag_pending = False\<rparr>\<rparr>"

lemma advanced_example_simps [simp]:
  "threads advanced_example = (\<lambda>_. ref_thread THREAD_BLOCKED 31)(1 := (ref_thread THREAD_RUNNING 31)\<lparr>nice := 5\<rparr>,
    2 := ref_thread THREAD_READY 31, 4 := (ref_thread THREAD_BLOCKED 31)\<lparr>wakeup_tick := 100\<rparr>)"
  "lists advanced_example = (\<lambda>_. [])(Mlfqs_list 31 := [elem_of 2], Sleep_list := [sleep_elem_of 4],
    All_list := [allelem_of 1, allelem_of 2, allelem_of 4, allelem_of 9])"
  "cpu advanced_example = \<lparr>flag_level = INTR_OFF, flag_context = True, flag_pending = False\<rparr>"
  "ticks advanced_example = 99" "thread_mlfqs advanced_example" "running advanced_example = 1" "load_avg advanced_example = 0"
  "idle_thread advanced_example = Some 9" "thread_ticks advanced_example = 0" "idle_ticks advanced_example = 0"
  "kernel_ticks advanced_example = 0"
  by (simp_all add: advanced_example_def) (simp_all add: ref_state_def)

lemma advanced_example_order: "run_order ref_externs advanced_example = [2]"
proof -
  have "concat (map (\<lambda>i. elems ref_externs advanced_example (Mlfqs_list i)) (rev [PRI_MIN..PRI_MAX])) = [elem_of 2]"
    by (simp add: kernel_consts rev_map [symmetric] priorities_unfold)
  then show ?thesis by (simp add: run_order_def mlfqs_queue_def)
qed

lemma advanced_example_live: "live ref_externs advanced_example = {1, 2, 4, 9}"
  by (auto simp: live_def)

lemma advanced_example_ok: "advanced_ok ref_externs 3 advanced_example"
proof -
  have once: "linked_once ref_externs (lists advanced_example)" by (auto simp: linked_once_def)
  have ok: "run_ok ref_externs advanced_example"
    using once by (auto simp: run_ok_def mlfqs_ok_def mlfqs_queues_ok_def)
  have inv: "sched_inv ref_externs advanced_example"
    using ok by (simp add: sched_inv_def accounted_def advanced_example_live advanced_example_order kernel_consts unlinked_def)
  have tick: "threads (ticked ref_externs advanced_example) =
      (threads advanced_example)(1 := (ref_thread THREAD_RUNNING 31)\<lparr>nice := 5, recent_cpu := F\<rparr>)"
    by (simp add: ticked_def charged_def Let_def fun_eq_iff)
  show ?thesis
    using inv unfolding advanced_ok_def in_handler_def tick advanced_example_live
    by (simp add: ticks_ok_def is_i64_def is_i32_def sleepers_ok_def due_def unblock_ok_def wakeable_def unlinked_def
        mlfqs_inputs_ok_def decays_ok_def kernel_consts demand_def advanced_example_order)
qed

theorem timer_interrupt_advanced_correct_witness:
  "\<exists>s'. returns (timer_interrupt ref_externs advanced_example) () s' \<and> ticks s' = 100 \<and> lists s' Sleep_list = [] \<and>
    priority (threads s' 1) = 53 \<and> priority (threads s' 4) = 63 \<and> load_avg s' = 819 \<and> flag_pending (cpu s')"
proof -
  let ?s = advanced_example
  obtain s' where run: "returns (timer_interrupt ref_externs ?s) () s'" "ticks s' = ticks ?s + 1" "running s' = running ?s"
    and idle: "idle_thread s' = idle_thread ?s"
    and sl: "elems ref_externs s' Sleep_list = filter (\<lambda>e. ticks ?s + 1 < wakeup_tick (threads ?s (list_entry e))) (elems ref_externs ?s Sleep_list)"
    and q: "mset (run_order ref_externs s') = mset (run_order ref_externs ?s) +
      mset (map list_entry (filter (due ?s (ticks ?s + 1)) (elems ref_externs ?s Sleep_list)))"
    and th: "\<forall>t \<in> live ref_externs ?s. Some t \<noteq> idle_thread ?s \<longrightarrow> threads s' t = after_tick ref_externs ?s t"
    and la: "load_avg s' = (if (ticks ?s + 1) smod TIMER_FREQ = 0 then load_avg_spec (load_avg ?s) (demand ref_externs s') else load_avg ?s)"
    and p: "intr_yield_pending ref_externs (cpu s') \<longleftrightarrow> intr_yield_pending ref_externs (cpu ?s) \<or> TIME_SLICE \<le> thread_ticks ?s + 1 \<or>
      ((ticks ?s + 1) smod 4 = 0 \<and> (\<exists>t \<in> set (run_order ref_externs s'). priority (threads s' (running ?s)) < priority (threads s' t)))"
    using timer_interrupt_advanced_correct [OF ref.kernel_env_axioms advanced_example_ok] by (elim exE conjE) (rule that)
  have h: "100 smod 4 = (0 :: int)" "100 smod TIMER_FREQ = 0" by (simp_all add: TIMER_FREQ_def)
  have t: "t \<in> {1, 2, 4} \<Longrightarrow> threads s' t = after_tick ref_externs ?s t" for t using th by (auto simp: advanced_example_live)
  have after: "priority (after_tick ref_externs ?s 1) = 53" "priority (after_tick ref_externs ?s 2) = 63"
    "priority (after_tick ref_externs ?s 4) = 63"
    by (simp_all add: after_tick_def Let_def h readied_def mlfqs_priority_spec_def kernel_consts)
  have order: "mset (run_order ref_externs s') = {#2, 4#}" using q by (simp add: advanced_example_order due_def)
  then have set: "set (run_order ref_externs s') = {2, 4}" by (metis set_mset_mset set_mset_add_mset_insert set_mset_empty)
  have len: "length (run_order ref_externs s') = 2" using arg_cong [OF order, of size] by simp
  have "demand ref_externs s' = 3" using run(3) idle len by (simp add: demand_def)
  then have "load_avg s' = 819" using la h by (simp add: load_avg_spec_def)
  moreover have "flag_pending (cpu s')" using p set t after h run(3) by simp
  moreover have "lists s' Sleep_list = []" using sl by simp
  ultimately show ?thesis using run t after by (intro exI [of _ s']) simp
qed

end
