(* ===== verification/Interleaving.thy ===== *)
theory Interleaving
  imports Reachability Advanced_Timer
begin

text \<open>
  The code against the machine.  The machine of \<open>Machine\<close> makes one call of a scheduler function in one step.  Here interrupts
  may come in at the end of every statement that runs with interrupts on, and a thread that has switched away goes on later in
  whatever state it is resumed in.  Code that \<open>follows\<close> the machine does nothing but steps of it, at whatever points
  other threads and handlers interfere by steps of their own (rely and guarantee are the same relation).
\<close>

section \<open>Following the machine\<close>

text \<open>Other code has run between two statements of a thread, which goes on in the second state.\<close>

definition resumes :: "('l, 'i, 'p) externs \<Rightarrow> (('l, 'i, 'p) kstate \<Rightarrow> bool) \<Rightarrow>
    ('l, 'i, 'p) kstate \<Rightarrow> ('l, 'i, 'p) kstate \<Rightarrow> bool" where
  "resumes E J s s1 \<longleftrightarrow> (sched_step E)\<^sup>*\<^sup>* s s1 \<and> running s1 = running s \<and> level E s1 = level E s \<and>
    intr_context E (cpu s1) = intr_context E (cpu s) \<and> J s1"

text \<open>The kernel may stop in the ways \<open>A\<close> only.  The code started in state
  \<open>s0\<close>, or has followed the machine up to there.  \<open>J\<close> is what it relies on besides: the other threads are
  assumed to keep it.\<close>

coinductive follows :: "('l, 'i, 'p) externs \<Rightarrow> panic set \<Rightarrow> (('l, 'i, 'p) kstate \<Rightarrow> bool) \<Rightarrow>
    ('l, 'i, 'p) kstate \<Rightarrow> (('l, 'i, 'p) kstate, 'a) outcome \<Rightarrow> bool"
  for E :: "('l, 'i, 'p) externs" and A :: "panic set" and J :: "('l, 'i, 'p) kstate \<Rightarrow> bool" where
  follows_Done: "(sched_step E)\<^sup>*\<^sup>* s0 s \<Longrightarrow> follows E A J s0 (Done v s)"
| follows_Panic: "e \<in> A \<Longrightarrow> follows E A J s0 (Panic e)"
| follows_off: "level E s = INTR_OFF \<Longrightarrow> follows E A J s0 (k s) \<Longrightarrow> follows E A J s0 (Pause s k)"
| follows_on: "level E s = INTR_ON \<Longrightarrow> (sched_step E)\<^sup>*\<^sup>* s0 s \<Longrightarrow> (\<And>s1. resumes E J s s1 \<Longrightarrow> follows E A J s1 (k s1)) \<Longrightarrow>
    follows E A J s0 (Pause s k)"
| follows_Switch: "switch_to E p n s = Inr s' \<Longrightarrow> (sched_step E)\<^sup>*\<^sup>* s0 s' \<Longrightarrow>
    (\<And>q s2 s3. running s2 = p \<Longrightarrow> thread_schedule_tail E (Some q) s2 = Inr s3 \<Longrightarrow> sched_inv E s3 \<Longrightarrow>
      \<not> intr_context E (cpu s3) \<Longrightarrow> J s3 \<Longrightarrow> follows E A J s3 (r q s2)) \<Longrightarrow>
    follows E A J s0 (Switch p n s r)"

lemma follows_before:
  assumes "follows E A J s1 m" and "(sched_step E)\<^sup>*\<^sup>* s0 s1"
  shows "follows E A J s0 m"
proof -
  have "\<exists>s1. follows E A J s1 m \<and> (sched_step E)\<^sup>*\<^sup>* s0 s1" using assms by blast
  then show ?thesis
  proof (coinduction arbitrary: s0 m)
    case follows
    then obtain s1 where f: "follows E A J s1 m" and s1: "(sched_step E)\<^sup>*\<^sup>* s0 s1" by blast
    from f show ?case
    proof cases
      case (follows_Switch p n s s' r)
      have "(sched_step E)\<^sup>*\<^sup>* s0 s'" using s1 follows_Switch(3) by (rule rtranclp_trans)
      then show ?thesis using follows_Switch(2,4) by (simp add: follows_Switch(1))
    qed (use s1 in \<open>auto intro: rtranclp_trans\<close>)
  qed
qed

lemma follows_quiet: "quiet E m m' \<Longrightarrow> follows E A J s0 m' \<Longrightarrow> follows E A J s0 m"
  by (induction rule: quiet.induct) (simp_all add: follows_off)

lemma quiet_kbind: "quiet E m m' \<Longrightarrow> quiet E (kbind m f) (kbind m' f)"
  by (induction rule: quiet.induct) (simp_all add: quiet_refl quiet_pause)

lemma quiet_trans: "quiet E m m' \<Longrightarrow> quiet E m' m'' \<Longrightarrow> quiet E m m''"
  by (induction rule: quiet.induct) (auto intro: quiet_pause)

lemma quiet_kwhile_from: "quiet E m m' \<Longrightarrow> quiet E (kwhile_from c b m) (kwhile_from c b m')"
  by (induction rule: quiet.induct) (simp_all add: quiet_refl quiet_pause)

lemma tail_facts:
  "thread_schedule_tail E (Some q) s2 = Inr s3 \<Longrightarrow> level E s2 = INTR_OFF \<and> cpu s3 = cpu s2 \<and> running s3 = running s2 \<and> lists s3 = lists s2"
  by (auto simp: thread_schedule_tail_def Let_def ensure_eq_Inr split: if_splits)

context kernel_env
begin

lemma follows_level: "sched_inv E s \<Longrightarrow> follows E A J s (kset_level E lv s)"
  by (simp add: kset_level_def kmodify_def follows_Done r_into_rtranclp [of "sched_step E", OF cpu_step])

lemma switch_goes_through:
  assumes "parked E s1" and d: "schedule E s1 = Switch q n s2 r"
  shows "\<exists>s'. switch_to E q n s2 = Inr s'"
proof -
  from schedule_parked [OF assms(1)] d have "q = running s1" "n \<noteq> q" "level E s2 = INTR_OFF"
    using assms(1) by (auto simp: parked_def split: option.splits if_splits)
  then show ?thesis using thread_schedule_tail_switched [of E "s2\<lparr>running := n\<rparr>" q] by (simp add: switch_to_def)
qed

text \<open>A call of \<open>schedule\<close> and what comes after it.\<close>

lemma follows_schedule:
  assumes p: "parked E s1" and idle: "idle_thread s1 \<noteq> None"
    and sw: "\<And>n s2 r s'. schedule E s1 = Switch (running s1) n s2 r \<Longrightarrow> switch_to E (running s1) n s2 = Inr s' \<Longrightarrow> sched_step E s0 s'"
    and dn: "\<And>s2. schedule E s1 = Done () s2 \<Longrightarrow> follows E A J s0 (f () s2)"
    and rs: "\<And>s3. sched_inv E s3 \<Longrightarrow> running s3 = running s1 \<Longrightarrow> level E s3 = INTR_OFF \<Longrightarrow> \<not> intr_context E (cpu s3) \<Longrightarrow> J s3 \<Longrightarrow>
      follows E A J s3 (f () s3)"
  shows "follows E A J s0 (kbind (schedule E s1) f)"
proof (cases "run_next E s1")
  case None
  then show ?thesis using idle by (simp add: run_next_def split: list.splits)
next
  case (Some n)
  with schedule_parked [OF p] obtain h where d: "schedule E s1 = (if n = running s1
      then Done () ((upd_thread n (status_update (\<lambda>_. THREAD_RUNNING)) (s1\<lparr>lists := h\<rparr>))\<lparr>thread_ticks := 0\<rparr>)
      else Switch (running s1) n (s1\<lparr>lists := h\<rparr>) (\<lambda>prev. katomic (thread_schedule_tail E (Some prev))))" by auto
  show ?thesis
  proof (cases "n = running s1")
    case True
    have "level E s1 = INTR_OFF" using p by (simp add: parked_def)
    with True d dn show ?thesis by (simp add: follows_off)
  next
    case False
    have "follows E A J s3 (kbind (katomic (thread_schedule_tail E (Some q)) s2) f)"
      if "running s2 = running s1" and t: "thread_schedule_tail E (Some q) s2 = Inr s3" and "sched_inv E s3" "\<not> intr_context E (cpu s3)" "J s3"
      for q s2 s3
      using that tail_facts [OF t] rs [of s3] by (simp add: katomic_def follows_off)
    moreover obtain s' where s': "switch_to E (running s1) n (s1\<lparr>lists := h\<rparr>) = Inr s'"
      using switch_goes_through [OF p] False d by auto
    moreover have "(sched_step E)\<^sup>*\<^sup>* s0 s'" using sw [OF _ s'] False d by simp
    ultimately show ?thesis using False d by (auto intro!: follows_Switch)
  qed
qed

end

section \<open>The functions of the scheduler\<close>

context kernel_env
begin

lemma yield_rest_follows:
  assumes inv: "sched_inv E s" and nint: "\<not> intr_context E (cpu s)" and idle: "idle_thread s \<noteq> None"
  shows "follows E A J s (yield_rest E (running s) s)"
proof -
  let ?f = "\<lambda>_. kset_level E (level E s)"
  from yield_parks [OF inv nint] obtain s1 where p: "parked E s1" and same: "idle_thread s1 = idle_thread s"
    and qt: "quiet E (yield_rest E (running s) s) (kbind (schedule E s1) ?f)"
    and as: "runs_as (thread_yield E s) (kbind (schedule E s1) ?f)" by blast
  have "idle_thread s1 \<noteq> None" using idle same by simp
  then have "follows E A J s (kbind (schedule E s1) ?f)"
  proof (rule follows_schedule [OF p])
    fix n s2 r s' assume d: "schedule E s1 = Switch (running s1) n s2 r" "switch_to E (running s1) n s2 = Inr s'"
    then have "switches (thread_yield E s) (running s1) n s2 (\<lambda>q s'. kbind (r q s') ?f)" using as by (simp add: runs_as_def)
    from this d(2) show "sched_step E s s'" by (rule step_yield)
  next
    fix s2 assume "schedule E s1 = Done () s2"
    then have "returns (thread_yield E s) () (upd_cpu (intr_set_level E (level E s)) s2)"
      using as by (simp add: runs_as_def kset_level_def kmodify_def)
    from step_keep [OF this] show "follows E A J s (?f () s2)" by (simp add: kset_level_def kmodify_def follows_Done r_into_rtranclp)
  qed (rule follows_level)
  with qt show ?thesis by (rule follows_quiet)
qed

text \<open>Code whose first statement is done, at either interrupt level.\<close>

lemma follows_pause:
  assumes inv: "sched_inv E s" and k: "\<And>s1. sched_inv E s1 \<Longrightarrow> s1 = s \<or> resumes E J s s1 \<Longrightarrow> follows E A J s1 (k s1)"
  shows "follows E A J s (Pause s k)"
proof (cases "level E s")
  case INTR_OFF
  then show ?thesis using k [OF inv] by (simp add: follows_off)
next
  case INTR_ON
  then show ?thesis
    using k steps_inv [OF _ inv] by (auto intro!: follows_on simp: resumes_def)
qed

lemma resumes_facts:
  assumes "s1 = s \<or> resumes E J s s1"
  shows "running s1 = running s" "level E s1 = level E s" "intr_context E (cpu s1) = intr_context E (cpu s)"
  using assms by (auto simp: resumes_def)

text \<open>What every thread relies on: there is an idle thread.\<close>

lemma relied:
  assumes "s1 = s \<or> resumes E J s s1" and "idle_thread s \<noteq> None" and "\<And>s. J s \<Longrightarrow> idle_thread s \<noteq> None"
  shows "idle_thread s1 \<noteq> None"
  using assms by (auto simp: resumes_def)

lemma follows_pauseI:
  assumes inv: "sched_inv E s" and idle: "idle_thread s \<noteq> None" and J: "\<And>s. J s \<Longrightarrow> idle_thread s \<noteq> None"
    and k: "\<And>s1. sched_inv E s1 \<Longrightarrow> idle_thread s1 \<noteq> None \<Longrightarrow> follows E A J s1 (k s1)"
  shows "follows E A J s (Pause s k)"
proof (rule follows_pause [OF inv])
  fix s1 assume "sched_inv E s1" and r: "s1 = s \<or> resumes E J s s1"
  then show "follows E A J s1 (k s1)" using relied [OF r idle J] k by simp
qed

lemma yield_follows:
  assumes inv: "sched_inv E s" and nint: "\<not> intr_context E (cpu s)" and idle: "idle_thread s \<noteq> None"
    and J: "\<And>s. J s \<Longrightarrow> idle_thread s \<noteq> None"
  shows "follows E A J s (thread_yield E s)"
  unfolding yield_exit_rest(1) [OF sched_inv_on_cpu [OF inv] nint]
proof (rule follows_pause [OF inv])
  fix s1 assume "sched_inv E s1" and r: "s1 = s \<or> resumes E J s s1"
  with yield_rest_follows [of s1 A J] nint resumes_facts [OF r] relied [OF r idle J]
  show "follows E A J s1 (yield_rest E (running s) s1)" by simp
qed

text \<open>Blocking, from a state in which the element of the thread has been put on some list.\<close>

lemma blocked_never_next:
  assumes p: "parked E s1" and "status (threads s1 (running s1)) = THREAD_BLOCKED" and "Some (running s1) \<noteq> idle_thread s1"
  shows "run_next E s1 \<noteq> Some (running s1)"
proof -
  have "running s1 \<notin> set (run_order E s1)"
    using assms(1,2) unfolding parked_def accounted_def by (metis subsetD thread_status.distinct(7))
  then show ?thesis using assms(3) by (cases "run_order E s1") (auto simp: run_next_def)
qed

lemma block_follows:
  assumes inv: "sched_inv E s" and h: "relinked E (running s) s h" and nidle: "Some (running s) \<noteq> idle_thread s"
    and some: "idle_thread s \<noteq> None" and nint: "\<not> intr_context E (cpu s)" and off: "level E s = INTR_OFF"
    and rs: "\<And>s3. sched_inv E s3 \<Longrightarrow> running s3 = running s \<Longrightarrow> level E s3 = INTR_OFF \<Longrightarrow> \<not> intr_context E (cpu s3) \<Longrightarrow> J s3 \<Longrightarrow>
      follows E A J s3 (f () s3)"
  shows "follows E A J s (kbind (thread_block E (s\<lparr>lists := h\<rparr>)) f)"
proof -
  from block_parks [OF inv h _ nint off] nidle obtain s1 where p: "parked E s1" and run: "running s1 = running s"
    and idle: "idle_thread s1 = idle_thread s" and st: "status (threads s1 (running s1)) = THREAD_BLOCKED"
    and qt: "quiet E (thread_block E (s\<lparr>lists := h\<rparr>)) (schedule E s1)" by auto
  have "idle_thread s1 \<noteq> None" using some idle by simp
  then have "follows E A J s (kbind (schedule E s1) f)"
  proof (rule follows_schedule [OF p])
    fix n s2 r s' assume d: "schedule E s1 = Switch (running s1) n s2 r" "switch_to E (running s1) n s2 = Inr s'"
    then have "switches (thread_block E (s\<lparr>lists := h\<rparr>)) (running s1) n s2 r"
      using quiet_runs_as [OF qt] by (simp add: runs_as_def)
    from step_block [OF h _ this d(2)] nidle show "sched_step E s s'" by simp
  next
    fix s2 assume "schedule E s1 = Done () s2"
    from schedule_done [OF p this] show "follows E A J s (f () s2)"
      using blocked_never_next [OF p st] nidle run idle by simp
  qed (simp add: run rs)
  with quiet_kbind [OF qt] show ?thesis by (rule follows_quiet)
qed

text \<open>The idle thread blocks too, and may go on at once.\<close>

lemma idle_block_follows:
  assumes inv: "sched_inv E s" and nint: "\<not> intr_context E (cpu s)" and off: "level E s = INTR_OFF"
    and some: "idle_thread s \<noteq> None"
  shows "follows E A J s (thread_block E s)"
proof -
  have h: "relinked E (running s) s (lists s)" "unlinked E (elem_of (running s)) (lists s)"
    using inv run_ok_linked [of E s] by (auto simp: relinked_def sched_inv_def accounted_def)
  from block_parks [OF inv h(1) h(2) nint off] obtain s1 where p: "parked E s1" and same: "idle_thread s1 = idle_thread s"
    and qt: "quiet E (thread_block E s) (schedule E s1)" by auto
  have as: "switches (thread_block E s) q n s2 r = switches (schedule E s1) q n s2 r"
    "returns (thread_block E s) () s2 = returns (schedule E s1) () s2" for q n s2 r
    using quiet_runs_as [OF qt] by (simp_all add: runs_as_def)
  have "follows E A J s (schedule E s1)"
  proof (cases "schedule E s1")
    case (Done u s2)
    with as(2) [of s2] have "returns (thread_block E s) () s2" by simp
    from step_idle [OF this] show ?thesis by (simp add: Done follows_Done r_into_rtranclp)
  next
    case (Switch q n s2 r)
    with schedule_parked [OF p] have r: "r = (\<lambda>prev. katomic (thread_schedule_tail E (Some prev)))"
      by (auto split: option.splits if_splits)
    have "sched_step E s s'" if "switch_to E q n s2 = Inr s'" for s'
      using step_block [OF h(1) _ _ that, of r] h(2) as(1) [of q n s2 r] Switch by simp
    moreover obtain s' where "switch_to E q n s2 = Inr s'" using switch_goes_through [OF p Switch] by blast
    ultimately show ?thesis unfolding Switch r by (intro follows_Switch) (auto simp: katomic_def follows_Done)
  qed (use schedule_parked [OF p] some same in \<open>auto simp: run_next_def split: option.splits if_splits list.splits\<close>)
  with qt show ?thesis by (rule follows_quiet)
qed

lemma exit_follows:
  assumes inv: "sched_inv E s" and nint: "\<not> intr_context E (cpu s)" 
    and nidle: "Some (running s) \<noteq> idle_thread s" "idle_thread s \<noteq> None" and A: "Not_reached \<in> A"
    and J: "\<And>s. J s \<Longrightarrow> Some (running s) \<noteq> idle_thread s \<and> idle_thread s \<noteq> None"
  shows "follows E A J s (thread_exit E s)"
proof -
  have rest: "follows E A J s (exit_rest E s)" if s: "sched_inv E s" "\<not> intr_context E (cpu s)"
    "Some (running s) \<noteq> idle_thread s" "idle_thread s \<noteq> None" for s
  proof -
    let ?f = "\<lambda>_ s. Panic Not_reached"
    from exit_parks [OF s(1,3,2)] obtain s1 where p: "parked E s1" and qt: "quiet E (exit_rest E s) (kbind (schedule E s1) ?f)"
      and as: "runs_as (thread_exit E s) (kbind (schedule E s1) ?f)" and "idle_thread s1 = idle_thread s" by blast
    with s(4) have "idle_thread s1 \<noteq> None" by simp
    then have "follows E A J s (kbind (schedule E s1) ?f)"
    proof (rule follows_schedule [OF p])
      fix n s2 r s' assume d: "schedule E s1 = Switch (running s1) n s2 r" "switch_to E (running s1) n s2 = Inr s'"
      then have "switches (thread_exit E s) (running s1) n s2 (\<lambda>q s'. kbind (r q s') ?f)" using as by (simp add: runs_as_def)
      from step_exit [OF s(3) this d(2)] show "sched_step E s s'" .
    qed (simp_all add: follows_Panic A)
    with qt show ?thesis by (rule follows_quiet)
  qed
  show ?thesis unfolding yield_exit_rest(2) [OF sched_inv_on_cpu [OF inv] nint]
  proof (rule follows_pause [OF inv])
    fix s1 assume "sched_inv E s1" and r: "s1 = s \<or> resumes E J s s1"
    moreover have "Some (running s1) \<noteq> idle_thread s1 \<and> idle_thread s1 \<noteq> None" using r nidle J by (auto simp: resumes_def)
    ultimately show "follows E A J s1 (exit_rest E s1)" using nint resumes_facts(3) [OF r] by (simp add: rest)
  qed
qed

text \<open>The preemption test: by the time it yields, the thread it found at the front of the queue may have run already.\<close>

lemma preempt_follows:
  assumes inv: "sched_inv E s" and idle: "idle_thread s \<noteq> None" and J: "\<And>s. J s \<Longrightarrow> idle_thread s \<noteq> None"
  shows "follows E A J s (kif (\<lambda>s. P s)
    (kif (\<lambda>s. intr_context E (cpu s)) (kmodify (upd_cpu (intr_yield_on_return E))) (thread_yield E)) kskip s)"
  using yield_follows [OF inv _ idle J] cpu_step [OF inv]
  by (auto simp: kif_def kmodify_def kskip_def intro!: follows_Done r_into_rtranclp)

lemma preempt_current_follows:
  assumes "sched_inv E s" and "idle_thread s \<noteq> None" and "\<And>s. J s \<Longrightarrow> idle_thread s \<noteq> None"
  shows "follows E A J s (kcall thread_current (\<lambda>cur. kif (\<lambda>s. P cur s)
    (kif (\<lambda>s. intr_context E (cpu s)) (kmodify (upd_cpu (intr_yield_on_return E))) (thread_yield E)) kskip) s)"
  using preempt_follows [OF assms] sched_inv_on_cpu [OF assms(1)] by (simp add: kcall_def)

text \<open>Between the test that the ready list is not empty and the look at its front interrupts can come in, if they are on.\<close>

lemma check_preemption_follows:
  assumes inv: "sched_inv E s" and idle: "idle_thread s \<noteq> None" and J: "\<And>s. J s \<Longrightarrow> idle_thread s \<noteq> None"
    and A: "level E s = INTR_ON \<Longrightarrow> Empty_list \<in> A"
  shows "follows E A J s (check_preemption E s)"
proof -
  let ?look = "kcall (front_thread E Ready_list) (\<lambda>t. kpause (kcall thread_current (\<lambda>cur.
    kif (\<lambda>s. priority (threads s t) > priority (threads s cur))
      (kif (\<lambda>s. intr_context E (cpu s)) (kmodify (upd_cpu (intr_yield_on_return E))) (thread_yield E)) kskip)))"
  have look: "follows E A J s1 (?look s1)"
    if "sched_inv E s1" "idle_thread s1 \<noteq> None" "list_empty E Ready_list (lists s1) \<Longrightarrow> Empty_list \<in> A" for s1
    using that preempt_current_follows [OF _ _ J]
    by (auto simp: kcall_def [of "front_thread E Ready_list"] front_thread_def ensure_def kpause_def
        intro!: follows_Panic follows_pauseI [OF _ _ J])
  show ?thesis
  proof (cases "list_empty E Ready_list (lists s)")
    case False
    have "follows E A J s (Pause s ?look)"
    proof (cases "level E s")
      case INTR_OFF
      then show ?thesis using look [OF inv idle] False by (simp add: follows_off)
    next
      case INTR_ON
      then show ?thesis using look A by (intro follows_pauseI [OF inv idle J]) simp_all
    qed
    then show ?thesis using False by (simp add: check_preemption_def kif_def kpause_def)
  qed (simp add: check_preemption_def kif_def kskip_def follows_Done)
qed

lemma mlfqs_check_preemption_follows:
  assumes inv: "sched_inv E s" and idle: "idle_thread s \<noteq> None" and J: "\<And>s. J s \<Longrightarrow> idle_thread s \<noteq> None"
  shows "follows E A J s (mlfqs_check_preemption E s)"
proof -
  have loop: "follows E A J s (mlfqs_highest E is f s)"
    if "\<And>p s. sched_inv E s \<Longrightarrow> idle_thread s \<noteq> None \<Longrightarrow> follows E A J s (f p s)" "sched_inv E s" "idle_thread s \<noteq> None"
    for "is" and f :: "int \<Rightarrow> (('l, 'i, 'p) kstate, unit) kernel" and s
    using that by (induction "is" arbitrary: s) (auto simp: kif_def kpause_def intro!: follows_pauseI [OF _ _ J])
  show ?thesis
    unfolding mlfqs_check_preemption_def by (rule loop [OF preempt_current_follows [OF _ _ J] inv idle])
qed

lemma preemption_check_follows:
  assumes "sched_inv E s" and "idle_thread s \<noteq> None" and "\<And>s. J s \<Longrightarrow> idle_thread s \<noteq> None"
    and "\<not> thread_mlfqs s \<Longrightarrow> level E s = INTR_ON \<Longrightarrow> Empty_list \<in> A"
  shows "follows E A J s (preemption_check E s)"
  using check_preemption_follows [OF assms(1-3)] mlfqs_check_preemption_follows [OF assms(1-3)] assms(4)
  by (simp add: preemption_check_def kif_def)

lemma set_priority_follows:
  assumes inv: "sched_inv E s" and p: "thread_mlfqs s \<Longrightarrow> PRI_MIN \<le> p \<and> p \<le> PRI_MAX"
    and idle: "idle_thread s \<noteq> None" and J: "\<And>s. J s \<Longrightarrow> idle_thread s \<noteq> None"
    and A: "level E s = INTR_ON \<Longrightarrow> Empty_list \<in> A"
  shows "follows E A J s (thread_set_priority E p s)"
proof -
  define s1 where "s1 = upd_thread (running s) (priority_update (\<lambda>_. p)) s"
  have ok: "run_ok E s" and "unlinked E (elem_of (running s)) (lists s)"
    using inv by (simp_all add: sched_inv_def accounted_def)
  then have "running s \<notin> set (run_order E s)" using queued_linked by auto
  then have "in_order E s s1" by (intro in_orderI [OF ok]) (auto simp: s1_def)
  then have "untouched E s s1" using p run_ok_linked [OF ok] by (auto simp: untouched_def s1_def)
  then have st: "sched_step E s s1" by (rule step_other)
  have "follows E A J s1 (Pause s1 (check_preemption E))"
  proof (rule follows_pause [OF sched_step_inv [OF st inv]])
    fix s2 assume inv2: "sched_inv E s2" and r: "s2 = s1 \<or> resumes E J s1 s2"
    have "idle_thread s2 \<noteq> None" using relied [OF r _ J] idle by (simp add: s1_def)
    moreover have "level E s2 = INTR_ON \<Longrightarrow> Empty_list \<in> A" using resumes_facts(2) [OF r] A by (simp add: s1_def)
    ultimately show "follows E A J s2 (check_preemption E s2)" using check_preemption_follows [OF inv2 _ J] by blast
  qed
  then have "follows E A J s (Pause s1 (check_preemption E))" using st by (rule follows_before [OF _ r_into_rtranclp])
  then show ?thesis using sched_inv_on_cpu [OF inv] by (simp add: thread_set_priority_def kernel_defs s1_def)
qed

end

section \<open>Semaphores\<close>

text \<open>The waiters of a semaphore are threads that can be woken.\<close>

definition waiters_ok :: "('l, 'i, 'p) externs \<Rightarrow> sema_ptr \<Rightarrow> ('l, 'i, 'p) kstate \<Rightarrow> bool" where
  "waiters_ok E x s \<longleftrightarrow> (\<forall>e \<in> set (elems E s (Sema_waiters x)). member_of e = Elem \<and> list_entry e \<in> live E s \<and>
    status (threads s (list_entry e)) = THREAD_BLOCKED \<and>
    Some (list_entry e) \<noteq> idle_thread s \<and> (thread_mlfqs s \<longrightarrow> mlfqs_inputs_ok (threads s (list_entry e))))"

context kernel_env
begin

lemma sema_wake_steps:
  assumes inv: "sched_inv E s" and w: "waiters_ok E x s"
  shows "\<exists>s'. sema_wake E x s = Inr s' \<and> (sched_step E)\<^sup>*\<^sup>* s s' \<and> idle_thread s' = idle_thread s \<and>
    level E s' = level E s"
proof -
  define s1 where "s1 = upd_cpu (\<lambda>i. snd (intr_disable E i)) s"
  define fin :: "('l, 'i, 'p) kstate \<Rightarrow> ('l, 'i, 'p) kstate" where "fin = (\<lambda>s2. upd_cpu (intr_set_level E (fst (intr_disable E (cpu s)))) (upd_sema x (sema_value_update (\<lambda>v. v + 1)) s2))"
  have s1: "sched_step E s s1" unfolding s1_def by (rule cpu_step [OF inv])
  have inv1: "sched_inv E s1" by (rule sched_step_inv [OF s1 inv])
  have last: "sched_step E s2 (fin s2)" if "sched_inv E s2" for s2
    using that by (intro other_step) (simp_all add: fin_def)
  show ?thesis
  proof (cases "elems E s (Sema_waiters x)")
    case Nil
    then have "sema_wake E x s = Inr (fin s1)"
      by (simp add: sema_wake_def Let_def list_empty_iff s1_def fin_def)
    moreover have "(sched_step E)\<^sup>*\<^sup>* s (fin s1)" using last [OF inv1] s1 by (meson converse_rtranclp_into_rtranclp r_into_rtranclp)
    ultimately show ?thesis by (simp add: fin_def s1_def intr_laws)
  next
    case (Cons e es)
    define h where "h = snd (list_pop_front E (Sema_waiters x) (lists s))"
    obtain t where e: "e = elem_of t" using w Cons by (cases e) (simp add: waiters_ok_def)
    have once: "linked_once E (lists s)" using inv run_ok_linked by (auto simp: sched_inv_def accounted_def)
    have h: "relinked E t s1 h" "unlinked E (elem_of t) h"
      using linked_once_pop_front [OF once Cons] unlinked_pop_front [OF once Cons] unlinked_pop_front_other [OF Cons]
        elems_pop_front [OF Cons] by (auto simp: relinked_def h_def s1_def e)
    have t: "t \<in> live E s1" "Some t \<noteq> idle_thread s1" "if thread_mlfqs s1 then mlfqs_inputs_ok (threads s1 t) else True"
      "status (threads s1 t) = THREAD_BLOCKED"
      using w Cons by (simp_all add: waiters_ok_def e s1_def live_def)
    moreover have "magic (threads s1 t) = THREAD_MAGIC" using inv1 t(1) by (simp add: sched_inv_def accounted_def)
    ultimately have "unblock_ok E t (s1\<lparr>lists := h\<rparr>)" using h(2) by (simp add: unblock_ok_def wakeable_def)
    moreover have "run_ok E (s1\<lparr>lists := h\<rparr>)" using relinked_run(2) [OF h(1)] inv1 by (simp add: sched_inv_def accounted_def)
    ultimately obtain s2 h2 c2 where s2: "thread_unblock E t (s1\<lparr>lists := h\<rparr>) = Inr s2"
      "s2 = (s1\<lparr>lists := h\<rparr>)\<lparr>lists := h2, cpu := c2, threads := (threads s1)(t := readied (s1\<lparr>lists := h\<rparr>) t)\<rparr>"
      using thread_unblock_enqueues [of t "s1\<lparr>lists := h\<rparr>"] by auto
    have run: "sema_wake E x s = Inr (fin s2)"
      using pop_front [OF Cons] s2(1) by (auto simp: sema_wake_def Let_def list_empty_iff s1_def h_def e Cons fin_def split: prod.splits)
    from step_unblock [OF h t(1-3) s2(1)] have st: "sched_step E s1 s2" .
    from last [OF sched_step_inv [OF st inv1]] s1 st have "(sched_step E)\<^sup>*\<^sup>* s (fin s2)"
      by (meson converse_rtranclp_into_rtranclp r_into_rtranclp)
    with run show ?thesis by (simp add: fin_def s2(2) s1_def intr_laws)
  qed
qed

lemma sema_up_follows:
  assumes inv: "sched_inv E s" and w: "waiters_ok E x s" and idle: "idle_thread s \<noteq> None" and J: "\<And>s. J s \<Longrightarrow> idle_thread s \<noteq> None"
    and A: "\<not> thread_mlfqs s \<Longrightarrow> level E s = INTR_ON \<Longrightarrow> Empty_list \<in> A"
  shows "follows E A J s (sema_up E x s)"
proof -
  from sema_wake_steps [OF inv w] idle obtain s1 where run: "sema_wake E x s = Inr s1" and st: "(sched_step E)\<^sup>*\<^sup>* s s1"
    and some: "idle_thread s1 \<noteq> None" and lev: "level E s1 = level E s" by auto
  note s1 = steps_mode [OF st inv]
  have "follows E A J s1 (Pause s1 (preemption_check E))"
  proof (rule follows_pause)
    fix s2 assume inv2: "sched_inv E s2" and r: "s2 = s1 \<or> resumes E J s1 s2"
    have "thread_mlfqs s2 = thread_mlfqs s" using r s1 steps_mode [of s1 s2] by (auto simp: resumes_def)
    then show "follows E A J s2 (preemption_check E s2)"
      using relied [OF r some J] resumes_facts(2) [OF r] lev A by (intro preemption_check_follows [OF inv2 _ J]) auto
  qed (use s1 in simp)
  from follows_before [OF this st] show ?thesis by (simp add: sema_up_def kernel_defs run)
qed

end

text \<open>What waiting relies on: there is an idle thread, which is another one, and the lists a thread is put on are in order.\<close>

definition waits_ok :: "('l, 'i, 'p) externs \<Rightarrow> ('l, 'i, 'p) kstate \<Rightarrow> bool" where
  "waits_ok E s \<longleftrightarrow> idle_thread s \<noteq> None \<and> Some (running s) \<noteq> idle_thread s \<and> sleepers_ok E s \<and> unlinked E (sleep_elem_of (running s)) (lists s) \<and>
    (\<forall>x. sorted_wrt (\<lambda>a b. \<not> less_priority s b a) (elems E s (Sema_waiters x)))"

lemma waits_ok_cpu [simp]: "waits_ok E (upd_cpu g s) = waits_ok E s"
proof -
  have "less_priority (upd_cpu g s) = less_priority s" "wakeup_less (upd_cpu g s) = wakeup_less s"
    by (simp_all add: less_priority_def wakeup_less_def Let_def fun_eq_iff)
  then show ?thesis by (simp add: waits_ok_def sleepers_ok_def)
qed

text \<open>The loop of \<open>sema_down\<close>: one turn of its body, and what comes after it.\<close>

definition wait_turn :: "('l, 'i, 'p) externs \<Rightarrow> sema_ptr \<Rightarrow> (('l, 'i, 'p) kstate, unit) kernel" where
  "wait_turn E x = kseq [kcall thread_current (\<lambda>cur. kmodify (sema_enlist E x cur)), thread_block E]"

definition take_unit :: "('l, 'i, 'p) externs \<Rightarrow> sema_ptr \<Rightarrow> intr_level \<Rightarrow> (('l, 'i, 'p) kstate, unit) kernel" where
  "take_unit E x lv = kseq [kmodify (upd_sema x (sema_value_update (\<lambda>v. v - 1))), kset_level E lv]"

definition wait_loop :: "('l, 'i, 'p) externs \<Rightarrow> sema_ptr \<Rightarrow> intr_level \<Rightarrow> (('l, 'i, 'p) kstate, unit) outcome \<Rightarrow>
    (('l, 'i, 'p) kstate, unit) outcome" where
  "wait_loop E x lv m = kbind (kwhile_from (\<lambda>s. sema_value (semas s x) = 0) (wait_turn E x) m) (\<lambda>_. take_unit E x lv)"

definition can_wait :: "('l, 'i, 'p) externs \<Rightarrow> ('l, 'i, 'p) kstate \<Rightarrow> bool" where
  "can_wait E s \<longleftrightarrow> sched_inv E s \<and> level E s = INTR_OFF \<and> \<not> intr_context E (cpu s) \<and> waits_ok E s"

text \<open>A thread that has switched away inside the loop.\<close>

definition waiting :: "('l, 'i, 'p) externs \<Rightarrow> sema_ptr \<Rightarrow> intr_level \<Rightarrow> ('l, 'i, 'p) kstate \<Rightarrow>
    (('l, 'i, 'p) kstate, unit) outcome \<Rightarrow> bool" where
  "waiting E x lv s0 m \<longleftrightarrow> (\<exists>n s. m = wait_loop E x lv (Switch (running s0) n s (\<lambda>q. katomic (thread_schedule_tail E (Some q)))) \<and>
    (\<exists>s'. switch_to E (running s0) n s = Inr s' \<and> (sched_step E)\<^sup>*\<^sup>* s0 s'))"

context kernel_env
begin

lemma enlist_relinked:
  assumes inv: "sched_inv E s" and "sorted_wrt (\<lambda>a b. \<not> less_priority s b a) (elems E s (Sema_waiters x))"
  shows "relinked E (running s) s (list_insert_ordered E (Sema_waiters x) (elem_of (running s)) (less_priority s) (lists s))"
proof -
  have once: "linked_once E (lists s)" and un: "unlinked E (elem_of (running s)) (lists s)"
    using inv run_ok_linked by (auto simp: sched_inv_def accounted_def)
  have "unlinked E (elem_of u) (list_insert_ordered E (Sema_waiters x) (elem_of (running s)) (less_priority s) (lists s))"
    if "u \<noteq> running s" "unlinked E (elem_of u) (lists s)" for u
    using that elems_insert_ordered [OF un assms(2)] by (auto simp: unlinked_def)
  then show ?thesis
    using linked_once_insert_ordered [OF once un assms(2)] elems_insert_ordered [OF un assms(2)] by (auto simp: relinked_def)
qed

lemma wait_loop_turn:
  assumes c: "can_wait E s"
  shows "\<exists>m. quiet E (wait_loop E x lv (Done () s)) m \<and> (waiting E x lv s m \<or> follows E A J s m)"
proof (cases "sema_value (semas s x) = 0")
  case False
  define s1 where "s1 = upd_cpu (intr_set_level E lv) (upd_sema x (sema_value_update (\<lambda>v. v - 1)) s)"
  have "sched_step E s s1" using c by (intro other_step) (simp_all add: can_wait_def s1_def)
  then have "(sched_step E)\<^sup>*\<^sup>* s s1" by simp
  then have "follows E A J s (wait_loop E x lv (Done () s))"
    using False c by (auto simp: wait_loop_def take_unit_def kernel_defs kset_level_def s1_def can_wait_def
        intro!: follows_off follows_Done)
  then show ?thesis using quiet_refl by blast
next
  case True
  define h where "h = list_insert_ordered E (Sema_waiters x) (elem_of (running s)) (less_priority s) (lists s)"
  have inv: "sched_inv E s" and off: "level E s = INTR_OFF" and nint: "\<not> intr_context E (cpu s)" and w: "waits_ok E s"
    using c by (simp_all add: can_wait_def)
  have h: "relinked E (running s) s h" unfolding h_def by (rule enlist_relinked [OF inv]) (use w in \<open>simp add: waits_ok_def\<close>)
  have nidle: "Some (running s) \<noteq> idle_thread s" using w by (simp add: waits_ok_def)
  from block_parks [OF inv h _ nint off] nidle obtain s1 where p: "parked E s1" and run: "running s1 = running s"
    and idle: "idle_thread s1 = idle_thread s" and st: "status (threads s1 (running s1)) = THREAD_BLOCKED"
    and qt: "quiet E (thread_block E (s\<lparr>lists := h\<rparr>)) (schedule E s1)" by auto
  have "quiet E (wait_loop E x lv (Done () s)) (wait_loop E x lv (thread_block E (s\<lparr>lists := h\<rparr>)))"
    using True off sched_inv_on_cpu [OF inv]
    by (simp add: wait_loop_def wait_turn_def kernel_defs sema_enlist_def upd_lists_def h_def quiet_pause quiet_refl)
  moreover have "quiet E (wait_loop E x lv (thread_block E (s\<lparr>lists := h\<rparr>))) (wait_loop E x lv (schedule E s1))"
    unfolding wait_loop_def by (intro quiet_kbind quiet_kwhile_from qt)
  ultimately have q: "quiet E (wait_loop E x lv (Done () s)) (wait_loop E x lv (schedule E s1))" by (rule quiet_trans)
  show ?thesis
  proof (cases "run_next E s1")
    case None
    then show ?thesis using w idle by (simp add: run_next_def waits_ok_def split: list.splits)
  next
    case (Some n)
    with blocked_never_next [OF p st] nidle run idle have "n \<noteq> running s1" by auto
    with Some schedule_parked [OF p] obtain h' where d: "schedule E s1 =
        Switch (running s) n (s1\<lparr>lists := h'\<rparr>) (\<lambda>prev. katomic (thread_schedule_tail E (Some prev)))" by (auto simp: run)
    have "sched_step E s s'" if "switch_to E (running s) n (s1\<lparr>lists := h'\<rparr>) = Inr s'" for s'
      using step_block [OF h _ _ that] nidle quiet_runs_as [OF qt] by (simp add: runs_as_def d)
    moreover obtain s' where "switch_to E (running s) n (s1\<lparr>lists := h'\<rparr>) = Inr s'" using switch_goes_through [OF p d] by blast
    ultimately have "waiting E x lv s (wait_loop E x lv (schedule E s1))"
      unfolding waiting_def d by blast
    with q show ?thesis by blast
  qed
qed

lemma wait_loop_follows:
  assumes "can_wait E s"
  shows "follows E A (waits_ok E) s (wait_loop E x lv (Done () s))"
proof -
  have "follows E A (waits_ok E) s0 m"
    if "\<exists>m'. quiet E m m' \<and> (waiting E x lv s0 m' \<or> follows E A (waits_ok E) s0 m')" for s0 m
    using that
  proof (coinduction arbitrary: s0 m)
    case follows
    then obtain m' where q: "quiet E m m'" and m': "waiting E x lv s0 m' \<or> follows E A (waits_ok E) s0 m'" by blast
    from q show ?case
    proof cases
      case (quiet_pause s k)
      then show ?thesis using m' by auto
    next
      case quiet_refl
      with m' consider "waiting E x lv s0 m" | "follows E A (waits_ok E) s0 m" by blast
      then show ?thesis
      proof cases
        case 1
        then obtain n s where m: "m = Switch (running s0) n s (\<lambda>q s2. wait_loop E x lv (katomic (thread_schedule_tail E (Some q)) s2))"
          and st: "\<exists>s'. switch_to E (running s0) n s = Inr s' \<and> (sched_step E)\<^sup>*\<^sup>* s0 s'"
          by (auto simp: waiting_def wait_loop_def)
        have "\<exists>m'. quiet E (wait_loop E x lv (katomic (thread_schedule_tail E (Some q)) s2)) m' \<and>
            (waiting E x lv s3 m' \<or> follows E A (waits_ok E) s3 m')"
          if t: "thread_schedule_tail E (Some q) s2 = Inr s3" and s3: "sched_inv E s3" "\<not> intr_context E (cpu s3)" "waits_ok E s3"
          for q s2 s3
          using wait_loop_turn [of s3 x lv A "waits_ok E"] s3 tail_facts [OF t] by (simp add: katomic_def t can_wait_def)
        with st show ?thesis unfolding m by simp
      next
        case 2
        then show ?thesis by cases auto
      qed
    qed
  qed
  with wait_loop_turn [OF assms] show ?thesis by blast
qed

lemma sema_down_follows:
  assumes inv: "sched_inv E s" and nint: "\<not> intr_context E (cpu s)" and w: "waits_ok E s"
  shows "follows E A (waits_ok E) s (sema_down E x s)"
proof -
  let ?body = "kdisable E (\<lambda>old_level. kthen (kwhile (\<lambda>s. sema_value (semas s x) = 0) (wait_turn E x)) (take_unit E x old_level))"
  have body: "follows E A (waits_ok E) s1 (?body s1)" if "sched_inv E s1" "\<not> intr_context E (cpu s1)" "waits_ok E s1" for s1
  proof -
    define s2 where "s2 = upd_cpu (\<lambda>i. snd (intr_disable E i)) s1"
    have st: "sched_step E s1 s2" unfolding s2_def by (rule cpu_step [OF that(1)])
    have "can_wait E s2" using sched_step_inv [OF st that(1)] that(2,3)
      by (simp add: can_wait_def s2_def intr_laws)
    from wait_loop_follows [OF this] have "follows E A (waits_ok E) s1 (wait_loop E x (level E s1) (Done () s2))"
      by (rule follows_before) (rule r_into_rtranclp [of "sched_step E", OF st])
    then show ?thesis by (simp add: wait_loop_def kdisable_def kthen_def kwhile_def s2_def intr_laws)
  qed
  have "follows E A (waits_ok E) s (Pause s ?body)"
  proof (rule follows_pause [OF inv])
    fix s1 assume "sched_inv E s1" and r: "s1 = s \<or> resumes E (waits_ok E) s s1"
    moreover have "waits_ok E s1" using r w by (auto simp: resumes_def)
    ultimately show "follows E A (waits_ok E) s1 (?body s1)" using nint resumes_facts(3) [OF r] by (simp add: body)
  qed
  then show ?thesis using nint by (simp add: sema_down_def kthen_def kassert_def wait_turn_def take_unit_def)
qed

lemma sleep_follows:
  assumes inv: "sched_inv E s" and nint: "\<not> intr_context E (cpu s)" and w: "waits_ok E s" and on: "level E s = INTR_ON"
  shows "follows E A (waits_ok E) s (timer_sleep E n s)"
proof -
  define s0 where "s0 = upd_cpu (\<lambda>i. intr_set_level E (level E s) (snd (intr_disable E i))) s"
  let ?enlist = "\<lambda>c s. upd_lists (list_insert_ordered E Sleep_list (sleep_elem_of c) (wakeup_less s)) s"
  let ?tail = "\<lambda>start lv cur. kseq [kmodify (upd_thread cur (wakeup_tick_update (\<lambda>_. i64 (start + n)))), kmodify (?enlist cur),
    thread_block E, kset_level E lv]"
  have tail: "follows E A (waits_ok E) s1 (?tail start lv (running s1) s1)" if c: "can_wait E s1" for s1 start lv
  proof -
    let ?c = "running s1"
    define s2 where "s2 = upd_thread ?c (wakeup_tick_update (\<lambda>_. i64 (start + n))) s1"
    define h where "h = list_insert_ordered E Sleep_list (sleep_elem_of ?c) (wakeup_less s2) (lists s1)"
    have inv1: "sched_inv E s1" and w1: "waits_ok E s1" and off: "level E s1 = INTR_OFF" and nint1: "\<not> intr_context E (cpu s1)"
      using c by (simp_all add: can_wait_def)
    have st: "sched_step E s1 s2" using inv1 by (intro other_step) (simp_all add: s2_def)
    have inv2: "sched_inv E s2" by (rule sched_step_inv [OF st inv1])
    have free: "unlinked E (sleep_elem_of ?c) (lists s1)" and sl: "sleepers_ok E s1" and nidle: "Some ?c \<noteq> idle_thread s1"
      "idle_thread s1 \<noteq> None"
      using w1 by (simp_all add: waits_ok_def)
    note srt = sleepers_insert(1) [OF sl free s2_def]
    have once: "linked_once E (lists s1)" using inv1 run_ok_linked by (auto simp: sched_inv_def accounted_def)
    have "relinked E (running s2) s2 h"
      using linked_once_insert_ordered [OF once free srt] elems_insert_ordered [OF free srt]
      by (auto simp: relinked_def h_def s2_def unlinked_def)
    from block_follows [OF inv2 this, where J = "waits_ok E" and f = "\<lambda>_. kset_level E lv"] nidle nint1 off follows_level
    have "follows E A (waits_ok E) s2 (kbind (thread_block E (s2\<lparr>lists := h\<rparr>)) (\<lambda>_. kset_level E lv))"
      by (simp add: s2_def)
    from follows_before [OF this r_into_rtranclp [of "sched_step E", OF st]]
    have "follows E A (waits_ok E) s1 (kbind (thread_block E (s2\<lparr>lists := h\<rparr>)) (\<lambda>_. kset_level E lv))" .
    then show ?thesis using off by (simp add: kernel_defs s2_def h_def upd_lists_def follows_off)
  qed
  let ?start = "ticks s"
  let ?dis = "kdisable E (\<lambda>old_level. kpause (kcall thread_current (?tail ?start old_level)))"
  have dis: "follows E A (waits_ok E) s1 (?dis s1)" if s1: "sched_inv E s1" "\<not> intr_context E (cpu s1)" "waits_ok E s1" for s1
  proof -
    define s2 where "s2 = upd_cpu (\<lambda>i. snd (intr_disable E i)) s1"
    have st: "sched_step E s1 s2" unfolding s2_def by (rule cpu_step [OF s1(1)])
    have c: "can_wait E s2" using sched_step_inv [OF st s1(1)] s1(2,3) by (simp add: can_wait_def s2_def intr_laws)
    from follows_before [OF tail [OF c] r_into_rtranclp [of "sched_step E", OF st]] sched_inv_on_cpu [OF s1(1)] c
    show ?thesis by (simp add: kdisable_def kpause_def kcall_def s2_def follows_off can_wait_def on_cpu_def)
  qed
  have code: "timer_sleep E n s = Pause s0 (\<lambda>s1. if level E s1 = INTR_ON
      then Pause s1 (\<lambda>s2. if n \<le> 0 then Done () s2 else ?dis s2) else Panic Assert_intr_on)"
    by (auto simp: timer_sleep_def kticks_def timer_ticks_eq kpause_def kthen_def kassert_def kif_def kskip_def s0_def fun_eq_iff)
  have st: "sched_step E s s0" unfolding s0_def by (rule cpu_step [OF inv])
  have good: "waits_ok E s2 \<and> \<not> intr_context E (cpu s2)"
    if "s2 = s1 \<or> resumes E (waits_ok E) s1 s2" "waits_ok E s1" "\<not> intr_context E (cpu s1)" for s1 s2
    using that by (auto simp: resumes_def)
  have s0: "waits_ok E s0" "\<not> intr_context E (cpu s0)" using w nint by (simp_all add: s0_def intr_laws)
  have "follows E A (waits_ok E) s0 (timer_sleep E n s)"
    unfolding code
  proof (rule follows_pause [OF sched_step_inv [OF st inv]])
    fix s1 assume inv1: "sched_inv E s1" and r1: "s1 = s0 \<or> resumes E (waits_ok E) s0 s1"
    note g1 = good [OF r1 s0]
    have "follows E A (waits_ok E) s1 (Pause s1 (\<lambda>s2. if n \<le> 0 then Done () s2 else ?dis s2))"
    proof (rule follows_pause [OF inv1])
      fix s2 assume inv2: "sched_inv E s2" and r2: "s2 = s1 \<or> resumes E (waits_ok E) s1 s2"
      from dis [OF inv2] good [OF r2] g1 show "follows E A (waits_ok E) s2 (if n \<le> 0 then Done () s2 else ?dis s2)"
        by (simp add: follows_Done)
    qed
    moreover have "level E s1 = INTR_ON" using resumes_facts(2) [OF r1] on by (simp add: s0_def intr_laws)
    ultimately show "follows E A (waits_ok E) s1 (if level E s1 = INTR_ON
        then Pause s1 (\<lambda>s2. if n \<le> 0 then Done () s2 else ?dis s2) else Panic Assert_intr_on)" by simp
  qed
  then show ?thesis by (rule follows_before) (rule r_into_rtranclp [of "sched_step E", OF st])
qed

end

text \<open>How the preemption test can stop the kernel, if it looks at the ready list at all.\<close>

definition stale_reads :: "('l, 'i, 'p) externs \<Rightarrow> bool \<Rightarrow> ('l, 'i, 'p) kstate \<Rightarrow> panic set" where
  "stale_reads E looks s = (if looks \<and> level E s = INTR_ON then {Empty_list} else {})"

section \<open>What other threads can see\<close>

text \<open>The states in which other code runs, or runs again, while the code does: at a pause with interrupts on, after a switch, and
  at the end.\<close>

inductive visible :: "('l, 'i, 'p) externs \<Rightarrow> (('l, 'i, 'p) kstate \<Rightarrow> bool) \<Rightarrow>
    (('l, 'i, 'p) kstate, 'a) outcome \<Rightarrow> ('l, 'i, 'p) kstate \<Rightarrow> bool"
  for E :: "('l, 'i, 'p) externs" and J :: "('l, 'i, 'p) kstate \<Rightarrow> bool" where
  visible_Done: "visible E J (Done v s) s"
| visible_here: "level E s = INTR_ON \<Longrightarrow> visible E J (Pause s k) s"
| visible_off: "level E s = INTR_OFF \<Longrightarrow> visible E J (k s) s' \<Longrightarrow> visible E J (Pause s k) s'"
| visible_on: "level E s = INTR_ON \<Longrightarrow> resumes E J s s1 \<Longrightarrow> visible E J (k s1) s' \<Longrightarrow> visible E J (Pause s k) s'"
| visible_switch: "switch_to E p n s = Inr s' \<Longrightarrow> visible E J (Switch p n s r) s'"
| visible_resumed: "running s2 = p \<Longrightarrow> thread_schedule_tail E (Some q) s2 = Inr s3 \<Longrightarrow> sched_inv E s3 \<Longrightarrow>
    \<not> intr_context E (cpu s3) \<Longrightarrow> J s3 \<Longrightarrow> visible E J (r q s2) s' \<Longrightarrow> visible E J (Switch p n s r) s'"

inductive_simps follows_simps:
  "follows E A J s0 (Done v s)"
  "follows E A J s0 (Pause s k)"
  "follows E A J s0 (Switch p n s r)"

context kernel_env
begin

lemma visible_inv:
  assumes "visible E J m v" and "follows E A J s0 m" and "sched_inv E s0"
  shows "sched_inv E v"
  using assms
proof (induction arbitrary: s0 rule: visible.induct)
  case (visible_on s s1 k s')
  then have "follows E A J s1 (k s1)" "(sched_step E)\<^sup>*\<^sup>* s0 s" by (auto simp: follows_simps)
  moreover have "sched_inv E s1"
    using steps_inv [OF _ steps_inv [OF \<open>(sched_step E)\<^sup>*\<^sup>* s0 s\<close> visible_on.prems(2)], of s1] visible_on.hyps by (simp add: resumes_def)
  ultimately show ?case by (intro visible_on.IH)
next
  case (visible_resumed s2 p q s3 r s' n s)
  then have "follows E A J s3 (r q s2)" by (auto simp: follows_simps)
  with visible_resumed.IH visible_resumed.hyps(3) show ?case by blast
qed (auto simp: follows_simps intro: steps_inv)

lemma operations_follow:
  assumes inv: "sched_inv E s" and nint: "\<not> intr_context E (cpu s)" and w: "waits_ok E s" and x: "waiters_ok E x s"
    and p: "PRI_MIN \<le> p" "p \<le> PRI_MAX"
    and opn: "(opn, A) \<in> {(thread_yield E, {}), (thread_exit E, {Not_reached}), (sema_down E y, {}),
      (if level E s = INTR_OFF then thread_block E else timer_sleep E n, {}),
      (preemption_check E, stale_reads E (\<not> thread_mlfqs s) s), (sema_up E x, stale_reads E (\<not> thread_mlfqs s) s),
      (thread_set_priority E p, stale_reads E True s)}"
  shows "follows E A (waits_ok E) s (opn s)"
proof -
  have J: "waits_ok E s \<Longrightarrow> idle_thread s \<noteq> None" "waits_ok E s \<Longrightarrow> Some (running s) \<noteq> idle_thread s" for s
    by (simp_all add: waits_ok_def)
  note idle = J(1) [OF w]
  have "level E s = INTR_OFF \<or> level E s = INTR_ON" by (cases "level E s") simp_all
  with opn yield_follows [OF inv nint idle J(1)] exit_follows [OF inv nint J(2) [OF w] idle] J
    preemption_check_follows [OF inv idle J(1)] set_priority_follows [OF inv _ idle J(1)] p
    sema_up_follows [OF inv x idle J(1)] sema_down_follows [OF inv nint w] sleep_follows [OF inv nint w]
    idle_block_follows [OF inv nint _ idle]
  show ?thesis by (auto simp: stale_reads_def split: if_splits)
qed

end

text \<open>C2. The operations that may give up the processor or change the run queue, called anywhere outside interrupt handlers by a thread other than the idle
  thread (\<open>thread_block\<close> with interrupts off, \<open>timer_sleep\<close> with interrupts on), do nothing but
  steps of the machine, whatever steps of the machine interrupts and other threads make at the ends of statements and while the
  thread is switched out.  So in every state in which other code gets to run, and at the end, the invariant of the scheduler
  holds.  No assertion fails, with two exceptions: a thread that is resumed after its exit stops the kernel, and the
  preemption test of the priority scheduler, run with interrupts on, can look for the front of a ready list that has become
  empty.  The other code is relied on to keep the rules of the lists: it does not contend for a held lock, and a donation leaves the
  run queue and the waiting lists in order.\<close>

theorem operations_interleave:
  assumes "kernel_env E" and "sched_inv E s" and "\<not> intr_context E (cpu s)" and "waits_ok E s" and "waiters_ok E x s"
    and "PRI_MIN \<le> p" and "p \<le> PRI_MAX"
    and "(opn, A) \<in> {(thread_yield E, {}), (thread_exit E, {Not_reached}), (sema_down E y, {}),
      (if level E s = INTR_OFF then thread_block E else timer_sleep E n, {}),
      (preemption_check E, stale_reads E (\<not> thread_mlfqs s) s), (sema_up E x, stale_reads E (\<not> thread_mlfqs s) s),
      (thread_set_priority E p, stale_reads E True s)}"
  shows "follows E A (waits_ok E) s (opn s) \<and> (\<forall>v. visible E (waits_ok E) (opn s) v \<longrightarrow> sched_inv E v)"
  using kernel_env.operations_follow [OF assms] kernel_env.visible_inv [OF assms(1) _ _ assms(2)] by blast

section \<open>A stale test\<close>

context kernel_env
begin

lemma stale_front:
  assumes inv: "sched_inv E s" and eq: "equals E s" and mode: "\<not> thread_mlfqs s" and on: "level E s = INTR_ON"
    and q: "run_order E s = [t]"
  shows "\<exists>s'. resumes E (\<lambda>_. True) s s' \<and> elems E s' Ready_list = []"
proof -
  let ?c = "running s"
  from yield_rotates [OF inv eq] obtain s1 where y: "yield_step E s s1" and eq1: "equals E s1" and turn: "turn E s1 = [t, ?c]"
    and mode1: "thread_mlfqs s1 = thread_mlfqs s" by (auto simp: turn_def q)
  have inv1: "sched_inv E s1" by (rule yield_step_inv [OF y inv])
  have st1: "sched_step E s s1" using y by (auto simp: yield_step_def intro: step_keep step_yield)
  have s1: "running s1 = t" "run_order E s1 = [?c]" "Some t \<noteq> idle_thread s1" "\<not> intr_context E (cpu s1)"
    using turn eq1 by (auto simp: turn_def equals_def)
  from exit_parks [OF inv1 _ s1(4)] s1(1,3) obtain s2 where p: "parked E s2" and s2: "running s2 = t" "run_order E s2 = [?c]"
      "intr_context E (cpu s2) = intr_context E (cpu s1)" "thread_mlfqs s2 = thread_mlfqs s1"
    and as: "runs_as (thread_exit E s1) (kbind (schedule E s2) (\<lambda>_ s. Panic Not_reached))"
    by (auto simp: s1(2))
  have ne: "?c \<noteq> t" using inv queued_linked [of E s t] q by (auto simp: sched_inv_def accounted_def)
  have "run_next E s2 = Some ?c" by (simp add: run_next_def s2(2))
  with schedule_parked [OF p] ne s2(1) obtain h where d: "schedule E s2 =
      Switch t ?c (s2\<lparr>lists := h\<rparr>) (\<lambda>prev. katomic (thread_schedule_tail E (Some prev)))" by auto
  define s3 where "s3 = switched_in E t (s2\<lparr>lists := h, running := ?c\<rparr>)"
  have "switch_to E t ?c (s2\<lparr>lists := h\<rparr>) = Inr s3"
    using ne p thread_schedule_tail_switched [of E "s2\<lparr>lists := h, running := ?c\<rparr>" t] by (simp add: switch_to_def parked_def s3_def)
  note over = schedule_switch [OF p d this]
  have s3: "sched_inv E s3" "running s3 = ?c" "run_order E s3 = []" "\<not> intr_context E (cpu s3)" "thread_mlfqs s3 = thread_mlfqs s1"
    using over s2 s1(4) by (auto simp: handed_over_def)
  have "switches (thread_exit E s1) t ?c (s2\<lparr>lists := h\<rparr>) (\<lambda>q s. kbind (katomic (thread_schedule_tail E (Some q)) s) (\<lambda>_ s. Panic Not_reached))"
    using as by (simp add: runs_as_def d)
  from step_exit [OF _ this \<open>switch_to E t ?c (s2\<lparr>lists := h\<rparr>) = Inr s3\<close>] s1(1,3) have st3: "sched_step E s1 s3" by simp
  define s4 where "s4 = upd_cpu (intr_set_level E INTR_ON) s3"
  have st4: "sched_step E s3 s4" unfolding s4_def by (rule cpu_step [OF s3(1)])
  have "elems E s4 Ready_list = []" using s3(3,5) mode mode1 by (simp add: run_order_def ready_queue_def s4_def)
  moreover have "resumes E (\<lambda>_. True) s s4"
    using st1 st3 st4 s3 on eq by (simp add: resumes_def s4_def intr_laws equals_def)
  ultimately show ?thesis by blast
qed

end

text \<open>C13. The preemption test of the priority scheduler, called with interrupts on, first finds that the ready list is not empty and then
  asks for its front.  With one ready thread, of the priority of the running one, the steps that other code can make in
  between include some after which the ready list is empty: the time slice ends, the ready thread runs and
  exits.  The test then goes on with the front of an empty list.\<close>

theorem check_preemption_stale:
  assumes "kernel_env E" and "sched_inv E s" and "equals E s" and "\<not> thread_mlfqs s" and "level E s = INTR_ON"
    and "run_order E s = [t]"
  shows "\<exists>k s'. check_preemption E s = Pause s k \<and> resumes E (\<lambda>_. True) s s' \<and> elems E s' Ready_list = [] \<and>
    k s' = Panic Empty_list"
proof -
  note empty = list_lib.list_empty_iff [OF kernel_env.axioms(1) [OF assms(1)]]
  have "elems E s Ready_list \<noteq> []" using assms(4,6) by (auto simp: run_order_def ready_queue_def)
  then have "\<exists>k. check_preemption E s = Pause s k \<and> (\<forall>s'. elems E s' Ready_list = [] \<longrightarrow> k s' = Panic Empty_list)"
    by (simp add: check_preemption_def kif_def kpause_def kcall_def [of "front_thread E Ready_list"] front_thread_def empty)
  with kernel_env.stale_front [OF assms] show ?thesis by blast
qed

section \<open>Examples\<close>

text \<open>The thread \<open>main\<close> after the boot, with interrupts on, and one other ready thread.\<close>

lemma main_runs:
  "\<exists>s. sched_inv ref_externs s \<and> running s = 1 \<and> run_order ref_externs s = [8192] \<and> \<not> thread_mlfqs s \<and>
    equals ref_externs s \<and> level ref_externs s = INTR_ON"
proof -
  from boot_example_runs obtain s where s: "orderly_reachable ref_externs s" "running s = 1" "run_order ref_externs s = [8192]"
    "idle_thread s = None" "priority (threads s 8192) = priority (threads s 1)" "\<not> intr_context ref_externs (cpu s)"
    "\<not> thread_mlfqs s" by blast
  let ?s = "upd_cpu (intr_set_level ref_externs INTR_ON) s"
  have "sched_inv ref_externs ?s" using ref.reachable_inv [OF s(1)] by simp
  then show ?thesis using s by (intro exI [of _ ?s]) (simp add: equals_def ref.intr_laws)
qed

theorem check_preemption_stale_witness:
  "\<exists>s k s'. running s = 1 \<and> check_preemption ref_externs s = Pause s k \<and> resumes ref_externs (\<lambda>_. True) s s' \<and>
    k s' = Panic Empty_list"
proof -
  from main_runs obtain s where s: "sched_inv ref_externs s" "running s = 1" "run_order ref_externs s = [8192]" "\<not> thread_mlfqs s"
    "equals ref_externs s" "level ref_externs s = INTR_ON" by blast
  from check_preemption_stale [OF ref.kernel_env_axioms s(1,5,4,6,3)] s(2,3) show ?thesis by auto
qed

definition follow_example :: ref_kstate where
  "follow_example = advanced_example\<lparr>cpu := \<lparr>flag_level = INTR_ON, flag_context = False, flag_pending = False\<rparr>\<rparr>"

lemma follow_example_ok: "sched_inv ref_externs follow_example" "waits_ok ref_externs follow_example"
    "waiters_ok ref_externs (Sema 5) follow_example" "\<not> intr_context ref_externs (cpu follow_example)"
proof -
  have inv: "sched_inv ref_externs advanced_example" using advanced_example_ok unfolding advanced_ok_def in_handler_def by blast
  have eq: "follow_example = upd_cpu (\<lambda>_. \<lparr>flag_level = INTR_ON, flag_context = False, flag_pending = False\<rparr>) advanced_example"
    by (simp add: follow_example_def upd_cpu_def)
  show "sched_inv ref_externs follow_example" unfolding eq sched_inv_cpu by (rule inv)
  show "waits_ok ref_externs follow_example" by (simp add: waits_ok_def follow_example_def sleepers_ok_def unlinked_def)
  show "waiters_ok ref_externs (Sema 5) follow_example" by (simp add: waiters_ok_def follow_example_def)
  show "\<not> intr_context ref_externs (cpu follow_example)" by (simp add: follow_example_def)
qed

theorem operations_interleave_witness:
  "\<exists>v. visible ref_externs (waits_ok ref_externs) (sema_up ref_externs (Sema 5) follow_example) v \<and>
    sema_value (semas v (Sema 5)) = 1 \<and> sched_inv ref_externs v"
proof -
  obtain v where wake: "sema_wake ref_externs (Sema 5) follow_example = Inr v"
    and v: "sema_value (semas v (Sema 5)) = 1" "level ref_externs v = INTR_ON"
    by (simp add: sema_wake_def Let_def follow_example_def) (simp add: advanced_example_def)
  have vis: "visible ref_externs (waits_ok ref_externs) (sema_up ref_externs (Sema 5) follow_example) v"
    using v(2) by (simp add: sema_up_def kernel_defs wake visible_here)
  have "\<forall>v. visible ref_externs (waits_ok ref_externs) (sema_up ref_externs (Sema 5) follow_example) v \<longrightarrow> sched_inv ref_externs v"
    using operations_interleave [OF ref.kernel_env_axioms follow_example_ok(1,4,2,3), of 31 "sema_up ref_externs (Sema 5)"
      "stale_reads ref_externs (\<not> thread_mlfqs follow_example) follow_example"]
    by (simp add: kernel_consts)
  with vis v show ?thesis by blast
qed

end
