(* ===== verification/Spec2Isabelle.thy ===== *)
theory Spec2Isabelle
  imports Messages Interleaving
begin

text \<open>
  A verification development of the Pintos kernel of this repository, in the configuration of \<^verbatim>\<open>src/threads\<close>:
  kernel threads with priority scheduling and donation or with the multi-level feedback queue scheduler,
  synchronization, the timer with sleeping threads, and the boot sequence.  User programs, the file system and virtual
  memory are compiled out there.

  \<^bold>\<open>The program and its model.\<close>  The global variables of \<^verbatim>\<open>thread.c\<close>, \<^verbatim>\<open>synch.c\<close>, \<^verbatim>\<open>timer.c\<close> and \<^verbatim>\<open>init.c\<close>, the
  \<open>struct thread\<close>s, semaphores, locks and stack frames by address, and the state of the code that is not in the repository form
  the record \<open>kstate\<close>.  Doubly linked lists (\<^verbatim>\<open>lib/kernel/list.c\<close>), the interrupt flag (\<^verbatim>\<open>threads/interrupt.c\<close>) and the page
  allocator (\<^verbatim>\<open>threads/palloc.c\<close>) are not in the repository: their functions are the fields of the record \<open>externs\<close>,
  over state of their own type, and what the kernel relies on are the laws of the locales \<open>list_lib\<close>, \<open>intr_lib\<close> and
  \<open>page_alloc\<close>.  \<open>Reference_Externs\<close> gives one implementation and interprets every locale on it; the examples that
  show hypotheses to be satisfiable run on that implementation.

  Code that cannot give up the processor is a function on states with an error value (\<open>res\<close>).  Code that can is a \<open>kernel\<close>: a
  function from states to \<open>outcome\<close>s, possibly infinite trees whose nodes are the end of a statement (where an
  interrupt may come in), a call of \<open>switch_threads\<close> with the rest of the code as its continuation, a return or a panic.
  The continuation takes the state in which the thread is resumed, so nothing is assumed about what other threads do
  meanwhile.  \<open>returns\<close>, \<open>switches\<close> and \<open>panics\<close> describe a run with no interrupt on the way (all there is while
  interrupts are off); \<open>may_return\<close> and \<open>may_panic\<close> quantify over every interference.

  \<^bold>\<open>Theories.\<close>
    \<^item> \<open>Prelude\<close>: C's signed integers with the wrap-around written out, panics and results, ordered insertion, the
      collections of simplification rules.
    \<^item> \<open>Fixed_Point\<close>: \<^verbatim>\<open>fixed_point.h\<close>, with rounding and overflow bounds.
    \<^item> \<open>Kernel_Control\<close>: outcomes, sequencing, loops and the run relations.
    \<^item> \<open>Externals\<close>, \<open>Reference_Externs\<close>: the external functions, their laws, one implementation.
    \<^item> \<open>Kernel_State\<close>, \<open>Reference_State\<close>: \<^verbatim>\<open>thread.h\<close>, \<^verbatim>\<open>synch.h\<close>, the state, the running thread; concrete states.
    \<^item> \<open>Mlfqs\<close>: the 64 queues and the formulas of the feedback scheduler (\<^verbatim>\<open>thread.c\<close> from line 755).
    \<^item> \<open>Run_Queue\<close>: the abstract run queue: a sequence of threads sorted by priority, kept by the ready list and by the
      64 queues alike (the refinement), so that the scheduler is verified once for both modes.
    \<^item> \<open>Scheduler\<close>, \<open>Scheduling\<close>: blocking, unblocking, yielding, exit, the thread switch, ticks, preemption, setters.
    \<^item> \<open>Donation\<close>: \<open>donate_priority\<close> along chains of locks, which may be circular, and \<open>refresh_priority\<close>.
    \<^item> \<open>Synch\<close>, \<open>Locking\<close>, \<open>Conditions\<close>: \<^verbatim>\<open>synch.c\<close>: semaphores, locks, and condition variables.
    \<^item> \<open>Threads\<close>: \<open>thread_init\<close>, \<open>thread_create\<close> with the stack frames of a new thread, identifiers, the idle thread.
    \<^item> \<open>Timer\<close>: \<^verbatim>\<open>timer.c\<close>: sleeping, waking, the interrupt handler, calibration, delays.
    \<^item> \<open>Machine\<close>: the scheduler as a state machine with its invariant: one step is a call of a scheduler function up to and
      including the thread switch, a timer tick, the recalculation of the priorities, or other code that keeps the rules of the
      scheduler's lists (\<open>untouched\<close>).  A thread may be put on another list, such as the waiters of a semaphore, only in the step in which it
      blocks, and leaves it in the step that unblocks it (\<open>relinked\<close>).  A donation keeps the invariant exactly when it leaves the
      ready list in order (\<open>donation_keeps_invariant\<close>).
    \<^item> \<open>Reachability\<close>: the states reachable from \<open>thread_init\<close>, and what holds in all of them.
    \<^item> \<open>Advanced_Timer\<close>: the timer interrupt of the feedback scheduler; in both modes the handler is a sequence of steps.
    \<^item> \<open>Interleaving\<close>: the code against the machine: \<open>follows\<close> says that code makes only steps of the machine although interrupts
      come in at the end of any statement that runs with interrupts on, and threads are resumed in any state that satisfies the
      invariant.
    \<^item> \<open>Command_Line\<close>, \<open>Paging\<close>, \<open>Boot\<close>: \<^verbatim>\<open>init.c\<close>: the command line and its options, the kernel page tables, the
      actions and \<open>main\<close>.

  \<^bold>\<open>What is shown.\<close>  For the scheduler: which thread runs next and how the run queue changes, for every operation and
  in both modes, with the interrupt level restored; the preemption test fires exactly when it must; a
  thread that exits never runs again and its page is freed.  For the feedback scheduler: the priority formula, bounds that
  exclude overflow, and the queue invariant.  For all orders in which threads and interrupt handlers make steps that keep the rules of the lists: exactly one thread is
  running, the run queue holds exactly the ready threads, giving up the processor never fails an assertion, threads of one
  priority take turns, and the blocking operations keep to this wherever they are interrupted; the one assertion
  that interrupts can make fail is that of the preemption test, which can find the ready list empty after all.  For donation: termination, the exact set of threads raised, and that no
  thread waits for a holder of lower priority.  For synchronization: the order of waiters and of wake-ups, units of a semaphore,
  the round trip of a lock, signal and broadcast.  For the timer: exactly the due sleepers are woken, time
  slices, termination of the calibration.  For booting: the parsers, the page tables, the actions, and that the functions
  declared as never returning do not.

  \<^bold>\<open>Bounds and fuel.\<close>  Loops without a bound are corecursive (\<open>kwhile\<close>, \<open>kloop\<close>) or \<open>while_option\<close>/\<open>partial_function\<close>
  with \<open>No_return\<close> or \<open>None\<close> for not ending, and termination is proved.  The only fuel is in \<open>calibrate_bits\<close>: \<open>test_bit\<close> is
  shifted right until it equals a value at most 32 shifts away, so 33 turns suffice, which
  \<open>timer_calibrate_safe\<close> shows for every \<open>loops_per_tick\<close>.  \<open>ticks\<close> is a 64-bit integer and the properties of
  the timer carry the bound that keeps it from wrapping.

  \<^bold>\<open>Where properties carry hypotheses.\<close>  \<open>run_ok\<close> (the run queue is well-formed) and \<open>linked_once\<close> (a list element is
  in at most one list) are invariants that each operation is shown to keep; a contended \<open>lock_acquire\<close> breaks
  \<open>linked_once\<close>, since it links \<open>elem\<close> into the waiters of the lock and of its semaphore, so its property ends where it
  calls \<open>sema_down\<close>.  Properties of the donation assume priorities in their range.

  \<^bold>\<open>Not modelled.\<close>  Progress messages of the calibration, clearing of the BSS segment, whose extent the linker fixes,
  code under \<open>USERPROG\<close>, \<open>FILESYS\<close> and \<open>VM\<close>, and everything outside the repository: the assembly of
  \<open>switch_threads\<close> appears as the \<open>Switch\<close> node, which only changes \<open>running\<close>.

  \<^bold>\<open>What the interleavings rely on.\<close>  The rules of the lists, which are preconditions of \<^verbatim>\<open>lib/kernel/list.c\<close>: an element is in at most
  one list, and \<^verbatim>\<open>list_insert_ordered\<close> is called on sorted lists.  The code breaks them where a thread contends for a held lock and where a
  donation raises a ready thread above one queued before it; what happens then depends on code that is not in the repository, and
  the state machine has no such steps.  Nor has it, under the feedback scheduler, priorities outside of the range of the queues,
  which \<open>thread_set_priority\<close> lets through and at which \<open>thread_yield\<close> stops (\<open>yield_out_of_range\<close>).  Code that waits is given that
  the lists it puts itself on are in order (\<open>waits_ok\<close>).  A thread is resumed outside of interrupt handlers.

  \<^bold>\<open>Plan.\<close>  Next are \<open>thread_create\<close> and the locks as code that follows the machine, and mutual exclusion of the threads that hold
  a lock.
\<close>

end
